theory Spec2Isabelle
  imports Main "HOL-Library.Word" "HOL-Library.Monad_Syntax"
begin

section \<open>Raw memory, addresses and sizes\<close>

text \<open>
  The pool threads its free list and its block list through the raw memory it manages,
  so the model carries an explicit store.  An address is a natural number and \<open>0\<close> is
  \<^verbatim>\<open>nullptr\<close>; \<^verbatim>\<open>size_type\<close> is a 64-bit unsigned machine word, whose arithmetic
  wraps.  The store maps an address to the pointer-sized value kept there: a cell of the
  model is the eight bytes that start at its address.  Two cells of the model never
  overlap, so the model is that of the code where the addresses the code reads and writes
  are at least the size of a pointer apart (\<open>apart\<close>, \<open>spaced\<close>).  That is so for the
  chunks and trailer fields of a pool, whose chunk size is eight bytes or more.  A
  theorem on links written at addresses that the caller chooses, as in \<^verbatim>\<open>segregate\<close>
  and in giving back a chunk, takes it as a hypothesis.

  A result \<open>None\<close> stands for a call that does not return normally: a loop that walks a
  cyclic chain for ever, a division by zero, a failed \<^verbatim>\<open>assert\<close>, or the read through
  \<^verbatim>\<open>nullptr\<close> of \<^verbatim>\<open>allocate()\<close> on an empty store.
\<close>

type_synonym addr = nat
type_synonym size_type = "64 word"
type_synonym memory = "addr \<Rightarrow> nat"

definition pointer_size :: nat where
  "pointer_size = 8"

definition apart :: "addr \<Rightarrow> addr \<Rightarrow> bool" where
  "apart a b \<longleftrightarrow> a + pointer_size \<le> b \<or> b + pointer_size \<le> a"

fun spaced :: "addr list \<Rightarrow> bool" where
  "spaced [] \<longleftrightarrow> True"
| "spaced (x # xs) \<longleftrightarrow> list_all (apart x) xs \<and> spaced xs"

definition sizeof_size_type :: size_type where
  "sizeof_size_type = 8"

definition min_alloc_size :: size_type where
  "min_alloc_size = 8"

definition min_align :: size_type where
  "min_align = 8"

section \<open>segregated\_storage\<close>

record segregated_storage =
  mem :: memory
  first :: addr

text \<open>
  \<^verbatim>\<open>allocate_n\<close> starts its scan at \<^verbatim>\<open>&first_\<close>, treating the head field as if it
  were the link word of a chunk.  A \<open>cell\<close> is such a place holding a link: the head
  field, or the first word of the chunk at an address.
\<close>

datatype cell = Head | Chunk addr

definition empty :: "'a segregated_storage_scheme \<Rightarrow> bool" where
  "empty s \<longleftrightarrow> first s = 0"

definition nextof :: "memory \<Rightarrow> addr \<Rightarrow> addr" where
  "nextof m p = m p"

definition nextof_cell :: "'a segregated_storage_scheme \<Rightarrow> cell \<Rightarrow> addr" where
  "nextof_cell s c = (case c of Head \<Rightarrow> first s | Chunk a \<Rightarrow> nextof (mem s) a)"

definition set_nextof_cell ::
  "'a segregated_storage_scheme \<Rightarrow> cell \<Rightarrow> addr \<Rightarrow> 'a segregated_storage_scheme" where
  "set_nextof_cell s c v =
     (case c of Head \<Rightarrow> s\<lparr>first := v\<rparr> | Chunk a \<Rightarrow> s\<lparr>mem := (mem s)(a := v)\<rparr>)"

text \<open>
  The backwards \<^verbatim>\<open>for\<close> loop of \<^verbatim>\<open>segregate\<close>; it yields the store and \<^verbatim>\<open>old\<close>.
  The links are written \<^verbatim>\<open>partition_sz\<close> bytes apart: with a partition size below the
  size of a pointer the stores of the code overlap, which the cells of the model do not,
  so that the model of \<^verbatim>\<open>segregate\<close> is that of the code from \<open>pointer_size\<close> on.
\<close>

partial_function (option) segregate_loop ::
  "memory \<Rightarrow> addr \<Rightarrow> addr \<Rightarrow> addr \<Rightarrow> nat \<Rightarrow> (memory \<times> addr) option" where
  "segregate_loop m block iter old ps =
     (if iter = block then Some (m, old)
      else segregate_loop (m(iter := old)) block (iter - ps) iter ps)"

declare segregate_loop.simps [code]

definition segregate ::
  "memory \<Rightarrow> addr \<Rightarrow> size_type \<Rightarrow> size_type \<Rightarrow> addr \<Rightarrow> (memory \<times> addr) option" where
  "segregate m block sz partition_sz end =
     (if partition_sz = 0 then None
      else
        let shift = ((sz - partition_sz) div partition_sz) * partition_sz;
            old = block + unat shift;
            m1 = m(old := end)
        in if old = block then Some (m1, block)
           else do {
             (m2, old') \<leftarrow>
               segregate_loop m1 block (old - unat partition_sz) old (unat partition_sz);
             Some (m2(block := old'), block)
           })"

definition add_block ::
  "'a segregated_storage_scheme \<Rightarrow> addr \<Rightarrow> size_type \<Rightarrow> size_type \<Rightarrow>
   'a segregated_storage_scheme option" where
  "add_block s block nsz npartition_sz = do {
     (m, h) \<leftarrow> segregate (mem s) block nsz npartition_sz (first s);
     Some (s\<lparr>mem := m, first := h\<rparr>)
   }"

partial_function (option) find_prev_loop :: "memory \<Rightarrow> addr \<Rightarrow> addr \<Rightarrow> addr option" where
  "find_prev_loop m p iter =
     (if nextof m iter = 0 \<or> nextof m iter > p then Some iter
      else find_prev_loop m p (nextof m iter))"

declare find_prev_loop.simps [code]

definition find_prev :: "'a segregated_storage_scheme \<Rightarrow> addr \<Rightarrow> addr option" where
  "find_prev s p =
     (if first s = 0 \<or> first s > p then Some 0
      else find_prev_loop (mem s) p (first s))"

definition add_ordered_block ::
  "'a segregated_storage_scheme \<Rightarrow> addr \<Rightarrow> size_type \<Rightarrow> size_type \<Rightarrow>
   'a segregated_storage_scheme option" where
  "add_ordered_block s block nsz npartition_sz = do {
     loc \<leftarrow> find_prev s block;
     if loc = 0 then add_block s block nsz npartition_sz
     else do {
       (m, h) \<leftarrow> segregate (mem s) block nsz npartition_sz (nextof (mem s) loc);
       Some (s\<lparr>mem := m(loc := h)\<rparr>)
     }
   }"

definition allocate :: "'a segregated_storage_scheme \<Rightarrow> (addr \<times> 'a segregated_storage_scheme) option" where
  "allocate s =
     (if first s = 0 then None
      else Some (first s, s\<lparr>first := nextof (mem s) (first s)\<rparr>))"

text \<open>
  \<^verbatim>\<open>deallocate\<close> and \<^verbatim>\<open>ordered_deallocate\<close> write the link of the chunk given back, and
  the ordered one the link of the free chunk before it.  The model is that of the code
  for a chunk that overlaps no free chunk (\<open>apart\<close>), as every chunk of a pool does.
\<close>

definition deallocate :: "'a segregated_storage_scheme \<Rightarrow> addr \<Rightarrow> 'a segregated_storage_scheme" where
  "deallocate s chunk = s\<lparr>mem := (mem s)(chunk := first s), first := chunk\<rparr>"

definition ordered_deallocate ::
  "'a segregated_storage_scheme \<Rightarrow> addr \<Rightarrow> 'a segregated_storage_scheme option" where
  "ordered_deallocate s chunk = do {
     loc \<leftarrow> find_prev s chunk;
     if loc = 0 then Some (deallocate s chunk)
     else Some (s\<lparr>mem := (mem s)(chunk := nextof (mem s) loc, loc := chunk)\<rparr>)
   }"

text \<open>
  \<^verbatim>\<open>try_allocate_n(start, n, partition_size)\<close>: the \<^verbatim>\<open>while (--n != 0)\<close> loop.  The
  result is the returned pointer (\<open>0\<close> on failure) and the value left in the reference
  parameter \<^verbatim>\<open>start\<close>.
\<close>

partial_function (option) try_allocate_n_loop ::
  "memory \<Rightarrow> cell \<Rightarrow> addr \<Rightarrow> size_type \<Rightarrow> size_type \<Rightarrow> (addr \<times> cell) option" where
  "try_allocate_n_loop m start iter n partition_size =
     (if n - 1 = 0 then Some (iter, start)
      else if nextof m iter \<noteq> iter + unat partition_size then Some (0, Chunk iter)
      else try_allocate_n_loop m start (nextof m iter) (n - 1) partition_size)"

declare try_allocate_n_loop.simps [code]

definition try_allocate_n ::
  "'a segregated_storage_scheme \<Rightarrow> cell \<Rightarrow> size_type \<Rightarrow> size_type \<Rightarrow> (addr \<times> cell) option" where
  "try_allocate_n s start n partition_size =
     try_allocate_n_loop (mem s) start (nextof_cell s start) n partition_size"

text \<open>
  The \<^verbatim>\<open>do ... while (iter == nullptr)\<close> loop of \<^verbatim>\<open>allocate_n\<close>.  A first component
  \<open>0\<close> is the \<^verbatim>\<open>return nullptr\<close> inside the loop; otherwise the loop was left with
  \<^verbatim>\<open>iter\<close> and \<^verbatim>\<open>start\<close>.
\<close>

partial_function (option) allocate_n_loop ::
  "'a segregated_storage_scheme \<Rightarrow> cell \<Rightarrow> size_type \<Rightarrow> size_type \<Rightarrow> (addr \<times> cell) option" where
  "allocate_n_loop s start n partition_size =
     (if nextof_cell s start = 0 then Some (0, start)
      else do {
        (iter, start') \<leftarrow> try_allocate_n s start n partition_size;
        if iter = 0 then allocate_n_loop s start' n partition_size
        else Some (iter, start')
      })"

declare allocate_n_loop.simps [code]

definition allocate_n ::
  "'a segregated_storage_scheme \<Rightarrow> size_type \<Rightarrow> size_type \<Rightarrow>
   (addr \<times> 'a segregated_storage_scheme) option" where
  "allocate_n s n partition_size =
     (if n = 0 then Some (0, s)
      else do {
        (iter, start) \<leftarrow> allocate_n_loop s Head n partition_size;
        if iter = 0 then Some (0, s)
        else Some (nextof_cell s start, set_nextof_cell s start (nextof (mem s) iter))
      })"

definition deallocate_n ::
  "'a segregated_storage_scheme \<Rightarrow> addr \<Rightarrow> size_type \<Rightarrow> size_type \<Rightarrow>
   'a segregated_storage_scheme option" where
  "deallocate_n s chunks n partition_size =
     (if n \<noteq> 0 then add_block s chunks (n * partition_size) partition_size else Some s)"

definition ordered_deallocate_n ::
  "'a segregated_storage_scheme \<Rightarrow> addr \<Rightarrow> size_type \<Rightarrow> size_type \<Rightarrow>
   'a segregated_storage_scheme option" where
  "ordered_deallocate_n s chunks n partition_size =
     (if n \<noteq> 0 then add_ordered_block s chunks (n * partition_size) partition_size
      else Some s)"

section \<open>pod\_ptr: a block and its trailer\<close>

record pod_ptr =
  ptr :: addr
  sz :: size_type

definition pod_null :: pod_ptr where
  "pod_null = \<lparr>ptr = 0, sz = 0\<rparr>"

definition valid :: "pod_ptr \<Rightarrow> bool" where
  "valid b \<longleftrightarrow> ptr b \<noteq> 0"

definition total_size :: "pod_ptr \<Rightarrow> size_type" where
  "total_size b = sz b"

definition element_size :: "pod_ptr \<Rightarrow> size_type" where
  "element_size b = sz b - sizeof_size_type - min_alloc_size"

definition ptr_next_size :: "pod_ptr \<Rightarrow> addr" where
  "ptr_next_size b = ptr b + unat (sz b) - unat sizeof_size_type"

definition ptr_next_ptr :: "pod_ptr \<Rightarrow> addr" where
  "ptr_next_ptr b = ptr_next_size b - unat min_alloc_size"

definition pod_end :: "pod_ptr \<Rightarrow> addr" where
  "pod_end b = ptr_next_ptr b"

definition pod_next_size :: "memory \<Rightarrow> pod_ptr \<Rightarrow> size_type" where
  "pod_next_size m b = of_nat (m (ptr_next_size b))"

definition next_ptr :: "memory \<Rightarrow> pod_ptr \<Rightarrow> addr" where
  "next_ptr m b = m (ptr_next_ptr b)"

definition pod_next :: "memory \<Rightarrow> pod_ptr \<Rightarrow> pod_ptr" where
  "pod_next m b = \<lparr>ptr = next_ptr m b, sz = pod_next_size m b\<rparr>"

definition pod_set_next :: "memory \<Rightarrow> pod_ptr \<Rightarrow> pod_ptr \<Rightarrow> memory" where
  "pod_set_next m b x = m(ptr_next_ptr b := ptr x, ptr_next_size b := unat (total_size x))"

section \<open>The system allocator\<close>

text \<open>
  The pool is a template over its \<^verbatim>\<open>Allocator\<close>, which it inherits from.  The model
  takes the allocator's behaviour as data: \<open>answers k\<close> is the address the \<open>k\<close>-th
  \<^verbatim>\<open>allocate\<close> request yields (\<open>0\<close> when the request fails), and the two lists log
  the requests made and the blocks given back, oldest first.
\<close>

record sys_allocator =
  answers :: "nat \<Rightarrow> addr"
  requests :: "size_type list"
  released :: "addr list"

section \<open>pool\<close>

record pool = segregated_storage +
  list :: pod_ptr
  next_size :: size_type
  start_size :: size_type
  max_size :: size_type
  requested_size :: size_type
  sys :: sys_allocator

definition new_pool :: "size_type \<Rightarrow> size_type \<Rightarrow> size_type \<Rightarrow> memory \<Rightarrow> sys_allocator \<Rightarrow> pool" where
  "new_pool rs nsz msz m a =
     \<lparr>mem = m, first = 0, list = pod_null, next_size = nsz, start_size = nsz,
      max_size = msz, requested_size = rs, sys = a\<rparr>"

definition sys_allocate :: "pool \<Rightarrow> size_type \<Rightarrow> addr \<times> pool" where
  "sys_allocate p n =
     (answers (sys p) (length (requests (sys p))),
      p\<lparr>sys := (sys p)\<lparr>requests := requests (sys p) @ [n]\<rparr>\<rparr>)"

definition sys_deallocate :: "pool \<Rightarrow> addr \<Rightarrow> pool" where
  "sys_deallocate p a = p\<lparr>sys := (sys p)\<lparr>released := released (sys p) @ [a]\<rparr>\<rparr>"

definition fast_ceil_division :: "size_type \<Rightarrow> size_type \<Rightarrow> size_type option" where
  "fast_ceil_division numerator denominator =
     (if denominator = 0 then None
      else Some (numerator div denominator + (if numerator mod denominator \<noteq> 0 then 1 else 0)))"

definition alloc_size :: "pool \<Rightarrow> size_type option" where
  "alloc_size p =
     (let s = max (requested_size p) min_alloc_size;
          rem = s mod min_align;
          s' = (if rem \<noteq> 0 then s + (min_align - rem) else s)
      in if s' \<ge> min_alloc_size \<and> s' mod min_align = 0 then Some s' else None)"

definition pod_size :: "pool \<Rightarrow> size_type option" where
  "pod_size p = do {
     a \<leftarrow> alloc_size p;
     Some (next_size p * a + min_alloc_size + sizeof_size_type)
   }"

definition is_from_range :: "addr \<Rightarrow> addr \<Rightarrow> size_type \<Rightarrow> bool" where
  "is_from_range chunk i sizeof_i \<longleftrightarrow> i \<le> chunk \<and> chunk < i + unat sizeof_i"

text \<open>
  The update of \<^verbatim>\<open>next_size_\<close> after a block was obtained.  The source has the same
  five lines in \<^verbatim>\<open>allocate_need_resize\<close>, \<^verbatim>\<open>ordered_allocate_need_resize\<close> and
  \<^verbatim>\<open>ordered_allocate(n)\<close>.
\<close>

definition grow_next_size :: "pool \<Rightarrow> size_type \<Rightarrow> pool option" where
  "grow_next_size p partition_size =
     (if max_size p = 0 then Some (p\<lparr>next_size := push_bit 1 (next_size p)\<rparr>)
      else if requested_size p = 0 \<or> partition_size = 0 then None
      else if next_size p * partition_size div requested_size p < max_size p
      then Some (p\<lparr>next_size :=
             min (push_bit 1 (next_size p)) (max_size p * requested_size p div partition_size)\<rparr>)
      else Some p)"

text \<open>
  The ordered insertion of a new block into the block list, the same code at the end
  of \<^verbatim>\<open>ordered_allocate_need_resize\<close> and of \<^verbatim>\<open>ordered_allocate(n)\<close>.
\<close>

partial_function (option) find_prev_block :: "memory \<Rightarrow> pod_ptr \<Rightarrow> addr \<Rightarrow> pod_ptr option" where
  "find_prev_block m prev node_begin =
     (if next_ptr m prev = 0 \<or> next_ptr m prev > node_begin then Some prev
      else find_prev_block m (pod_next m prev) node_begin)"

declare find_prev_block.simps [code]

definition insert_ordered :: "pool \<Rightarrow> pod_ptr \<Rightarrow> pool option" where
  "insert_ordered p node =
     (if \<not> valid (list p) \<or> ptr (list p) > ptr node
      then Some (p\<lparr>mem := pod_set_next (mem p) node (list p), list := node\<rparr>)
      else do {
        prev \<leftarrow> find_prev_block (mem p) (list p) (ptr node);
        let m1 = pod_set_next (mem p) node (pod_next (mem p) prev);
        Some (p\<lparr>mem := pod_set_next m1 prev node\<rparr>)
      })"

text \<open>
  Asking the system allocator for a block of \<^verbatim>\<open>pod_size()\<close> bytes, with the one
  retry of the single-chunk paths: \<^verbatim>\<open>if (next_size_ > 4)\<close> halve and ask again.
\<close>

definition request_block :: "pool \<Rightarrow> (addr \<times> pool) option" where
  "request_block p = do {
     sz \<leftarrow> pod_size p;
     let (a, p1) = sys_allocate p sz;
     if a = 0 then
       if next_size p1 > 4 then do {
         let p2 = p1\<lparr>next_size := drop_bit 1 (next_size p1)\<rparr>;
         sz' \<leftarrow> pod_size p2;
         Some (sys_allocate p2 sz')
       } else Some (a, p1)
     else Some (a, p1)
   }"

definition allocate_need_resize :: "pool \<Rightarrow> (addr \<times> pool) option" where
  "allocate_need_resize p = do {
     partition_size \<leftarrow> alloc_size p;
     (a, p1) \<leftarrow> request_block p;
     if a = 0 then Some (0, p1)
     else do {
       sz \<leftarrow> pod_size p1;
       let node = \<lparr>ptr = a, sz = sz\<rparr>;
       p2 \<leftarrow> grow_next_size p1 partition_size;
       p3 \<leftarrow> add_block p2 (ptr node) (element_size node) partition_size;
       let p4 = p3\<lparr>mem := pod_set_next (mem p3) node (list p3)\<rparr>;
       let p5 = p4\<lparr>list := node\<rparr>;
       allocate p5
     }
   }"

definition ordered_allocate_need_resize :: "pool \<Rightarrow> (addr \<times> pool) option" where
  "ordered_allocate_need_resize p = do {
     partition_size \<leftarrow> alloc_size p;
     (a, p1) \<leftarrow> request_block p;
     if a = 0 then Some (0, p1)
     else do {
       sz \<leftarrow> pod_size p1;
       let node = \<lparr>ptr = a, sz = sz\<rparr>;
       p2 \<leftarrow> grow_next_size p1 partition_size;
       p3 \<leftarrow> add_ordered_block p2 (ptr node) (element_size node) partition_size;
       p4 \<leftarrow> insert_ordered p3 node;
       allocate p4
     }
   }"

definition pool_allocate :: "pool \<Rightarrow> (addr \<times> pool) option" where
  "pool_allocate p = (if \<not> empty p then allocate p else allocate_need_resize p)"

definition ordered_allocate :: "pool \<Rightarrow> (addr \<times> pool) option" where
  "ordered_allocate p = (if \<not> empty p then allocate p else ordered_allocate_need_resize p)"

text \<open>
  \<^verbatim>\<open>ordered_allocate(n)\<close>.  Its retry is guarded by \<^verbatim>\<open>num_chunks < next_size_\<close> and
  keeps \<^verbatim>\<open>next_size_\<close> at \<^verbatim>\<open>num_chunks\<close> or more.
\<close>

definition request_block_n :: "pool \<Rightarrow> size_type \<Rightarrow> (addr \<times> pool) option" where
  "request_block_n p num_chunks = do {
     let p0 = p\<lparr>next_size := max (next_size p) num_chunks\<rparr>;
     sz \<leftarrow> pod_size p0;
     let (a, p1) = sys_allocate p0 sz;
     if a = 0 then
       if num_chunks < next_size p1 then do {
         let p2 = p1\<lparr>next_size := drop_bit 1 (next_size p1)\<rparr>;
         let p3 = p2\<lparr>next_size := max (next_size p2) num_chunks\<rparr>;
         sz' \<leftarrow> pod_size p3;
         Some (sys_allocate p3 sz')
       } else Some (a, p1)
     else Some (a, p1)
   }"

definition ordered_allocate_n :: "pool \<Rightarrow> size_type \<Rightarrow> (addr \<times> pool) option" where
  "ordered_allocate_n p n = do {
     partition_size \<leftarrow> alloc_size p;
     let total_req_size = n * requested_size p;
     num_chunks \<leftarrow> fast_ceil_division total_req_size partition_size;
     (ret, p0) \<leftarrow> allocate_n p num_chunks partition_size;
     if ret \<noteq> 0 \<or> n = 0 then Some (ret, p0)
     else do {
       (a, p1) \<leftarrow> request_block_n p0 num_chunks;
       if a = 0 then Some (0, p1)
       else do {
         sz \<leftarrow> pod_size p1;
         let node = \<lparr>ptr = a, sz = sz\<rparr>;
         p2 \<leftarrow> (if next_size p1 > num_chunks
                then add_ordered_block p1 (ptr node + unat (num_chunks * partition_size))
                       (element_size node - num_chunks * partition_size) partition_size
                else Some p1);
         p3 \<leftarrow> grow_next_size p2 partition_size;
         p4 \<leftarrow> insert_ordered p3 node;
         Some (ptr node, p4)
       }
     }
   }"

definition pool_deallocate :: "pool \<Rightarrow> addr \<Rightarrow> pool" where
  "pool_deallocate p chunk = deallocate p chunk"

definition pool_ordered_deallocate :: "pool \<Rightarrow> addr \<Rightarrow> pool option" where
  "pool_ordered_deallocate p chunk = ordered_deallocate p chunk"

definition pool_deallocate_n :: "pool \<Rightarrow> addr \<Rightarrow> size_type \<Rightarrow> pool option" where
  "pool_deallocate_n p chunks n = do {
     partition_size \<leftarrow> alloc_size p;
     let total_req_size = n * requested_size p;
     num_chunks \<leftarrow> fast_ceil_division total_req_size partition_size;
     deallocate_n p chunks num_chunks partition_size
   }"

definition pool_ordered_deallocate_n :: "pool \<Rightarrow> addr \<Rightarrow> size_type \<Rightarrow> pool option" where
  "pool_ordered_deallocate_n p chunks n = do {
     partition_size \<leftarrow> alloc_size p;
     let total_req_size = n * requested_size p;
     num_chunks \<leftarrow> fast_ceil_division total_req_size partition_size;
     ordered_deallocate_n p chunks num_chunks partition_size
   }"

text \<open>
  \<^verbatim>\<open>release_memory\<close>.  \<open>release_scan\<close> is the \<^verbatim>\<open>for\<close> loop over the chunks of one
  block; it yields \<^verbatim>\<open>all_chunks_free\<close> and \<^verbatim>\<open>free_p\<close>, the latter reset to
  \<^verbatim>\<open>saved_free\<close> when the loop breaks.  \<open>release_skip\<close> is the \<^verbatim>\<open>do ... while\<close> loop
  that moves \<^verbatim>\<open>free_p\<close> past the free chunks of a kept block; it yields
  \<^verbatim>\<open>prev_free_p\<close> and \<^verbatim>\<open>free_p\<close>.  \<open>release_loop\<close> is the \<^verbatim>\<open>while\<close> loop over the
  blocks.
\<close>

partial_function (option) release_scan ::
  "memory \<Rightarrow> addr \<Rightarrow> addr \<Rightarrow> nat \<Rightarrow> addr \<Rightarrow> addr \<Rightarrow> (bool \<times> addr) option" where
  "release_scan m i e partition_size saved_free free_p =
     (if i = e then Some (True, free_p)
      else if i \<noteq> free_p then Some (False, saved_free)
      else release_scan m (i + partition_size) e partition_size saved_free (nextof m free_p))"

declare release_scan.simps [code]

partial_function (option) release_skip ::
  "memory \<Rightarrow> addr \<Rightarrow> addr \<Rightarrow> (addr \<times> addr) option" where
  "release_skip m e free_p =
     (if nextof m free_p \<noteq> 0 \<and> nextof m free_p < e then release_skip m e (nextof m free_p)
      else Some (free_p, nextof m free_p))"

declare release_skip.simps [code]

partial_function (option) release_loop ::
  "pool \<Rightarrow> size_type \<Rightarrow> pod_ptr \<Rightarrow> pod_ptr \<Rightarrow> addr \<Rightarrow> addr \<Rightarrow> bool \<Rightarrow> (bool \<times> pool) option" where
  "release_loop p partition_size blk prev free_p prev_free_p ret =
     (if \<not> valid blk then Some (ret, p)
      else if free_p = 0 then Some (ret, p)
      else do {
        (all_chunks_free, free_p1) \<leftarrow>
          release_scan (mem p) (ptr blk) (pod_end blk) (unat partition_size) free_p free_p;
        let next = pod_next (mem p) blk;
        if \<not> all_chunks_free then do {
          (prev_free_p', free_p2) \<leftarrow>
            (if is_from_range free_p1 (ptr blk) (element_size blk)
             then release_skip (mem p) (pod_end blk) free_p1
             else Some (prev_free_p, free_p1));
          release_loop p partition_size next blk free_p2 prev_free_p' ret
        } else do {
          let p1 = (if valid prev then p\<lparr>mem := pod_set_next (mem p) prev next\<rparr>
                    else p\<lparr>list := next\<rparr>);
          let p2 = (if prev_free_p \<noteq> 0 then p1\<lparr>mem := (mem p1)(prev_free_p := free_p1)\<rparr>
                    else p1\<lparr>first := free_p1\<rparr>);
          let p3 = sys_deallocate p2 (ptr blk);
          release_loop p3 partition_size next prev free_p1 prev_free_p True
        }
      })"

declare release_loop.simps [code]

definition release_memory :: "pool \<Rightarrow> (bool \<times> pool) option" where
  "release_memory p = do {
     partition_size \<leftarrow> alloc_size p;
     (ret, p') \<leftarrow> release_loop p partition_size (list p) pod_null (first p) 0 False;
     Some (ret, p'\<lparr>next_size := start_size p'\<rparr>)
   }"

text \<open>\<^verbatim>\<open>purge_memory\<close>; \<open>purge_loop\<close> is its \<^verbatim>\<open>do ... while (iter.valid())\<close> loop.\<close>

partial_function (option) purge_loop :: "pool \<Rightarrow> pod_ptr \<Rightarrow> pool option" where
  "purge_loop p iter =
     (if valid (pod_next (mem p) iter)
      then purge_loop (sys_deallocate p (ptr iter)) (pod_next (mem p) iter)
      else Some (sys_deallocate p (ptr iter)))"

declare purge_loop.simps [code]

definition purge_memory :: "pool \<Rightarrow> (bool \<times> pool) option" where
  "purge_memory p =
     (if \<not> valid (list p) then Some (False, p)
      else do {
        p1 \<leftarrow> purge_loop p (list p);
        Some (True, p1\<lparr>list := (list p1)\<lparr>ptr := 0\<rparr>, first := 0, next_size := start_size p1\<rparr>)
      })"

section \<open>The typed allocators\<close>

text \<open>
  The allocators hold a pool for chunks of \<^verbatim>\<open>sizeof(T)\<close> bytes and bracket each call
  with the pool's lock; calls on one pool are therefore serial, and the model runs them
  on the pool state directly.  \<^verbatim>\<open>throw bad_alloc()\<close> is the result \<open>Inl Bad_alloc\<close>.
\<close>

datatype exception = Bad_alloc

definition raise_if_null ::
  "size_type \<Rightarrow> (addr \<times> pool) option \<Rightarrow> ((exception + addr) \<times> pool) option" where
  "raise_if_null n r = do {
     (p, pl) \<leftarrow> r;
     if p = 0 \<and> n \<noteq> 0 then Some (Inl Bad_alloc, pl) else Some (Inr p, pl)
   }"

definition pool_allocator_allocate ::
  "pool \<Rightarrow> size_type \<Rightarrow> ((exception + addr) \<times> pool) option" where
  "pool_allocator_allocate pl n = raise_if_null n (ordered_allocate_n pl n)"

definition pool_allocator_deallocate :: "pool \<Rightarrow> addr \<Rightarrow> size_type \<Rightarrow> pool option" where
  "pool_allocator_deallocate pl p n = pool_ordered_deallocate_n pl p n"

text \<open>
  In \<^verbatim>\<open>fast_pool_allocator::allocate\<close> the branch for \<^verbatim>\<open>n == 1\<close> calls
  \<^verbatim>\<open>allocate(n)\<close>, with an argument; \<^verbatim>\<open>pool\<close> and \<^verbatim>\<open>singleton_pool\<close> declare
  \<^verbatim>\<open>allocate()\<close> only.  The model takes the function called there as the parameter
  \<open>allocate_1\<close>.
\<close>

definition fast_pool_allocator_allocate ::
  "(pool \<Rightarrow> size_type \<Rightarrow> (addr \<times> pool) option) \<Rightarrow> pool \<Rightarrow> size_type \<Rightarrow>
   ((exception + addr) \<times> pool) option" where
  "fast_pool_allocator_allocate allocate_1 pl n =
     raise_if_null n (if n = 1 then allocate_1 pl n else ordered_allocate_n pl n)"

definition fast_pool_allocator_deallocate :: "pool \<Rightarrow> addr \<Rightarrow> size_type \<Rightarrow> pool option" where
  "fast_pool_allocator_deallocate pl p n =
     (if n = 1 then Some (pool_deallocate pl p) else pool_deallocate_n pl p n)"

section \<open>What the next block size becomes\<close>

text \<open>
  The first answer of the system allocator to the pool's next request, and the number
  of chunks of the block a growing call obtains: the single-chunk paths ask for
  \<^verbatim>\<open>next_size_\<close> chunks and, failing that, for half of it; \<^verbatim>\<open>ordered_allocate(n)\<close>
  first raises \<^verbatim>\<open>next_size_\<close> to the chunks needed.
\<close>

definition first_answer :: "pool \<Rightarrow> addr" where
  "first_answer p = answers (sys p) (length (requests (sys p)))"

definition second_answer :: "pool \<Rightarrow> addr" where
  "second_answer p = answers (sys p) (Suc (length (requests (sys p))))"

definition block_bytes :: "size_type \<Rightarrow> size_type \<Rightarrow> size_type" where
  "block_bytes chunks partition_size = chunks * partition_size + min_alloc_size + sizeof_size_type"

definition block_chunks :: "pool \<Rightarrow> size_type" where
  "block_chunks p = (if first_answer p \<noteq> 0 then next_size p else drop_bit 1 (next_size p))"

definition block_chunks_n :: "pool \<Rightarrow> size_type \<Rightarrow> size_type" where
  "block_chunks_n p num_chunks =
     (if first_answer p \<noteq> 0 then max (next_size p) num_chunks
      else max (drop_bit 1 (max (next_size p) num_chunks)) num_chunks)"

text \<open>
  The growth rule in the words of the specification, with the guard of the code: a
  block of \<open>chunks\<close> chunks was obtained.
\<close>

definition grown :: "pool \<Rightarrow> size_type \<Rightarrow> size_type \<Rightarrow> size_type" where
  "grown p partition_size chunks =
     (if max_size p = 0 then 2 * chunks
      else if chunks * partition_size div requested_size p < max_size p
      then min (2 * chunks) (max_size p * requested_size p div partition_size)
      else chunks)"





text \<open>The fields of a pool that the operations of the segregated storage leave alone.\<close>

definition storage_frame :: "pool \<Rightarrow> pool \<Rightarrow> bool" where
  "storage_frame p q \<longleftrightarrow>
     list q = list p \<and> next_size q = next_size p \<and> start_size q = start_size p \<and>
     max_size q = max_size p \<and> requested_size q = requested_size p \<and> sys q = sys p"

text \<open>The parameters of a pool that no operation writes.\<close>

definition same_parameters :: "pool \<Rightarrow> pool \<Rightarrow> bool" where
  "same_parameters p q \<longleftrightarrow>
     start_size q = start_size p \<and> max_size q = max_size p \<and>
     requested_size q = requested_size p"

section \<open>Chains in memory\<close>

text \<open>
  \<open>path m x as y\<close>: following the link words from \<open>x\<close> visits the cells \<open>as\<close>, none
  of them null, and arrives at \<open>y\<close>.  The free list of a store is the path from
  \<^verbatim>\<open>first_\<close> to null.  \<open>chunk_seq block k ps\<close> are the addresses of \<open>k\<close> chunks of \<open>ps\<close>
  bytes laid out from \<open>block\<close>.
\<close>

fun path :: "memory \<Rightarrow> addr \<Rightarrow> addr list \<Rightarrow> addr \<Rightarrow> bool" where
  "path m x [] y \<longleftrightarrow> x = y"
| "path m x (a # as) y \<longleftrightarrow> x = a \<and> a \<noteq> 0 \<and> path m (nextof m a) as y"

definition free_list :: "'a segregated_storage_scheme \<Rightarrow> addr list \<Rightarrow> bool" where
  "free_list s as \<longleftrightarrow> path (mem s) (first s) as 0"

definition chunk_seq :: "addr \<Rightarrow> nat \<Rightarrow> nat \<Rightarrow> addr list" where
  "chunk_seq block k ps = map (\<lambda>i. block + i * ps) [0..<k]"

section \<open>Example pools\<close>

definition zero_memory :: memory where
  "zero_memory = (\<lambda>a. 0)"

definition sys_failing :: sys_allocator where
  "sys_failing = \<lparr>answers = (\<lambda>k. 0), requests = [], released = []\<rparr>"

definition sys_pages :: sys_allocator where
  "sys_pages = \<lparr>answers = (\<lambda>k. 4096 * (k + 1)), requests = [], released = []\<rparr>"

definition returned :: "('a \<times> pool) option \<Rightarrow> 'a option" where
  "returned r = map_option fst r"

definition pool_a :: pool where
  "pool_a = new_pool 16 16 0 zero_memory sys_failing"

definition pool_a_failed :: pool where
  "pool_a_failed = pool_a\<lparr>next_size := 8, sys := sys_failing\<lparr>requests := [272, 144]\<rparr>\<rparr>"

definition pool_c :: "pool option" where
  "pool_c = do {
     (a, p1) \<leftarrow> ordered_allocate (new_pool 8 4 0 zero_memory sys_pages);
     (b, p2) \<leftarrow> ordered_allocate_n p1 2;
     pool_ordered_deallocate p2 a
   }"

definition pool_c_fast_deallocate :: "pool option" where
  "pool_c_fast_deallocate = do { p \<leftarrow> pool_c; fast_pool_allocator_deallocate p 4104 2 }"

definition pool_c_ordered_deallocate :: "pool option" where
  "pool_c_ordered_deallocate = do { p \<leftarrow> pool_c; pool_ordered_deallocate_n p 4104 2 }"

definition result_next_size :: "('a \<times> pool) option \<Rightarrow> size_type option" where
  "result_next_size r = map_option (\<lambda>x. next_size (snd x)) r"

definition result_requests :: "('a \<times> pool) option \<Rightarrow> size_type list option" where
  "result_requests r = map_option (\<lambda>x. requests (sys (snd x))) r"

definition pool_d :: pool where
  "pool_d = new_pool 8 8 4 zero_memory sys_pages"

definition sys_second :: sys_allocator where
  "sys_second = \<lparr>answers = (\<lambda>k. if k = 0 then 0 else 4096), requests = [], released = []\<rparr>"



section \<open>allocate\_n on the list of free chunks\<close>

text \<open>
  The free list as the list of its chunk addresses.  \<open>contiguous ps xs\<close> is the length
  of the longest prefix of \<open>xs\<close> whose successive addresses are exactly \<open>ps\<close> apart.
  \<open>take_run n ps xs\<close> follows the words of the specification: it finds the first run of
  \<open>n\<close> chunks whose successive addresses differ by \<open>ps\<close>, and yields the first chunk
  of the run and the list without the \<open>n\<close> chunks, the rest unchanged; \<open>None\<close> when
  there is no such run.
\<close>

fun contiguous :: "nat \<Rightarrow> addr list \<Rightarrow> nat" where
  "contiguous ps [] = 0"
| "contiguous ps [x] = 1"
| "contiguous ps (x # y # ys) = (if y = x + ps then Suc (contiguous ps (y # ys)) else 1)"

fun take_run :: "nat \<Rightarrow> nat \<Rightarrow> addr list \<Rightarrow> (addr \<times> addr list) option" where
  "take_run n ps [] = None"
| "take_run n ps (x # xs) =
     (if n \<le> contiguous ps (x # xs) then Some (x, drop n (x # xs))
      else map_option (\<lambda>(r, ys). (r, x # ys)) (take_run n ps xs))"


section \<open>Cycles of single-chunk allocation and deallocation\<close>

text \<open>
  \<open>ordered_insert a xs\<close> is the place \<^verbatim>\<open>find_prev\<close> gives a returned chunk in the
  list of free chunks: after the leading chunks not above it.  \<open>allocations k p\<close> are
  \<open>k\<close> successive calls of \<^verbatim>\<open>ordered_allocate()\<close> with the addresses they return.
  A cycle is a sequence of single-chunk operations; \<open>cycle_ok xs ops\<close> says, on the list
  of free chunks, that every allocation of the cycle finds the free list non-empty and
  every deallocation returns a chunk that is not null and overlaps no free chunk.
\<close>

definition ordered_insert :: "addr \<Rightarrow> addr list \<Rightarrow> addr list" where
  "ordered_insert a xs = takeWhile (\<lambda>x. x \<le> a) xs @ a # dropWhile (\<lambda>x. x \<le> a) xs"

fun allocations :: "nat \<Rightarrow> pool \<Rightarrow> (addr list \<times> pool) option" where
  "allocations 0 p = Some ([], p)"
| "allocations (Suc k) p = do {
     (a, p') \<leftarrow> ordered_allocate p;
     (as, p'') \<leftarrow> allocations k p';
     Some (a # as, p'')
   }"

datatype cycle_op = Allocate | Deallocate addr | Ordered_allocate | Ordered_deallocate addr

fun cycle :: "pool \<Rightarrow> cycle_op list \<Rightarrow> pool option" where
  "cycle p [] = Some p"
| "cycle p (Allocate # ops) = do { (a, p') \<leftarrow> pool_allocate p; cycle p' ops }"
| "cycle p (Deallocate a # ops) = cycle (pool_deallocate p a) ops"
| "cycle p (Ordered_allocate # ops) = do { (a, p') \<leftarrow> ordered_allocate p; cycle p' ops }"
| "cycle p (Ordered_deallocate a # ops) = do { p' \<leftarrow> pool_ordered_deallocate p a; cycle p' ops }"

fun cycle_ok :: "addr list \<Rightarrow> cycle_op list \<Rightarrow> bool" where
  "cycle_ok xs [] \<longleftrightarrow> True"
| "cycle_ok xs (Allocate # ops) \<longleftrightarrow> xs \<noteq> [] \<and> cycle_ok (tl xs) ops"
| "cycle_ok xs (Deallocate a # ops) \<longleftrightarrow>
     a \<noteq> 0 \<and> list_all (apart a) xs \<and> cycle_ok (a # xs) ops"
| "cycle_ok xs (Ordered_allocate # ops) \<longleftrightarrow> xs \<noteq> [] \<and> cycle_ok (tl xs) ops"
| "cycle_ok xs (Ordered_deallocate a # ops) \<longleftrightarrow>
     a \<noteq> 0 \<and> list_all (apart a) xs \<and> cycle_ok (ordered_insert a xs) ops"

definition pool_i :: pool where
  "pool_i = the (map_option snd (ordered_allocate (new_pool 8 4 0 zero_memory sys_pages)))"

text \<open>
  The same pool after a second \<^verbatim>\<open>ordered_allocate()\<close>, which returns 4104, and the
  ordered return of the first chunk, 4096.
\<close>

definition pool_k :: pool where
  "pool_k = the (do {
     (b, p2) \<leftarrow> ordered_allocate pool_i;
     pool_ordered_deallocate p2 4096
   })"

section \<open>The ordered pool: blocks, chunks and the invariant\<close>

text \<open>
  \<open>block_path m b bs\<close>: following the trailers from the block \<open>b\<close> visits the blocks
  \<open>bs\<close> and ends at an invalid block.  For a chunk size \<open>ps\<close>, a block is well formed
  when it is valid and its size is that of one or more chunks plus the two trailer
  words; \<open>chunks_of ps b\<close> are the addresses of its chunks; \<open>block_before b c\<close> says that
  \<open>b\<close> ends before \<open>c\<close> starts.  \<open>block_seg m b bs e\<close> is a part of a block list,
  from \<open>b\<close> through \<open>bs\<close> to the block \<open>e\<close>, and \<open>within b a\<close> says that the address
  \<open>a\<close> lies in the block.

  \<open>pool_inv p psw bs fs\<close> is the state of a pool in ordered mode: its chunk size is
  \<open>psw\<close>; its block list is \<open>bs\<close>, well formed, ascending and without overlap; its free
  list is \<open>fs\<close>, strictly ascending, of chunks of these blocks.
\<close>

fun block_path :: "memory \<Rightarrow> pod_ptr \<Rightarrow> pod_ptr list \<Rightarrow> bool" where
  "block_path m b [] \<longleftrightarrow> \<not> valid b"
| "block_path m b (x # xs) \<longleftrightarrow> b = x \<and> valid x \<and> block_path m (pod_next m x) xs"

fun block_seg :: "memory \<Rightarrow> pod_ptr \<Rightarrow> pod_ptr list \<Rightarrow> pod_ptr \<Rightarrow> bool" where
  "block_seg m b [] e \<longleftrightarrow> b = e"
| "block_seg m b (x # xs) e \<longleftrightarrow> b = x \<and> valid x \<and> block_seg m (pod_next m x) xs e"

definition within :: "pod_ptr \<Rightarrow> addr \<Rightarrow> bool" where
  "within b a \<longleftrightarrow> ptr b \<le> a \<and> a < ptr b + unat (sz b)"

definition chunk_count :: "nat \<Rightarrow> pod_ptr \<Rightarrow> nat" where
  "chunk_count ps b = unat (element_size b) div ps"

definition chunks_of :: "nat \<Rightarrow> pod_ptr \<Rightarrow> addr list" where
  "chunks_of ps b = chunk_seq (ptr b) (chunk_count ps b) ps"

definition block_ok :: "nat \<Rightarrow> pod_ptr \<Rightarrow> bool" where
  "block_ok ps b \<longleftrightarrow>
     valid b \<and> 0 < chunk_count ps b \<and> unat (sz b) = chunk_count ps b * ps + 16"

definition block_before :: "pod_ptr \<Rightarrow> pod_ptr \<Rightarrow> bool" where
  "block_before b c \<longleftrightarrow> ptr b + unat (sz b) \<le> ptr c"

definition in_blocks :: "nat \<Rightarrow> pod_ptr list \<Rightarrow> addr \<Rightarrow> bool" where
  "in_blocks ps bs f \<longleftrightarrow> list_ex (\<lambda>b. f \<in> set (chunks_of ps b)) bs"

definition pool_inv :: "pool \<Rightarrow> size_type \<Rightarrow> pod_ptr list \<Rightarrow> addr list \<Rightarrow> bool" where
  "pool_inv p psw bs fs \<longleftrightarrow>
     alloc_size p = Some psw \<and>
     block_path (mem p) (list p) bs \<and> free_list p fs \<and>
     list_all (block_ok (unat psw)) bs \<and>
     sorted_wrt block_before bs \<and> sorted_wrt (<) fs \<and>
     list_all (in_blocks (unat psw) bs) fs"

text \<open>
  What \<^verbatim>\<open>release_memory\<close> is to do, on the lists: a block is released when all its
  chunks are free; the free list keeps the chunks of the other blocks.
\<close>

definition all_free :: "nat \<Rightarrow> addr list \<Rightarrow> pod_ptr \<Rightarrow> bool" where
  "all_free ps fs b \<longleftrightarrow> set (chunks_of ps b) \<subseteq> set fs"

definition kept_free :: "nat \<Rightarrow> pod_ptr list \<Rightarrow> addr list \<Rightarrow> addr list" where
  "kept_free ps bs fs =
     filter (\<lambda>f. list_all (\<lambda>b. all_free ps fs b \<longrightarrow> f \<notin> set (chunks_of ps b)) bs) fs"

text \<open>
  The sweep of \<^verbatim>\<open>release_memory\<close> written on the lists: the blocks still to visit and
  the free chunks not yet passed.  It yields the blocks released, the blocks kept and the
  free chunks kept.  \<open>hd0\<close> and \<open>last0\<close> read a pointer variable off a list: the head or
  the last element, null for the empty list.
\<close>

definition hd0 :: "addr list \<Rightarrow> addr" where
  "hd0 xs = (case xs of [] \<Rightarrow> 0 | x # _ \<Rightarrow> x)"

definition last0 :: "addr list \<Rightarrow> addr" where
  "last0 xs = (if xs = [] then 0 else last xs)"

fun sweep :: "nat \<Rightarrow> pod_ptr list \<Rightarrow> addr list \<Rightarrow> pod_ptr list \<times> pod_ptr list \<times> addr list" where
  "sweep ps [] fr = ([], [], fr)"
| "sweep ps (b # bs) fr =
     (if fr = [] then ([], b # bs, [])
      else if take (chunk_count ps b) fr = chunks_of ps b
      then (case sweep ps bs (drop (chunk_count ps b) fr) of (r, k, f) \<Rightarrow> (b # r, k, f))
      else (case sweep ps bs (dropWhile (\<lambda>x. x < pod_end b) fr) of
              (r, k, f) \<Rightarrow> (r, b # k, takeWhile (\<lambda>x. x < pod_end b) fr @ f)))"

text \<open>
  The state of the sweep at the head of its loop, as the comment in the source has it:
  \<open>kd\<close> are the blocks kept so far and \<open>rest\<close> the blocks still to visit, \<open>fd\<close> the
  free chunks passed and \<open>fr\<close> those ahead; \<^verbatim>\<open>ptr\<close> is the first block to visit,
  \<^verbatim>\<open>prev\<close> the last block kept or invalid, \<^verbatim>\<open>free_p\<close> the first free chunk ahead or
  null, \<^verbatim>\<open>prev_free_p\<close> the last free chunk passed or null.
\<close>

definition sweep_state ::
  "nat \<Rightarrow> pool \<Rightarrow> pod_ptr list \<Rightarrow> pod_ptr list \<Rightarrow> addr list \<Rightarrow> addr list \<Rightarrow>
   pod_ptr \<Rightarrow> pod_ptr \<Rightarrow> addr \<Rightarrow> addr \<Rightarrow> bool" where
  "sweep_state ps p kd rest fd fr blk prev free_p prev_free_p \<longleftrightarrow>
     block_seg (mem p) (list p) kd blk \<and> block_path (mem p) blk rest \<and>
     (if kd = [] then \<not> valid prev else prev = last kd) \<and>
     path (mem p) (first p) fd free_p \<and> path (mem p) free_p fr 0 \<and>
     prev_free_p = last0 fd \<and>
     list_all (block_ok ps) (kd @ rest) \<and> sorted_wrt block_before (kd @ rest) \<and>
     sorted_wrt (<) fr \<and>
     list_all (in_blocks ps kd) fd \<and> list_all (in_blocks ps rest) fr"

text \<open>
  A pool of 8-byte chunks that starts with blocks of one chunk: the first
  \<^verbatim>\<open>ordered_allocate()\<close> takes a block of one chunk at 4096, the second a block of two
  chunks at 8192, and the first chunk is returned.
\<close>

definition pool_j :: pool where
  "pool_j = the (do {
     (a, p1) \<leftarrow> ordered_allocate (new_pool 8 1 0 zero_memory sys_pages);
     (b, p2) \<leftarrow> ordered_allocate p1;
     pool_ordered_deallocate p2 a
   })"

text \<open>
  The ordered insertions on the lists: a run of chunks into the free chunks, and a block
  into the blocks.
\<close>

definition insert_run :: "addr list \<Rightarrow> addr list \<Rightarrow> addr list" where
  "insert_run run xs =
     takeWhile (\<lambda>x. x \<le> hd0 run) xs @ run @ dropWhile (\<lambda>x. x \<le> hd0 run) xs"

definition insert_block :: "pod_ptr \<Rightarrow> pod_ptr list \<Rightarrow> pod_ptr list" where
  "insert_block node bs =
     takeWhile (\<lambda>b. ptr b \<le> ptr node) bs @ node # dropWhile (\<lambda>b. ptr b \<le> ptr node) bs"

section \<open>Sequences of ordered operations\<close>

text \<open>
  The five ordered operations of a pool, and a run of a sequence of them.  The results
  returned to the caller are dropped: \<open>apply_op\<close> yields the pool afterwards, or \<open>None\<close>
  when the call does not return.
\<close>

datatype ordered_op =
    Ordered_alloc
  | Ordered_alloc_n size_type
  | Ordered_free addr
  | Ordered_free_n addr size_type
  | Release

fun apply_op :: "pool \<Rightarrow> ordered_op \<Rightarrow> pool option" where
  "apply_op p Ordered_alloc = map_option snd (ordered_allocate p)"
| "apply_op p (Ordered_alloc_n n) = map_option snd (ordered_allocate_n p n)"
| "apply_op p (Ordered_free a) = pool_ordered_deallocate p a"
| "apply_op p (Ordered_free_n a n) = pool_ordered_deallocate_n p a n"
| "apply_op p Release = map_option snd (release_memory p)"

fun run_ops :: "pool \<Rightarrow> ordered_op list \<Rightarrow> pool option" where
  "run_ops p [] = Some p"
| "run_ops p (x # xs) = (case apply_op p x of None \<Rightarrow> None | Some p' \<Rightarrow> run_ops p' xs)"

text \<open>
  What the pool expects of its surroundings.  Of the system allocator: a block it hands
  out does not overlap a block the pool holds (\<open>fresh\<close>, \<open>request_fresh\<close>).  Of the sizes:
  the byte count of a request is computed without wrapping (\<open>block_fits\<close>), and so is
  \<^verbatim>\<open>n * requested_size\<close>.  Of the caller: a chunk given back is a chunk of one of the
  pool's blocks and is not free (\<open>in_use\<close>), and the chunks given back together lie in
  one block (\<open>run_in_use\<close>).
\<close>

definition fresh :: "pool \<Rightarrow> pod_ptr \<Rightarrow> bool" where
  "fresh p node \<longleftrightarrow>
     (\<exists>bs. block_path (mem p) (list p) bs \<and>
        list_all (\<lambda>b. block_before b node \<or> block_before node b) bs)"

definition request_fresh :: "pool \<Rightarrow> (addr \<times> pool) option \<Rightarrow> bool" where
  "request_fresh p r \<longleftrightarrow>
     (case r of None \<Rightarrow> True
      | Some (a, p1) \<Rightarrow>
          a = 0 \<or> (case pod_size p1 of None \<Rightarrow> True | Some s \<Rightarrow> fresh p \<lparr>ptr = a, sz = s\<rparr>))"

definition block_fits :: "size_type \<Rightarrow> size_type \<Rightarrow> bool" where
  "block_fits chunks partition_size \<longleftrightarrow> unat chunks * unat partition_size + 16 < 2 ^ 64"

definition in_use :: "pool \<Rightarrow> addr \<Rightarrow> bool" where
  "in_use p a \<longleftrightarrow>
     (\<exists>psw bs fs. alloc_size p = Some psw \<and> block_path (mem p) (list p) bs \<and>
        free_list p fs \<and> in_blocks (unat psw) bs a \<and> a \<notin> set fs)"

definition run_in_use :: "pool \<Rightarrow> addr \<Rightarrow> nat \<Rightarrow> bool" where
  "run_in_use p a k \<longleftrightarrow>
     (\<exists>psw bs fs b. alloc_size p = Some psw \<and> block_path (mem p) (list p) bs \<and>
        free_list p fs \<and> b \<in> set bs \<and>
        set (chunk_seq a k (unat psw)) \<subseteq> set (chunks_of (unat psw) b) \<and>
        set (chunk_seq a k (unat psw)) \<inter> set fs = {})"

definition num_chunks :: "pool \<Rightarrow> size_type \<Rightarrow> size_type option" where
  "num_chunks p n = do {
     partition_size \<leftarrow> alloc_size p;
     fast_ceil_division (n * requested_size p) partition_size
   }"

fun legal :: "pool \<Rightarrow> ordered_op \<Rightarrow> bool" where
  "legal p Ordered_alloc \<longleftrightarrow>
     (first p = 0 \<longrightarrow>
        (case alloc_size p of None \<Rightarrow> False
         | Some psw \<Rightarrow> block_fits (next_size p) psw \<and> request_fresh p (request_block p)))"
| "legal p (Ordered_alloc_n n) \<longleftrightarrow>
     unat n * unat (requested_size p) < 2 ^ 64 \<and>
     (case alloc_size p of None \<Rightarrow> False
      | Some psw \<Rightarrow>
         (case num_chunks p n of None \<Rightarrow> False
          | Some nc \<Rightarrow>
              returned (allocate_n p nc psw) = Some 0 \<longrightarrow>
                block_fits (max (next_size p) nc) psw \<and>
                request_fresh p (request_block_n p nc)))"
| "legal p (Ordered_free a) \<longleftrightarrow> in_use p a"
| "legal p (Ordered_free_n a n) \<longleftrightarrow>
     unat n * unat (requested_size p) < 2 ^ 64 \<and>
     (case num_chunks p n of None \<Rightarrow> False | Some nc \<Rightarrow> run_in_use p a (unat nc))"
| "legal p Release \<longleftrightarrow> True"

fun legal_run :: "pool \<Rightarrow> ordered_op list \<Rightarrow> bool" where
  "legal_run p [] \<longleftrightarrow> True"
| "legal_run p (x # xs) \<longleftrightarrow>
     legal p x \<and> (case apply_op p x of None \<Rightarrow> True | Some p' \<Rightarrow> legal_run p' xs)"

text \<open>
  The sizes of a pool are in order when \<^verbatim>\<open>next_size\<close>, \<^verbatim>\<open>start_size\<close> and
  \<^verbatim>\<open>requested_size\<close> are not zero and \<^verbatim>\<open>max_size * requested_size\<close> does not wrap.
\<close>

definition sizes_ok :: "pool \<Rightarrow> bool" where
  "sizes_ok p \<longleftrightarrow>
     next_size p \<noteq> 0 \<and> start_size p \<noteq> 0 \<and> requested_size p \<noteq> 0 \<and>
     unat (max_size p) * unat (requested_size p) < 2 ^ 64"

section \<open>Evaluation and frame lemmas\<close>

lemmas eval_defs = new_pool_def zero_memory_def sys_pages_def sys_failing_def sys_second_def
  ordered_allocate_def pool_allocate_def ordered_allocate_need_resize_def allocate_need_resize_def
  ordered_allocate_n_def request_block_def request_block_n_def grow_next_size_def insert_ordered_def
  alloc_size_def pod_size_def sys_allocate_def sys_deallocate_def fast_ceil_division_def
  min_alloc_size_def min_align_def sizeof_size_type_def
  empty_def nextof_def nextof_cell_def set_nextof_cell_def segregate_def add_block_def find_prev_def
  add_ordered_block_def allocate_def deallocate_def ordered_deallocate_def try_allocate_n_def
  allocate_n_def deallocate_n_def ordered_deallocate_n_def
  pod_null_def valid_def total_size_def element_size_def ptr_next_size_def ptr_next_ptr_def pod_end_def
  pod_next_size_def next_ptr_def pod_next_def pod_set_next_def
  pool_deallocate_def pool_ordered_deallocate_def pool_deallocate_n_def pool_ordered_deallocate_n_def
  fast_pool_allocator_deallocate_def is_from_range_def release_memory_def purge_memory_def
  segregate_loop.simps find_prev_loop.simps try_allocate_n_loop.simps allocate_n_loop.simps
  find_prev_block.simps release_scan.simps release_skip.simps release_loop.simps purge_loop.simps
  Let_def

lemma storage_frame_refl [simp]: "storage_frame p p"
  by (simp add: storage_frame_def)

lemma storage_frame_trans: "storage_frame p q \<Longrightarrow> storage_frame q r \<Longrightarrow> storage_frame p r"
  by (simp add: storage_frame_def)



lemma add_block_frame: "add_block p block nsz ps = Some p' \<Longrightarrow> storage_frame p p'"
  by (auto simp: add_block_def storage_frame_def split: bind_splits)

lemma add_ordered_block_frame:
  "add_ordered_block p block nsz ps = Some p' \<Longrightarrow> storage_frame p p'"
  by (auto simp: add_ordered_block_def split: bind_splits if_splits dest: add_block_frame)
     (simp add: storage_frame_def)


lemma allocate_frame: "allocate p = Some (a, p') \<Longrightarrow> storage_frame p p'"
  by (auto simp: allocate_def storage_frame_def split: if_splits)

lemma set_nextof_cell_frame: "storage_frame p (set_nextof_cell p c v)"
  by (cases c) (simp_all add: set_nextof_cell_def storage_frame_def)

lemma allocate_n_frame: "allocate_n p n ps = Some (r, p') \<Longrightarrow> storage_frame p p'"
  by (auto simp: allocate_n_def set_nextof_cell_frame split: if_splits bind_splits)

lemma insert_ordered_frame:
  "insert_ordered p node = Some p' \<Longrightarrow>
     next_size p' = next_size p \<and> start_size p' = start_size p \<and> max_size p' = max_size p \<and>
     requested_size p' = requested_size p \<and> sys p' = sys p \<and> first p' = first p"
  by (auto simp: insert_ordered_def Let_def split: if_splits bind_splits)

lemma alloc_size_cong:
  "requested_size q = requested_size p \<Longrightarrow> alloc_size q = alloc_size p"
  by (simp add: alloc_size_def)

lemma alloc_size_update [simp]:
  "alloc_size (p\<lparr>next_size := ns\<rparr>) = alloc_size p"
  "alloc_size (p\<lparr>sys := a\<rparr>) = alloc_size p"
  "alloc_size (p\<lparr>mem := m\<rparr>) = alloc_size p"
  "alloc_size (p\<lparr>first := f\<rparr>) = alloc_size p"
  "alloc_size (p\<lparr>list := l\<rparr>) = alloc_size p"
  by (simp_all add: alloc_size_def)

lemma pod_size_eq:
  "alloc_size p = Some ps \<Longrightarrow> pod_size p = Some (block_bytes (next_size p) ps)"
  by (simp add: pod_size_def block_bytes_def)

lemma request_block_result:
  assumes "alloc_size p = Some ps"
  shows "request_block p =
     Some (if first_answer p \<noteq> 0 then
             (first_answer p,
              p\<lparr>sys := (sys p)\<lparr>requests := requests (sys p) @ [block_bytes (next_size p) ps]\<rparr>\<rparr>)
           else if next_size p > 4 then
             (second_answer p,
              p\<lparr>next_size := drop_bit 1 (next_size p),
                sys := (sys p)\<lparr>requests := requests (sys p) @
                   [block_bytes (next_size p) ps, block_bytes (drop_bit 1 (next_size p)) ps]\<rparr>\<rparr>)
           else
             (0, p\<lparr>sys := (sys p)\<lparr>requests := requests (sys p) @ [block_bytes (next_size p) ps]\<rparr>\<rparr>))"
  using assms
  by (simp add: request_block_def pod_size_def block_bytes_def sys_allocate_def Let_def
      first_answer_def second_answer_def)

lemma request_block_n_result:
  assumes "alloc_size p = Some ps"
  shows "request_block_n p nc =
     Some (if first_answer p \<noteq> 0 then
             (first_answer p,
              p\<lparr>next_size := max (next_size p) nc,
                sys := (sys p)\<lparr>requests := requests (sys p) @
                   [block_bytes (max (next_size p) nc) ps]\<rparr>\<rparr>)
           else if nc < max (next_size p) nc then
             (second_answer p,
              p\<lparr>next_size := max (drop_bit 1 (max (next_size p) nc)) nc,
                sys := (sys p)\<lparr>requests := requests (sys p) @
                   [block_bytes (max (next_size p) nc) ps,
                    block_bytes (max (drop_bit 1 (max (next_size p) nc)) nc) ps]\<rparr>\<rparr>)
           else
             (0, p\<lparr>next_size := max (next_size p) nc,
                   sys := (sys p)\<lparr>requests := requests (sys p) @
                     [block_bytes (max (next_size p) nc) ps]\<rparr>\<rparr>))"
  using assms
  by (simp add: request_block_n_def pod_size_def block_bytes_def sys_allocate_def Let_def
      first_answer_def second_answer_def)


lemma grow_next_size_Some:
  "grow_next_size p ps = Some p' \<Longrightarrow> p' = p\<lparr>next_size := grown p ps (next_size p)\<rparr>"
  by (auto simp: grow_next_size_def grown_def push_bit_eq_mult mult.commute split: if_splits)

lemma grown_cong:
  "max_size q = max_size p \<Longrightarrow> requested_size q = requested_size p \<Longrightarrow> grown q = grown p"
  by (simp add: grown_def fun_eq_iff)

lemma request_block_chunks:
  assumes "alloc_size p = Some ps" and "request_block p = Some (a, p1)" and "a \<noteq> 0"
  shows "next_size p1 = block_chunks p \<and> max_size p1 = max_size p \<and>
         requested_size p1 = requested_size p \<and> requests (sys p1) \<noteq> requests (sys p)"
  using assms(2,3) unfolding request_block_result [OF assms(1)]
  by (auto simp: block_chunks_def split: if_splits)

lemma request_block_n_chunks:
  assumes "alloc_size p = Some ps" and "request_block_n p nc = Some (a, p1)" and "a \<noteq> 0"
  shows "next_size p1 = block_chunks_n p nc \<and> max_size p1 = max_size p \<and>
         requested_size p1 = requested_size p"
  using assms(2,3) unfolding request_block_n_result [OF assms(1)]
  by (auto simp: block_chunks_n_def split: if_splits)

lemma allocate_need_resize_next_size:
  assumes ps: "alloc_size p = Some ps"
    and run: "allocate_need_resize p = Some (a, p')" and a: "a \<noteq> 0"
  shows "next_size p' = grown p ps (block_chunks p)"
proof -
  from run ps obtain a1 p1 where rb: "request_block p = Some (a1, p1)"
    by (auto simp: allocate_need_resize_def split: bind_splits)
  with run ps a have a1: "a1 \<noteq> 0"
    by (auto simp: allocate_need_resize_def split: bind_splits if_splits)
  from run ps rb a1 obtain p2 p3 nsz where
    g: "grow_next_size p1 ps = Some p2" and
    ab: "add_block p2 a1 nsz ps = Some p3" and
    al: "allocate (p3\<lparr>mem := pod_set_next (mem p3) \<lparr>ptr = a1, sz = the (pod_size p1)\<rparr> (list p3),
                     list := \<lparr>ptr = a1, sz = the (pod_size p1)\<rparr>\<rparr>) = Some (a, p')"
    by (auto simp: allocate_need_resize_def Let_def split: bind_splits)
  from al have "next_size p' = next_size p3"
    by (auto dest!: allocate_frame simp: storage_frame_def)
  also have "\<dots> = next_size p2"
    using add_block_frame [OF ab] by (simp add: storage_frame_def)
  also have "\<dots> = grown p1 ps (next_size p1)"
    using grow_next_size_Some [OF g] by simp
  also have "\<dots> = grown p ps (block_chunks p)"
    using request_block_chunks [OF ps rb a1] by (simp add: grown_def)
  finally show ?thesis .
qed

lemma ordered_allocate_need_resize_next_size:
  assumes ps: "alloc_size p = Some ps"
    and run: "ordered_allocate_need_resize p = Some (a, p')" and a: "a \<noteq> 0"
  shows "next_size p' = grown p ps (block_chunks p)"
proof -
  from run ps obtain a1 p1 where rb: "request_block p = Some (a1, p1)"
    by (auto simp: ordered_allocate_need_resize_def split: bind_splits)
  with run ps a have a1: "a1 \<noteq> 0"
    by (auto simp: ordered_allocate_need_resize_def split: bind_splits if_splits)
  from run ps rb a1 obtain p2 p3 p4 nsz node where
    g: "grow_next_size p1 ps = Some p2" and
    ab: "add_ordered_block p2 a1 nsz ps = Some p3" and
    io: "insert_ordered p3 node = Some p4" and
    al: "allocate p4 = Some (a, p')"
    by (auto simp: ordered_allocate_need_resize_def Let_def split: bind_splits)
  from al have "next_size p' = next_size p4"
    by (auto dest!: allocate_frame simp: storage_frame_def)
  also have "\<dots> = next_size p2"
    using add_ordered_block_frame [OF ab] insert_ordered_frame [OF io]
    by (simp add: storage_frame_def)
  also have "\<dots> = grown p1 ps (next_size p1)"
    using grow_next_size_Some [OF g] by simp
  also have "\<dots> = grown p ps (block_chunks p)"
    using request_block_chunks [OF ps rb a1] by (simp add: grown_def)
  finally show ?thesis .
qed


lemma block_chunks_n_cong:
  "sys q = sys p \<Longrightarrow> next_size q = next_size p \<Longrightarrow> block_chunks_n q nc = block_chunks_n p nc"
  by (simp add: block_chunks_n_def first_answer_def)

lemma ordered_allocate_n_next_size:
  assumes ps: "alloc_size p = Some ps"
    and nc: "fast_ceil_division (n * requested_size p) ps = Some nc"
    and run: "ordered_allocate_n p n = Some (a, p')"
    and req: "requests (sys p') \<noteq> requests (sys p)" and a: "a \<noteq> 0"
  shows "next_size p' = grown p ps (block_chunks_n p nc)"
proof -
  from run ps nc obtain r p0 where an: "allocate_n p nc ps = Some (r, p0)"
    by (auto simp: ordered_allocate_n_def Let_def split: bind_splits)
  note p0 = allocate_n_frame [OF an, unfolded storage_frame_def]
  have ps0: "alloc_size p0 = Some ps" using ps p0 by (simp add: alloc_size_def)
  from run ps nc an req p0 have grow: "\<not> (r \<noteq> 0 \<or> n = 0)"
    by (auto simp: ordered_allocate_n_def Let_def split: if_splits)
  with run ps nc an obtain a1 p1 where rb: "request_block_n p0 nc = Some (a1, p1)"
    by (auto simp: ordered_allocate_n_def Let_def split: bind_splits if_splits)
  with run ps nc an grow a have a1: "a1 \<noteq> 0"
    by (auto simp: ordered_allocate_n_def Let_def split: bind_splits if_splits)
  from run ps nc an grow rb a1 obtain p2 p3 node where
    ab: "p2 = p1 \<or> (\<exists>b nsz. add_ordered_block p1 b nsz ps = Some p2)" and
    g: "grow_next_size p2 ps = Some p3" and
    io: "insert_ordered p3 node = Some p'"
    by (auto simp: ordered_allocate_n_def Let_def split: bind_splits if_splits) blast+
  from ab have p2: "next_size p2 = next_size p1 \<and> max_size p2 = max_size p1 \<and>
      requested_size p2 = requested_size p1"
    by (auto dest!: add_ordered_block_frame simp: storage_frame_def)
  have "next_size p' = next_size p3"
    using insert_ordered_frame [OF io] by simp
  also have "\<dots> = grown p2 ps (next_size p2)"
    using grow_next_size_Some [OF g] by simp
  also have "\<dots> = grown p0 ps (block_chunks_n p0 nc)"
    using request_block_n_chunks [OF ps0 rb a1] p2 by (simp add: grown_def)
  also have "\<dots> = grown p ps (block_chunks_n p nc)"
    using p0 by (simp add: grown_def block_chunks_n_def first_answer_def)
  finally show ?thesis .
qed

text \<open>
  Claim C2, as the code has it.  After a block was obtained by \<^verbatim>\<open>allocate\<close>,
  \<^verbatim>\<open>ordered_allocate\<close> or \<^verbatim>\<open>ordered_allocate(n)\<close>, \<^verbatim>\<open>next_size_\<close> is \<open>grown\<close> applied
  to the number of chunks of that block: twice that number when \<^verbatim>\<open>max_size_\<close> is zero;
  otherwise the minimum of twice that number and
  \<^verbatim>\<open>max_size * requested_size / partition_size\<close>, but only under the guard
  \<^verbatim>\<open>next_size * partition_size / requested_size < max_size\<close>, and unchanged when the
  guard fails.  The doubling is that of a 64-bit word.
\<close>

theorem next_size_after_block:
  assumes "alloc_size p = Some ps"
  shows
    "(empty p \<and> pool_allocate p = Some (a, p') \<and> a \<noteq> 0 \<longrightarrow>
        next_size p' = grown p ps (block_chunks p)) \<and>
     (empty p \<and> ordered_allocate p = Some (a, p') \<and> a \<noteq> 0 \<longrightarrow>
        next_size p' = grown p ps (block_chunks p)) \<and>
     (fast_ceil_division (n * requested_size p) ps = Some nc \<and>
      ordered_allocate_n p n = Some (a, p') \<and>
      requests (sys p') \<noteq> requests (sys p) \<and> a \<noteq> 0 \<longrightarrow>
        next_size p' = grown p ps (block_chunks_n p nc))"
proof (intro conjI impI)
  assume "empty p \<and> pool_allocate p = Some (a, p') \<and> a \<noteq> 0"
  then show "next_size p' = grown p ps (block_chunks p)"
    using allocate_need_resize_next_size [OF assms, of a p']
    by (auto simp: pool_allocate_def)
next
  assume "empty p \<and> ordered_allocate p = Some (a, p') \<and> a \<noteq> 0"
  then show "next_size p' = grown p ps (block_chunks p)"
    using ordered_allocate_need_resize_next_size [OF assms, of a p']
    by (auto simp: ordered_allocate_def)
next
  assume "fast_ceil_division (n * requested_size p) ps = Some nc \<and>
      ordered_allocate_n p n = Some (a, p') \<and>
      requests (sys p') \<noteq> requests (sys p) \<and> a \<noteq> 0"
  then show "next_size p' = grown p ps (block_chunks_n p nc)"
    using ordered_allocate_n_next_size [OF assms, of n nc a p'] by simp
qed


lemma returnedD: "returned r = Some a \<Longrightarrow> \<exists>p'. r = Some (a, p')"
  by (auto simp: returned_def)

lemma result_next_size_Some [simp]: "result_next_size (Some (a, p)) = Some (next_size p)"
  by (simp add: result_next_size_def)

lemma result_requests_Some [simp]: "result_requests (Some (a, p)) = Some (requests (sys p))"
  by (simp add: result_requests_def)

lemma pool_d_allocate: "returned (pool_allocate pool_d) = Some 4096"
  by (simp add: returned_def pool_d_def eval_defs)

lemma pool_d_allocate_next_size: "result_next_size (pool_allocate pool_d) = Some 8"
  by (simp add: result_next_size_def pool_d_def eval_defs)

text \<open>
  The rule without the guard fails: a pool of 8-byte chunks with \<^verbatim>\<open>next_size = 8\<close> and
  \<^verbatim>\<open>max_size = 4\<close> obtains its first block and keeps \<^verbatim>\<open>next_size = 8\<close>, where the
  minimum of the doubled size and the cap would be 4.
\<close>

theorem next_size_after_block_counterexample:
  "returned (pool_allocate pool_d) = Some 4096 \<and>
   result_next_size (pool_allocate pool_d) = Some 8 \<and>
   max_size pool_d = 4 \<and>
   min (next_size pool_d * 2) (max_size pool_d * requested_size pool_d div 8) = 4"
  using pool_d_allocate pool_d_allocate_next_size
  by (simp add: pool_d_def new_pool_def)

lemma pool_d_ordered_allocate: "returned (ordered_allocate pool_d) = Some 4096"
  by (simp add: returned_def pool_d_def eval_defs)

lemma pool_d_ordered_allocate_n:
  "returned (ordered_allocate_n pool_d 3) = Some 4096 \<and>
   result_requests (ordered_allocate_n pool_d 3) = Some [80]"
  by (simp add: returned_def result_requests_def pool_d_def eval_defs)

lemma alloc_size_pool_d: "alloc_size pool_d = Some 8"
  by (simp add: pool_d_def eval_defs)

text \<open>The three paths of the theorem, run on that pool.\<close>

theorem next_size_after_block_witness:
  "alloc_size pool_d = Some 8 \<and> empty pool_d \<and>
   returned (pool_allocate pool_d) = Some 4096 \<and>
   result_next_size (pool_allocate pool_d) = Some (grown pool_d 8 (block_chunks pool_d)) \<and>
   returned (ordered_allocate pool_d) = Some 4096 \<and>
   result_next_size (ordered_allocate pool_d) = Some (grown pool_d 8 (block_chunks pool_d)) \<and>
   fast_ceil_division (3 * requested_size pool_d) 8 = Some 3 \<and>
   returned (ordered_allocate_n pool_d 3) = Some 4096 \<and>
   result_requests (ordered_allocate_n pool_d 3) = Some [80] \<and>
   requests (sys pool_d) = [] \<and>
   result_next_size (ordered_allocate_n pool_d 3) = Some (grown pool_d 8 (block_chunks_n pool_d 3))"
proof -
  have e: "empty pool_d" and r: "requests (sys pool_d) = []"
    and c: "fast_ceil_division (3 * requested_size pool_d) 8 = Some 3"
    by (simp_all add: pool_d_def new_pool_def empty_def sys_pages_def fast_ceil_division_def)
  obtain p1 where p1: "pool_allocate pool_d = Some (4096, p1)"
    using returnedD [OF pool_d_allocate] by blast
  obtain p2 where p2: "ordered_allocate pool_d = Some (4096, p2)"
    using returnedD [OF pool_d_ordered_allocate] by blast
  obtain p3 where p3: "ordered_allocate_n pool_d 3 = Some (4096, p3)"
    using returnedD [OF conjunct1 [OF pool_d_ordered_allocate_n]] by blast
  have q3: "requests (sys p3) \<noteq> requests (sys pool_d)"
    using pool_d_ordered_allocate_n by (simp add: p3 r)
  have n1: "next_size p1 = grown pool_d 8 (block_chunks pool_d)"
    using next_size_after_block [OF alloc_size_pool_d, of 4096 p1 3 3] e p1 by simp
  have n2: "next_size p2 = grown pool_d 8 (block_chunks pool_d)"
    using next_size_after_block [OF alloc_size_pool_d, of 4096 p2 3 3] e p2 by simp
  have n3: "next_size p3 = grown pool_d 8 (block_chunks_n pool_d 3)"
    using next_size_after_block [OF alloc_size_pool_d, of 4096 p3 3 3] c p3 q3 by simp
  have "result_next_size (pool_allocate pool_d) = Some (grown pool_d 8 (block_chunks pool_d))"
    by (simp only: p1 result_next_size_Some n1)
  moreover
  have "result_next_size (ordered_allocate pool_d) = Some (grown pool_d 8 (block_chunks pool_d))"
    by (simp only: p2 result_next_size_Some n2)
  moreover
  have "result_next_size (ordered_allocate_n pool_d 3) =
          Some (grown pool_d 8 (block_chunks_n pool_d 3))"
    by (simp only: p3 result_next_size_Some n3)
  ultimately show ?thesis
    using alloc_size_pool_d e r c pool_d_allocate pool_d_ordered_allocate
      pool_d_ordered_allocate_n
    by blast
qed

lemma allocate_n_zero: "allocate_n s 0 ps = Some (0, s)"
  by (simp add: allocate_n_def)

lemma alloc_size_nonzero: "alloc_size p = Some ps \<Longrightarrow> ps \<noteq> 0"
  by (auto simp: alloc_size_def Let_def min_alloc_size_def split: if_splits)

lemma ordered_allocate_n_zero:
  "alloc_size pl = Some ps \<Longrightarrow> ordered_allocate_n pl 0 = Some (0, pl)"
  by (auto simp: ordered_allocate_n_def fast_ceil_division_def allocate_n_zero
      dest: alloc_size_nonzero)

lemma alloc_size_pool_a: "alloc_size pool_a = Some 16"
  by (simp add: alloc_size_def pool_a_def new_pool_def min_alloc_size_def min_align_def)

lemma ordered_allocate_n_pool_a: "ordered_allocate_n pool_a 3 = Some (0, pool_a_failed)"
  by (simp add: pool_a_failed_def pool_a_def eval_defs)

section \<open>Failure of the system allocator\<close>

lemma try_allocate_n_loop_start_aux:
  assumes "try_allocate_n_loop m start iter n ps = Some y"
  shows "fst y \<noteq> 0 \<longrightarrow> snd y = start"
  by (rule try_allocate_n_loop.raw_induct
        [where P = "\<lambda>m start iter n ps y. fst y \<noteq> 0 \<longrightarrow> snd y = start", OF _ assms])
     (auto split: if_splits)

lemma try_allocate_n_loop_start:
  "try_allocate_n_loop m start iter n ps = Some (r, st) \<Longrightarrow> r \<noteq> 0 \<Longrightarrow> st = start"
  using try_allocate_n_loop_start_aux [of m start iter n ps "(r, st)"] by simp

lemma allocate_n_loop_nonnull_aux:
  assumes "allocate_n_loop s start n ps = Some y"
  shows "fst y \<noteq> 0 \<longrightarrow> nextof_cell s (snd y) \<noteq> 0"
  by (rule allocate_n_loop.raw_induct
        [where P = "\<lambda>s start n ps y. fst y \<noteq> 0 \<longrightarrow> nextof_cell s (snd y) \<noteq> 0", OF _ assms])
     (auto simp: try_allocate_n_def split: if_splits bind_splits
        dest: try_allocate_n_loop_start)

lemma allocate_n_loop_nonnull:
  "allocate_n_loop s start n ps = Some (r, st) \<Longrightarrow> r \<noteq> 0 \<Longrightarrow> nextof_cell s st \<noteq> 0"
  using allocate_n_loop_nonnull_aux [of s start n ps "(r, st)"] by simp

lemma allocate_n_null:
  "allocate_n s n ps = Some (0, s') \<Longrightarrow> s' = s"
  by (auto simp: allocate_n_def split: if_splits bind_splits dest: allocate_n_loop_nonnull)

lemma empty_update [simp]:
  "empty (p\<lparr>next_size := ns\<rparr>) = empty p"
  "empty (p\<lparr>sys := a\<rparr>) = empty p"
  by (simp_all add: empty_def)


















section \<open>The typed allocators\<close>

text \<open>
  Claim C8, as the code has it.  \<^verbatim>\<open>pool_allocator::allocate(n)\<close> does not return when
  the pool's \<^verbatim>\<open>ordered_allocate(n)\<close> does not; it raises \<^verbatim>\<open>bad_alloc\<close> exactly when
  the pool returns null and \<^verbatim>\<open>n\<close> is not zero, and returns the pool's address
  otherwise.  For \<^verbatim>\<open>n = 0\<close> the pool returns null and so does the allocator, without
  raising.
\<close>

theorem pool_allocator_allocate_raises:
  "(ordered_allocate_n pl n = None \<longrightarrow> pool_allocator_allocate pl n = None) \<and>
   (ordered_allocate_n pl n = Some (p, pl') \<longrightarrow>
      pool_allocator_allocate pl n =
        Some (if p = 0 \<and> n \<noteq> 0 then Inl Bad_alloc else Inr p, pl')) \<and>
   (alloc_size pl = Some ps \<longrightarrow>
      ordered_allocate_n pl 0 = Some (0, pl) \<and> pool_allocator_allocate pl 0 = Some (Inr 0, pl))"
  by (simp add: pool_allocator_allocate_def raise_if_null_def ordered_allocate_n_zero)

text \<open>A pool whose system allocator always fails: three objects raise, none does not.\<close>

theorem pool_allocator_allocate_raises_witness:
  "ordered_allocate_n pool_a 3 = Some (0, pool_a_failed) \<and>
   pool_allocator_allocate pool_a 3 = Some (Inl Bad_alloc, pool_a_failed) \<and>
   alloc_size pool_a = Some 16 \<and>
   pool_allocator_allocate pool_a 0 = Some (Inr 0, pool_a)"
  using pool_allocator_allocate_raises [of pool_a 3 0 pool_a_failed 16]
    ordered_allocate_n_pool_a alloc_size_pool_a
  by simp

text \<open>
  Raising exactly when the pool returns null fails at \<^verbatim>\<open>n = 0\<close>: the pool returns null
  and the allocator returns null as a value.
\<close>

theorem pool_allocator_allocate_null_counterexample:
  "returned (ordered_allocate_n pool_a 0) = Some 0 \<and>
   returned (pool_allocator_allocate pool_a 0) = Some (Inr 0)"
  by (simp add: returned_def pool_allocator_allocate_def raise_if_null_def
      ordered_allocate_n_zero [OF alloc_size_pool_a])

section \<open>Releasing memory: the fields left alone\<close>

lemma same_parameters_update [simp]:
  "same_parameters p (q\<lparr>mem := m\<rparr>) = same_parameters p q"
  "same_parameters p (q\<lparr>first := f\<rparr>) = same_parameters p q"
  "same_parameters p (q\<lparr>list := l\<rparr>) = same_parameters p q"
  "same_parameters p (q\<lparr>next_size := ns\<rparr>) = same_parameters p q"
  "same_parameters p (sys_deallocate q a) = same_parameters p q"
  "same_parameters (q\<lparr>mem := m\<rparr>) p = same_parameters q p"
  "same_parameters (q\<lparr>first := f\<rparr>) p = same_parameters q p"
  "same_parameters (q\<lparr>list := l\<rparr>) p = same_parameters q p"
  "same_parameters (q\<lparr>next_size := ns\<rparr>) p = same_parameters q p"
  "same_parameters (sys_deallocate q a) p = same_parameters q p"
  "same_parameters p p"
  by (simp_all add: same_parameters_def sys_deallocate_def)

lemma sys_deallocate_fields [simp]:
  "next_size (sys_deallocate q a) = next_size q"
  "first (sys_deallocate q a) = first q"
  "mem (sys_deallocate q a) = mem q"
  "list (sys_deallocate q a) = list q"
  by (simp_all add: sys_deallocate_def)

lemma release_loop_parameters_aux:
  assumes "release_loop p ps blk prev free_p prev_free_p ret = Some y"
  shows "same_parameters p (snd y) \<and> next_size (snd y) = next_size p"
proof (rule release_loop.raw_induct
        [where P = "\<lambda>p ps blk prev free_p prev_free_p ret y.
                      same_parameters p (snd y) \<and> next_size (snd y) = next_size p",
         OF _ assms], goal_cases)
  case (1 rec p ps blk prev free_p prev_free_p ret y)
  note IH = 1(1)
  from 1(2) show ?case
    by (auto simp: Let_def split: if_splits bind_splits dest!: IH)
qed

lemma purge_loop_parameters_aux:
  assumes "purge_loop p iter = Some y"
  shows "same_parameters p y \<and> next_size y = next_size p \<and> first y = first p"
proof (rule purge_loop.raw_induct
        [where P = "\<lambda>p iter y. same_parameters p y \<and> next_size y = next_size p \<and>
                      first y = first p",
         OF _ assms], goal_cases)
  case (1 rec p iter y)
  note IH = 1(1)
  from 1(2) show ?case
    by (auto simp: Let_def split: if_splits dest!: IH)
qed


section \<open>segregate\<close>

lemma unat_shift:
  fixes nsz ps :: size_type
  assumes "ps \<noteq> 0" and "ps \<le> nsz"
  shows "unat (((nsz - ps) div ps) * ps) = (unat nsz div unat ps - 1) * unat ps"
proof -
  have ps: "0 < unat ps" using assms(1) by (simp add: unat_gt_0)
  have le: "unat ps \<le> unat nsz" using assms(2) by (simp add: word_le_nat_alt)
  have s: "unat (nsz - ps) = unat nsz - unat ps" using assms(2) by (simp add: unat_sub)
  have d: "unat ((nsz - ps) div ps) = (unat nsz - unat ps) div unat ps"
    by (simp add: unat_div s)
  have "(unat nsz - unat ps) div unat ps * unat ps \<le> unat nsz - unat ps"
    by simp
  also have "\<dots> < 2 ^ LENGTH(64)" using unsigned_less [of nsz, where 'a = nat] by simp
  finally have "unat ((nsz - ps) div ps) * unat ps < 2 ^ LENGTH(64)" by (simp add: d)
  then have "unat (((nsz - ps) div ps) * ps) = unat ((nsz - ps) div ps) * unat ps"
    by (rule unat_mult_lem [THEN iffD1])
  also have "\<dots> = (unat nsz div unat ps - 1) * unat ps"
    using le_div_geq [OF ps le] by (simp add: d)
  finally show ?thesis .
qed


lemma chunk_addr_inj:
  fixes ps :: nat
  shows "0 < ps \<Longrightarrow> block + i * ps = block + j * ps \<longleftrightarrow> i = j"
  by simp

lemma segregate_loop_threads:
  assumes "0 < ps"
  shows "\<exists>m'. segregate_loop m block (block + j * ps) (block + Suc j * ps) ps =
           Some (m', block + ps) \<and>
         (\<forall>i. 1 \<le> i \<and> i \<le> j \<longrightarrow> m' (block + i * ps) = block + Suc i * ps) \<and>
         (\<forall>a. (\<forall>i. 1 \<le> i \<and> i \<le> j \<longrightarrow> a \<noteq> block + i * ps) \<longrightarrow> m' a = m a)"
proof (induction j arbitrary: m)
  case 0
  show ?case by (subst segregate_loop.simps) simp
next
  case (Suc j)
  let ?m1 = "m(block + Suc j * ps := block + Suc (Suc j) * ps)"
  from Suc [of ?m1] obtain m' where
    run: "segregate_loop ?m1 block (block + j * ps) (block + Suc j * ps) ps =
            Some (m', block + ps)" and
    links: "\<forall>i. 1 \<le> i \<and> i \<le> j \<longrightarrow> m' (block + i * ps) = block + Suc i * ps" and
    rest: "\<forall>a. (\<forall>i. 1 \<le> i \<and> i \<le> j \<longrightarrow> a \<noteq> block + i * ps) \<longrightarrow> m' a = ?m1 a"
    by blast
  have ne: "block + Suc j * ps \<noteq> block" using assms by simp
  have step: "segregate_loop m block (block + Suc j * ps) (block + Suc (Suc j) * ps) ps =
      segregate_loop ?m1 block (block + j * ps) (block + Suc j * ps) ps"
  proof -
    have sub: "block + Suc j * ps - ps = block + j * ps" by simp
    show ?thesis
      by (subst segregate_loop.simps [of m]) (simp only: ne if_False sub)
  qed
  have top: "m' (block + Suc j * ps) = block + Suc (Suc j) * ps"
  proof -
    have "\<forall>i. 1 \<le> i \<and> i \<le> j \<longrightarrow> block + Suc j * ps \<noteq> block + i * ps"
      using chunk_addr_inj [OF assms, of block "Suc j"] by auto
    with rest have "m' (block + Suc j * ps) = ?m1 (block + Suc j * ps)" by blast
    then show ?thesis by simp
  qed
  have l: "\<forall>i. 1 \<le> i \<and> i \<le> Suc j \<longrightarrow> m' (block + i * ps) = block + Suc i * ps"
    using links top by (auto simp: le_Suc_eq)
  have r: "\<forall>a. (\<forall>i. 1 \<le> i \<and> i \<le> Suc j \<longrightarrow> a \<noteq> block + i * ps) \<longrightarrow> m' a = m a"
  proof (intro allI impI)
    fix a assume a: "\<forall>i. 1 \<le> i \<and> i \<le> Suc j \<longrightarrow> a \<noteq> block + i * ps"
    then have "m' a = ?m1 a" using rest by auto
    moreover from a have "a \<noteq> block + Suc j * ps" by auto
    ultimately show "m' a = m a" by simp
  qed
  from step run l r show ?case by auto
qed


lemma chunk_seq_Suc: "chunk_seq block (Suc k) ps = block # chunk_seq (block + ps) k ps"
proof -
  have "[0..<Suc k] = 0 # map Suc [0..<k]"
    by (simp add: upt_conv_Cons map_Suc_upt del: upt_Suc)
  then show ?thesis by (simp add: chunk_seq_def comp_def add.assoc del: upt_Suc)
qed

lemma chunk_seq_0 [simp]: "chunk_seq block 0 ps = []"
  by (simp add: chunk_seq_def)

lemma length_chunk_seq [simp]: "length (chunk_seq block k ps) = k"
  by (simp add: chunk_seq_def)

lemma set_chunk_seq: "set (chunk_seq block k ps) = {block + i * ps | i. i < k}"
  by (auto simp: chunk_seq_def)

lemma sorted_chunk_seq: "0 < ps \<Longrightarrow> sorted_wrt (<) (chunk_seq block k ps)"
  by (induction k arbitrary: block) (auto simp: chunk_seq_Suc set_chunk_seq)

lemma path_chunk_seq:
  assumes "\<forall>i. Suc i < k \<longrightarrow> m (block + i * ps) = block + Suc i * ps"
    and "m (block + (k - 1) * ps) = e" and "1 \<le> k" and "block \<noteq> 0"
  shows "path m block (chunk_seq block k ps) e"
  using assms
proof (induction k arbitrary: block)
  case 0
  then show ?case by simp
next
  case (Suc k)
  show ?case
  proof (cases "k = 0")
    case True
    with Suc.prems show ?thesis by (simp add: chunk_seq_Suc nextof_def)
  next
    case False
    have "path m (block + ps) (chunk_seq (block + ps) k ps) e"
    proof (rule Suc.IH)
      show "\<forall>i. Suc i < k \<longrightarrow> m (block + ps + i * ps) = block + ps + Suc i * ps"
        using Suc.prems(1) by (auto simp: add.assoc dest: spec [where x = "Suc i" for i])
      show "m (block + ps + (k - 1) * ps) = e"
        using Suc.prems(2) False by (cases k) (simp_all add: add.assoc)
      show "1 \<le> k" using False by simp
      show "block + ps \<noteq> 0" using Suc.prems(4) by simp
    qed
    moreover have "m block = block + ps"
      using Suc.prems(1) False by (auto dest: spec [where x = 0])
    ultimately show ?thesis using Suc.prems(4) by (simp add: chunk_seq_Suc nextof_def)
  qed
qed

lemma segregate_result:
  fixes nsz partition_sz :: size_type
  assumes nz: "partition_sz \<noteq> 0" and le: "partition_sz \<le> nsz"
  defines "ps \<equiv> unat partition_sz"
  defines "k \<equiv> unat nsz div unat partition_sz"
  shows "\<exists>m'. segregate m block nsz partition_sz e = Some (m', block) \<and>
           (\<forall>i. Suc i < k \<longrightarrow> m' (block + i * ps) = block + Suc i * ps) \<and>
           m' (block + (k - 1) * ps) = e \<and>
           (\<forall>a. a \<notin> set (chunk_seq block k ps) \<longrightarrow> m' a = m a)"
proof -
  have ps: "0 < ps" using nz by (simp add: ps_def unat_gt_0)
  have k: "1 \<le> k"
    using le ps by (simp add: k_def ps_def word_le_nat_alt div_greater_zero_iff Suc_le_eq)
  have shift: "unat (((nsz - partition_sz) div partition_sz) * partition_sz) = (k - 1) * ps"
    using unat_shift [OF nz le] by (simp add: k_def ps_def)
  let ?old = "block + (k - 1) * ps"
  let ?m1 = "m(?old := e)"
  show ?thesis
  proof (cases "k = 1")
    case True
    then have "segregate m block nsz partition_sz e = Some (m(block := e), block)"
      using nz shift by (simp add: segregate_def Let_def)
    moreover have "chunk_seq block k ps = [block]"
      using True by (simp add: chunk_seq_def)
    ultimately show ?thesis using True by auto
  next
    case False
    with k obtain j where j: "k = Suc (Suc j)"
      by (metis One_nat_def Suc_le_D le_antisym not_less_eq_eq)
    define old where "old = block + Suc j * ps"
    define m1 where "m1 = m(old := e)"
    from segregate_loop_threads [OF ps, of m1 block j] obtain m2 where
      run: "segregate_loop m1 block (block + j * ps) old ps = Some (m2, block + ps)" and
      links: "\<forall>i. 1 \<le> i \<and> i \<le> j \<longrightarrow> m2 (block + i * ps) = block + Suc i * ps" and
      rest: "\<forall>a. (\<forall>i. 1 \<le> i \<and> i \<le> j \<longrightarrow> a \<noteq> block + i * ps) \<longrightarrow> m2 a = m1 a"
      unfolding old_def by blast
    have old: "block + unat (((nsz - partition_sz) div partition_sz) * partition_sz) = old"
      by (simp add: shift j old_def)
    have ne: "old \<noteq> block" using ps by (simp add: old_def)
    have sub: "old - ps = block + j * ps" by (simp add: old_def)
    have "segregate m block nsz partition_sz e =
        segregate_loop m1 block (old - unat partition_sz) old (unat partition_sz) \<bind>
          (\<lambda>(m2, old'). Some (m2(block := old'), block))"
      unfolding segregate_def Let_def old m1_def using nz ne by simp
    also have "\<dots> = Some (m2(block := block + ps), block)"
      unfolding ps_def [symmetric] sub run by simp
    finally have seg:
      "segregate m block nsz partition_sz e = Some (m2(block := block + ps), block)" .
    let ?m' = "m2(block := block + ps)"
    have l: "\<forall>i. Suc i < k \<longrightarrow> ?m' (block + i * ps) = block + Suc i * ps"
    proof (intro allI impI)
      fix i assume "Suc i < k"
      then have "i \<le> j" by (simp add: j)
      then show "?m' (block + i * ps) = block + Suc i * ps"
        using links ps by (cases "i = 0") auto
    qed
    have k1: "block + (k - 1) * ps = old" by (simp add: j old_def)
    have "\<forall>i. 1 \<le> i \<and> i \<le> j \<longrightarrow> old \<noteq> block + i * ps"
      unfolding old_def using chunk_addr_inj [OF ps, of block "Suc j"] by auto
    with rest have "m2 old = m1 old" by blast
    with ne have last: "?m' (block + (k - 1) * ps) = e" unfolding k1 by (simp add: m1_def)
    have r: "\<forall>a. a \<notin> set (chunk_seq block k ps) \<longrightarrow> ?m' a = m a"
    proof (intro allI impI)
      fix a assume a: "a \<notin> set (chunk_seq block k ps)"
      then have all: "\<forall>i<k. a \<noteq> block + i * ps" by (auto simp: set_chunk_seq)
      then have "a \<noteq> block" using k by (auto dest: spec [where x = 0])
      moreover have "a \<noteq> old" using all k unfolding k1 [symmetric]
        by (auto dest: spec [where x = "k - 1"])
      moreover have "\<forall>i. 1 \<le> i \<and> i \<le> j \<longrightarrow> a \<noteq> block + i * ps"
        using all by (auto simp: j)
      ultimately show "?m' a = m a" using rest by (auto simp: m1_def)
    qed
    from seg l last r show ?thesis by blast
  qed
qed

lemma spaced_chunk_seq:
  assumes "pointer_size \<le> ps"
  shows "spaced (chunk_seq block k ps)"
proof (induction k arbitrary: block)
  case 0
  show ?case by simp
next
  case (Suc k)
  have "list_all (apart block) (chunk_seq (block + ps) k ps)"
    using assms by (auto simp: list_all_iff set_chunk_seq apart_def)
  with Suc show ?case by (simp add: chunk_seq_Suc)
qed

text \<open>
  Claim C6, as the code has it.  For a region of \<open>total_size\<close> bytes and a chunk size
  that is at least the size of a pointer and at most \<open>total_size\<close>, \<^verbatim>\<open>segregate\<close>
  returns the block start; with \<open>k = total_size div chunk_size\<close>, the chunk at offset
  \<open>i * chunk_size\<close> holds the address of the chunk at \<open>(i + 1) * chunk_size\<close> for
  \<open>i + 1 < k\<close>, the last chunk holds \<open>end\<close>, and no pointer that lies outside the \<open>k\<close>
  chunks is changed.  The \<open>k\<close> chunk addresses are strictly ascending and a pointer or
  more apart, and they are the path from the block start to \<open>end\<close>.  The single-chunk
  case is \<open>k = 1\<close>.
\<close>

theorem segregate_threads:
  fixes total_size chunk_size :: size_type
  assumes "pointer_size \<le> unat chunk_size" and "chunk_size \<le> total_size"
  shows "\<exists>m'. segregate m block total_size chunk_size e = Some (m', block) \<and>
     (\<forall>i. Suc i < unat total_size div unat chunk_size \<longrightarrow>
        m' (block + i * unat chunk_size) = block + Suc i * unat chunk_size) \<and>
     m' (block + (unat total_size div unat chunk_size - 1) * unat chunk_size) = e \<and>
     (\<forall>a. a + pointer_size \<le> block \<or>
          block + unat total_size div unat chunk_size * unat chunk_size \<le> a \<longrightarrow> m' a = m a) \<and>
     length (chunk_seq block (unat total_size div unat chunk_size) (unat chunk_size)) =
       unat total_size div unat chunk_size \<and>
     sorted_wrt (<) (chunk_seq block (unat total_size div unat chunk_size) (unat chunk_size)) \<and>
     spaced (chunk_seq block (unat total_size div unat chunk_size) (unat chunk_size)) \<and>
     (block \<noteq> 0 \<longrightarrow>
        path m' block (chunk_seq block (unat total_size div unat chunk_size) (unat chunk_size)) e)"
proof -
  let ?k = "unat total_size div unat chunk_size"
  let ?ps = "unat chunk_size"
  have ps: "0 < ?ps" using assms(1) by (simp add: pointer_size_def)
  then have nz: "chunk_size \<noteq> 0" by (simp add: unat_gt_0)
  have k: "1 \<le> ?k"
    using assms(2) ps by (simp add: word_le_nat_alt div_greater_zero_iff Suc_le_eq)
  from segregate_result [OF nz assms(2), of m block e] obtain m' where
    seg: "segregate m block total_size chunk_size e = Some (m', block)" and
    links: "\<forall>i. Suc i < ?k \<longrightarrow> m' (block + i * ?ps) = block + Suc i * ?ps" and
    last: "m' (block + (?k - 1) * ?ps) = e" and
    rest: "\<forall>a. a \<notin> set (chunk_seq block ?k ?ps) \<longrightarrow> m' a = m a"
    by blast
  have frame: "\<forall>a. a + pointer_size \<le> block \<or> block + ?k * ?ps \<le> a \<longrightarrow> m' a = m a"
  proof (intro allI impI)
    fix a assume o: "a + pointer_size \<le> block \<or> block + ?k * ?ps \<le> a"
    have "a \<notin> set (chunk_seq block ?k ?ps)"
    proof
      assume "a \<in> set (chunk_seq block ?k ?ps)"
      then obtain i where i: "i < ?k" "a = block + i * ?ps" by (auto simp: set_chunk_seq)
      from i(1) have "Suc i * ?ps \<le> ?k * ?ps" by (intro mult_le_mono1) simp
      then have "a + ?ps \<le> block + ?k * ?ps" using i(2) by simp
      with ps have "a < block + ?k * ?ps" by linarith
      moreover have "block \<le> a" using i(2) by simp
      ultimately show False using o unfolding pointer_size_def by linarith
    qed
    with rest show "m' a = m a" by simp
  qed
  have "block \<noteq> 0 \<longrightarrow> path m' block (chunk_seq block ?k ?ps) e"
    using path_chunk_seq [OF links last k] by blast
  with seg links last frame sorted_chunk_seq [OF ps, of block ?k]
    spaced_chunk_seq [OF assms(1), of block ?k]
  show ?thesis by (intro exI [of _ m']) simp
qed

text \<open>
  With a chunk size of zero, which is not above any \<open>total_size\<close>, the code divides by
  zero: \<^verbatim>\<open>segregate\<close> does not return.
\<close>

theorem segregate_zero_chunk_counterexample:
  "(0::size_type) \<le> 16 \<and> segregate zero_memory 4096 16 0 7 = None"
  by (simp add: segregate_def)

text \<open>A region of 64 bytes cut into chunks of 16, and a region of a single chunk.\<close>

theorem segregate_threads_witness:
  "pointer_size \<le> unat (16::size_type) \<and> (16::size_type) \<le> 64 \<and>
   (\<exists>m'. segregate zero_memory 4096 64 16 7 = Some (m', 4096) \<and>
      m' 4096 = 4112 \<and> m' 4112 = 4128 \<and> m' 4128 = 4144 \<and> m' 4144 = 7 \<and>
      path m' 4096 [4096, 4112, 4128, 4144] 7) \<and>
   (\<exists>m'. segregate zero_memory 4096 16 16 7 = Some (m', 4096) \<and> m' 4096 = 7 \<and>
      path m' 4096 [4096] 7)"
proof -
  have h: "pointer_size \<le> unat (16::size_type)" "(16::size_type) \<le> 64" "(16::size_type) \<le> 16"
    by (simp_all add: pointer_size_def)
  have c: "chunk_seq 4096 4 16 = [4096, 4112, 4128, 4144]" "chunk_seq 4096 1 16 = [4096]"
    by (simp_all add: chunk_seq_def upt_rec)
  from segregate_threads [OF h(1) h(2), of zero_memory 4096 7] obtain m' where
    1: "segregate zero_memory 4096 64 16 7 = Some (m', 4096)" and
    2: "\<forall>i. Suc i < 4 \<longrightarrow> m' (4096 + i * 16) = 4096 + Suc i * 16" and
    3: "m' 4144 = 7" and 4: "path m' 4096 [4096, 4112, 4128, 4144] 7"
    by (auto simp: c)
  have 5: "m' 4096 = 4112" "m' 4112 = 4128" "m' 4128 = 4144"
    using 2 [rule_format, of 0] 2 [rule_format, of 1] 2 [rule_format, of 2] by simp_all
  from segregate_threads [OF h(1) h(3), of zero_memory 4096 7] obtain m'' where
    6: "segregate zero_memory 4096 16 16 7 = Some (m'', 4096)" and
    7: "m'' 4096 = 7" and 8: "path m'' 4096 [4096] 7"
    by (auto simp: c chunk_seq_Suc nextof_def)
  from 1 3 4 5 6 7 8 h show ?thesis by blast
qed

section \<open>Paths\<close>

lemma path_append:
  "path m x (as @ bs) z \<longleftrightarrow> (\<exists>y. path m x as y \<and> path m y bs z)"
  by (induction as arbitrary: x) auto

lemma path_update:
  "a \<notin> set as \<Longrightarrow> path (m(a := v)) x as y \<longleftrightarrow> path m x as y"
  by (induction as arbitrary: x) (auto simp: nextof_def)

lemma path_nonnull: "path m x as y \<Longrightarrow> 0 \<notin> set as"
  by (induction as arbitrary: x) auto

lemma path_unique: "path m x as 0 \<Longrightarrow> path m x bs 0 \<Longrightarrow> as = bs"
proof (induction as arbitrary: x bs)
  case Nil
  then show ?case by (cases bs) auto
next
  case (Cons a as)
  then show ?case by (cases bs) auto
qed

lemma path_suffix_unique:
  "path m x as y \<Longrightarrow> path m x (as @ bs) 0 \<Longrightarrow> path m y bs 0"
  by (induction as arbitrary: x) auto

lemma path_head_notin_tail:
  assumes "path m x (a # as) 0"
  shows "a \<notin> set as"
proof
  assume "a \<in> set as"
  then obtain us vs where as: "as = us @ a # vs" by (auto simp: in_set_conv_decomp)
  from assms have 1: "path m (nextof m a) as 0" and a: "a \<noteq> 0" by simp_all
  then have "path m a (a # vs) 0" by (auto simp: as path_append)
  then have "path m (nextof m a) vs 0" by simp
  with 1 have "as = vs" by (rule path_unique)
  then show False by (simp add: as)
qed

lemma path_distinct: "path m x as 0 \<Longrightarrow> distinct as"
proof (induction as arbitrary: x)
  case Nil
  then show ?case by simp
next
  case (Cons a as)
  from Cons.prems have "a \<notin> set as" by (rule path_head_notin_tail)
  moreover from Cons.prems have "path m (nextof m a) as 0" by simp
  then have "distinct as" by (rule Cons.IH)
  ultimately show ?case by simp
qed

section \<open>Runs\<close>

lemma contiguous_pos [simp]: "xs \<noteq> [] \<Longrightarrow> 0 < contiguous ps xs"
  by (induction ps xs rule: contiguous.induct) auto

lemma contiguous_le_length: "contiguous ps xs \<le> length xs"
  by (induction ps xs rule: contiguous.induct) auto

lemma contiguous_take:
  "k \<le> contiguous ps xs \<Longrightarrow> take k xs = chunk_seq (hd xs) k ps"
proof (induction ps xs arbitrary: k rule: contiguous.induct)
  case (1 ps)
  then show ?case by simp
next
  case (2 ps x)
  then show ?case by (cases k) (simp_all add: chunk_seq_Suc)
next
  case (3 ps x y ys)
  show ?case
  proof (cases k)
    case 0
    then show ?thesis by simp
  next
    case (Suc k')
    show ?thesis
    proof (cases "y = x + ps")
      case True
      with 3 Suc show ?thesis by (simp add: chunk_seq_Suc)
    next
      case False
      with 3 Suc have "k' = 0" by simp
      with Suc show ?thesis by (simp add: chunk_seq_Suc)
    qed
  qed
qed

lemma contiguous_drop:
  "i < contiguous ps xs \<Longrightarrow> contiguous ps (drop i xs) = contiguous ps xs - i"
proof (induction ps xs arbitrary: i rule: contiguous.induct)
  case (1 ps)
  then show ?case by simp
next
  case (2 ps x)
  then show ?case by simp
next
  case (3 ps x y ys)
  then show ?case by (cases i) (auto split: if_splits)
qed

lemma take_run_skip:
  assumes "contiguous ps xs < n"
  shows "i \<le> contiguous ps xs \<Longrightarrow>
    take_run n ps xs = map_option (\<lambda>(r, ys). (r, take i xs @ ys)) (take_run n ps (drop i xs))"
proof (induction i)
  case 0
  then show ?case by (simp add: option.map_ident case_prod_unfold)
next
  case (Suc i)
  then have i: "i < contiguous ps xs" by simp
  with contiguous_le_length [of ps xs] have len: "i < length xs" by simp
  then have d: "drop i xs = xs ! i # drop (Suc i) xs" by (simp add: Cons_nth_drop_Suc)
  have "contiguous ps (drop i xs) < n"
    using contiguous_drop [OF i] assms by simp
  then have "take_run n ps (drop i xs) =
      map_option (\<lambda>(r, ys). (r, xs ! i # ys)) (take_run n ps (drop (Suc i) xs))"
    by (simp add: d)
  moreover have "take_run n ps xs =
      map_option (\<lambda>(r, ys). (r, take i xs @ ys)) (take_run n ps (drop i xs))"
    using Suc by simp
  ultimately show ?case
    using len by (simp add: option.map_comp comp_def case_prod_unfold take_Suc_conv_app_nth)
qed

lemma take_run_Some:
  assumes "take_run n ps xs = Some (r, ys)"
  shows "\<exists>pre post. xs = pre @ chunk_seq r n ps @ post \<and> ys = pre @ post \<and>
           take_run n ps (chunk_seq r n ps @ post) = Some (r, post)"
  using assms
proof (induction xs arbitrary: ys)
  case Nil
  then show ?case by simp
next
  case (Cons x xs)
  show ?case
  proof (cases "n \<le> contiguous ps (x # xs)")
    case True
    with Cons.prems have r: "r = x" and ys: "ys = drop n (x # xs)" by auto
    from contiguous_take [OF True] have t: "take n (x # xs) = chunk_seq r n ps" by (simp add: r)
    have "x # xs = [] @ chunk_seq r n ps @ ys"
      using t ys by (metis append_Nil append_take_drop_id)
    moreover have "take_run n ps (chunk_seq r n ps @ ys) = Some (r, ys)"
      using Cons.prems t ys by (metis append_take_drop_id)
    ultimately show ?thesis using ys by (intro exI [of _ "[]"] exI [of _ ys]) simp
  next
    case False
    with Cons.prems obtain ys' where 1: "take_run n ps xs = Some (r, ys')" and ys: "ys = x # ys'"
      by auto
    from Cons.IH [OF 1] obtain pre post where
      "xs = pre @ chunk_seq r n ps @ post" "ys' = pre @ post"
      "take_run n ps (chunk_seq r n ps @ post) = Some (r, post)" by blast
    then show ?thesis using ys by (intro exI [of _ "x # pre"] exI [of _ post]) simp
  qed
qed




section \<open>The scan of allocate\_n\<close>

lemma word_minus_one_eq_0: "n - 1 = 0 \<longleftrightarrow> n = (1::size_type)"
  by auto

lemma unat_ge_2:
  fixes n :: size_type
  assumes "n \<noteq> 0" and "n \<noteq> 1"
  shows "2 \<le> unat n" and "unat (n - 1) = unat n - 1" and "n - 1 \<noteq> 0"
proof -
  have "unat n \<noteq> 0" using assms(1) by (simp add: unat_gt_0 [symmetric])
  moreover have "unat n \<noteq> 1" using assms(2) by (simp add: word_unat_eq_iff)
  ultimately show "2 \<le> unat n" by simp
  show "unat (n - 1) = unat n - 1" using assms(1) by (rule unat_minus_one)
  show "n - 1 \<noteq> 0" using assms(2) by (simp add: word_minus_one_eq_0)
qed

lemma try_allocate_n_loop_result:
  assumes "path m x zs 0" and "zs \<noteq> []" and "n \<noteq> 0"
  shows "try_allocate_n_loop m start x n ps =
           Some (if unat n \<le> contiguous (unat ps) zs then (zs ! (unat n - 1), start)
                 else (0, Chunk (zs ! (contiguous (unat ps) zs - 1))))"
  using assms
proof (induction zs arbitrary: x n)
  case Nil
  then show ?case by simp
next
  case (Cons z zs)
  from Cons.prems have x: "x = z" and z: "z \<noteq> 0" and tl: "path m (nextof m z) zs 0"
    by simp_all
  show ?case
  proof (cases "n = 1")
    case True
    then show ?thesis
      by (subst try_allocate_n_loop.simps) (simp add: x Suc_le_eq)
  next
    case False
    note n = unat_ge_2 [OF Cons.prems(3) False]
    show ?thesis
    proof (cases "nextof m z = z + unat ps")
      case True
      with z tl obtain y ys where zs: "zs = y # ys" and y: "y = z + unat ps"
        by (cases zs) auto
      have "try_allocate_n_loop m start x n ps =
          try_allocate_n_loop m start (nextof m z) (n - 1) ps"
        using True n(3) by (subst try_allocate_n_loop.simps) (simp add: x)
      also have "\<dots> = Some (if unat (n - 1) \<le> contiguous (unat ps) zs
                 then (zs ! (unat (n - 1) - 1), start)
                 else (0, Chunk (zs ! (contiguous (unat ps) zs - 1))))"
        using tl n(3) by (intro Cons.IH) (simp_all add: zs)
      also have "\<dots> = Some (if unat n \<le> contiguous (unat ps) (z # zs)
                 then ((z # zs) ! (unat n - 1), start)
                 else (0, Chunk ((z # zs) ! (contiguous (unat ps) (z # zs) - 1))))"
      proof -
        have c: "contiguous (unat ps) (z # zs) = Suc (contiguous (unat ps) zs)"
          by (simp add: zs y)
        have p: "0 < contiguous (unat ps) zs" by (simp add: zs)
        have "(z # zs) ! (unat n - 1) = zs ! (unat (n - 1) - 1)"
          using n by (simp add: nth_Cons')
        moreover have "(z # zs) ! (contiguous (unat ps) (z # zs) - 1) =
            zs ! (contiguous (unat ps) zs - 1)"
          using p by (simp add: c nth_Cons')
        moreover have "unat (n - 1) \<le> contiguous (unat ps) zs \<longleftrightarrow>
            unat n \<le> contiguous (unat ps) (z # zs)"
          using n by (auto simp: c)
        ultimately show ?thesis by simp
      qed
      finally show ?thesis .
    next
      case False
      have c: "contiguous (unat ps) (z # zs) = 1"
      proof (cases zs)
        case Nil
        then show ?thesis by simp
      next
        case (Cons y ys)
        with tl False show ?thesis by simp
      qed
      have "try_allocate_n_loop m start x n ps = Some (0, Chunk z)"
        using False n(3) by (subst try_allocate_n_loop.simps) (simp add: x)
      then show ?thesis using n(1) by (simp add: c)
    qed
  qed
qed

lemma contiguous_nth:
  assumes "k \<le> contiguous ps zs" and "i < k"
  shows "zs ! i = hd zs + i * ps"
proof -
  from contiguous_le_length [of ps zs] assms have "i < length zs" by simp
  with assms(2) have "zs ! i = take k zs ! i" by simp
  also have "\<dots> = chunk_seq (hd zs) k ps ! i" using contiguous_take [OF assms(1)] by simp
  also have "\<dots> = hd zs + i * ps" using assms(2) by (simp add: chunk_seq_def)
  finally show ?thesis .
qed

lemma path_drop:
  assumes "path m x zs 0" and "0 < c" and "c \<le> length zs"
  shows "path m (nextof m (zs ! (c - 1))) (drop c zs) 0"
proof -
  from assms(2,3) have "zs = take (c - 1) zs @ zs ! (c - 1) # drop c zs"
    by (metis Suc_diff_1 Suc_le_lessD id_take_nth_drop)
  with assms(1) have "path m x (take (c - 1) zs @ zs ! (c - 1) # drop c zs) 0" by simp
  then show ?thesis by (auto simp: path_append)
qed

lemma allocate_n_loop_result:
  assumes "path (mem s) (nextof_cell s start) zs 0" and "n \<noteq> 0"
  shows "case take_run (unat n) (unat ps) zs of
           None \<Rightarrow> \<exists>c. allocate_n_loop s start n ps = Some (0, c)
         | Some (r, ys) \<Rightarrow>
             \<exists>pre post. zs = pre @ chunk_seq r (unat n) (unat ps) @ post \<and> ys = pre @ post \<and>
               allocate_n_loop s start n ps =
                 Some (r + (unat n - 1) * unat ps, if pre = [] then start else Chunk (last pre))"
  using assms(1)
proof (induction zs arbitrary: start rule: length_induct)
  case (1 zs)
  let ?k = "unat n" and ?ps = "unat ps"
  have k: "0 < ?k" using assms(2) by (simp add: unat_gt_0)
  show ?case
  proof (cases zs)
    case Nil
    with 1(2) have "allocate_n_loop s start n ps = Some (0, start)"
      by (subst allocate_n_loop.simps) simp
    with Nil show ?thesis by auto
  next
    case (Cons z zs')
    with 1(2) have nn: "nextof_cell s start \<noteq> 0" by simp
    have ne: "zs \<noteq> []" using Cons by simp
    note tr = try_allocate_n_loop_result [OF 1(2) ne assms(2), of start ps]
    show ?thesis
    proof (cases "?k \<le> contiguous ?ps zs")
      case True
      have nth: "zs ! (?k - 1) = z + (?k - 1) * ?ps"
        using contiguous_nth [OF True, of "?k - 1"] k Cons by simp
      then have nz: "zs ! (?k - 1) \<noteq> 0" using 1(2) Cons by auto
      have "allocate_n_loop s start n ps = Some (zs ! (?k - 1), start)"
        using nn tr True nz
        by (subst allocate_n_loop.simps) (simp add: try_allocate_n_def)
      moreover have "take_run ?k ?ps zs = Some (z, drop ?k zs)" using True Cons by simp
      moreover have "zs = [] @ chunk_seq z ?k ?ps @ drop ?k zs"
        using contiguous_take [OF True] Cons by (metis append_Nil append_take_drop_id list.sel(1))
      ultimately show ?thesis using nth by auto
    next
      case False
      let ?c = "contiguous ?ps zs"
      have c: "0 < ?c" "?c \<le> length zs" "?c < ?k"
        using ne False contiguous_le_length [of ?ps zs] by simp_all
      let ?st = "Chunk (zs ! (?c - 1))"
      have step: "allocate_n_loop s start n ps = allocate_n_loop s ?st n ps"
        using nn tr False
        by (subst allocate_n_loop.simps) (simp add: try_allocate_n_def)
      have p: "path (mem s) (nextof_cell s ?st) (drop ?c zs) 0"
        using path_drop [OF 1(2) c(1,2)] by (simp add: nextof_cell_def)
      have "length (drop ?c zs) < length zs" using c ne by simp
      with 1(1) p have IH: "case take_run ?k ?ps (drop ?c zs) of
           None \<Rightarrow> \<exists>c. allocate_n_loop s ?st n ps = Some (0, c)
         | Some (r, ys) \<Rightarrow>
             \<exists>pre post. drop ?c zs = pre @ chunk_seq r ?k ?ps @ post \<and> ys = pre @ post \<and>
               allocate_n_loop s ?st n ps =
                 Some (r + (?k - 1) * ?ps, if pre = [] then ?st else Chunk (last pre))"
        by blast
      have skip: "take_run ?k ?ps zs =
          map_option (\<lambda>(r, ys). (r, take ?c zs @ ys)) (take_run ?k ?ps (drop ?c zs))"
        using take_run_skip [OF c(3), of ?c] by simp
      show ?thesis
      proof (cases "take_run ?k ?ps (drop ?c zs)")
        case None
        with IH skip step show ?thesis by simp
      next
        case (Some a)
        obtain r ys where a: "a = (r, ys)" by (cases a)
        from IH Some a obtain pre post where
          d: "drop ?c zs = pre @ chunk_seq r ?k ?ps @ post" and ys: "ys = pre @ post" and
          l: "allocate_n_loop s ?st n ps =
                 Some (r + (?k - 1) * ?ps, if pre = [] then ?st else Chunk (last pre))"
          by auto
        have t: "take_run ?k ?ps zs = Some (r, take ?c zs @ ys)" using skip Some a by simp
        have z: "zs = (take ?c zs @ pre) @ chunk_seq r ?k ?ps @ post"
          using d by (metis append.assoc append_take_drop_id)
        have tk: "take ?c zs \<noteq> []" using c ne by simp
        have lst: "last (take ?c zs) = zs ! (?c - 1)"
          using c tk by (simp add: last_conv_nth min_def)
        have "(if take ?c zs @ pre = [] then start else Chunk (last (take ?c zs @ pre))) =
            (if pre = [] then ?st else Chunk (last pre))"
          using tk lst by simp
        with l step have res: "allocate_n_loop s start n ps =
            Some (r + (?k - 1) * ?ps,
                  if take ?c zs @ pre = [] then start else Chunk (last (take ?c zs @ pre)))"
          by simp
        have "\<exists>pre' post'. zs = pre' @ chunk_seq r ?k ?ps @ post' \<and>
            take ?c zs @ ys = pre' @ post' \<and>
            allocate_n_loop s start n ps =
              Some (r + (?k - 1) * ?ps, if pre' = [] then start else Chunk (last pre'))"
          using z ys res by (intro exI [of _ "take ?c zs @ pre"] exI [of _ post]) simp
        then show ?thesis by (simp only: t option.case prod.case)
      qed
    qed
  qed
qed


lemma last_chunk_seq: "0 < k \<Longrightarrow> last (chunk_seq r k ps) = r + (k - 1) * ps"
  by (cases k) (simp_all add: chunk_seq_def)

lemma hd_chunk_seq: "0 < k \<Longrightarrow> hd (chunk_seq r k ps) = r"
  by (cases k) (simp_all add: chunk_seq_Suc)

lemma chunk_seq_nonempty: "0 < k \<Longrightarrow> chunk_seq r k ps \<noteq> []"
  by (cases k) (simp_all add: chunk_seq_Suc)

lemma path_last_next:
  assumes "path m x (as @ [a]) y"
  shows "nextof m a = y"
  using assms by (auto simp: path_append)

lemma path_hd:
  assumes "path m x as y" and "as \<noteq> []"
  shows "x = hd as"
  using assms by (cases as) auto

lemma allocate_n_result:
  assumes fl: "free_list s xs" and n: "n \<noteq> 0"
  shows "case take_run (unat n) (unat ps) xs of
           None \<Rightarrow> allocate_n s n ps = Some (0, s)
         | Some (r, ys) \<Rightarrow>
             r \<noteq> 0 \<and>
             (\<exists>s'. allocate_n s n ps = Some (r, s') \<and> free_list s' ys \<and>
                (\<forall>a. a \<notin> set xs \<longrightarrow> mem s' a = mem s a))"
proof -
  let ?k = "unat n" and ?ps = "unat ps" and ?m = "mem s"
  have k: "0 < ?k" using n by (simp add: unat_gt_0)
  from fl have p: "path ?m (nextof_cell s Head) xs 0"
    by (simp add: free_list_def nextof_cell_def)
  note loop = allocate_n_loop_result [OF p n, of ps]
  show ?thesis
  proof (cases "take_run ?k ?ps xs")
    case None
    with loop obtain c where "allocate_n_loop s Head n ps = Some (0, c)" by auto
    with n have "allocate_n s n ps = Some (0, s)" by (simp add: allocate_n_def)
    with None show ?thesis by simp
  next
    case (Some a)
    obtain r ys where a: "a = (r, ys)" by (cases a)
    define iter where "iter = r + (?k - 1) * ?ps"
    from loop Some a obtain pre post where
      xs: "xs = pre @ chunk_seq r ?k ?ps @ post" and ys: "ys = pre @ post" and
      l: "allocate_n_loop s Head n ps = Some (iter, if pre = [] then Head else Chunk (last pre))"
      by (auto simp: iter_def)
    let ?run = "chunk_seq r ?k ?ps"
    let ?st = "if pre = [] then Head else Chunk (last pre)"
    have run: "?run \<noteq> []" "hd ?run = r" "last ?run = iter"
      using k by (simp_all add: chunk_seq_nonempty hd_chunk_seq last_chunk_seq iter_def)
    have nonnull: "0 \<notin> set xs" using p by (rule path_nonnull)
    have "r \<in> set xs" using run(1,2) by (metis xs hd_in_set in_set_conv_decomp_first
          append.assoc hd_append2 list.set_sel(1) UnCI set_append)
    with nonnull have r: "r \<noteq> 0" by metis
    have "iter \<in> set xs" using run(1,3) by (metis xs last_in_set UnCI set_append)
    with nonnull have iter: "iter \<noteq> 0" by metis
    from p xs obtain y z where
      p1: "path ?m (first s) pre y" and p2: "path ?m y ?run z" and p3: "path ?m z post 0"
      by (auto simp: path_append nextof_cell_def)
    have y: "y = r" using path_hd [OF p2 run(1)] run(2) by simp
    have nx: "nextof ?m iter = z"
    proof -
      from run have "?run = butlast ?run @ [iter]" by (metis append_butlast_last_id)
      with p2 have "path ?m y (butlast ?run @ [iter]) z" by simp
      then show ?thesis by (rule path_last_next)
    qed
    have ret: "nextof_cell s ?st = r"
    proof (cases "pre = []")
      case True
      with p1 y show ?thesis by (simp add: nextof_cell_def)
    next
      case False
      then have "pre = butlast pre @ [last pre]" by simp
      with p1 have "path ?m (first s) (butlast pre @ [last pre]) y" by simp
      then have "nextof ?m (last pre) = y" by (rule path_last_next)
      with False y show ?thesis by (simp add: nextof_cell_def)
    qed
    define s' where "s' = set_nextof_cell s ?st (nextof ?m iter)"
    have an: "allocate_n s n ps = Some (r, s')"
      using n l iter ret by (simp add: allocate_n_def s'_def)
    have d: "distinct xs" using p by (rule path_distinct)
    have fl': "free_list s' ys"
    proof (cases "pre = []")
      case True
      with p1 have "first s = y" by simp
      with True p3 show ?thesis
        by (simp add: s'_def set_nextof_cell_def free_list_def nx ys)
    next
      case False
      define lp where "lp = last pre"
      from False have pre: "pre = butlast pre @ [lp]" by (simp add: lp_def)
      with p1 obtain w where q1: "path ?m (first s) (butlast pre) w" and q2: "path ?m w [lp] y"
        by (metis path_append)
      from q2 have w: "w = lp" and lp0: "lp \<noteq> 0" by simp_all
      have notin: "lp \<notin> set (butlast pre)" "lp \<notin> set post"
        using d xs pre by (metis distinct_append distinct.simps(2) append_Cons append_Nil
            disjoint_iff list.set_intros(1) UnCI set_append not_distinct_conv_prefix
            append.assoc in_set_conv_decomp)+
      let ?m' = "?m(lp := z)"
      have "path ?m' (first s) (butlast pre) lp"
        using q1 w notin(1) by (simp add: path_update)
      moreover have "path ?m' lp [lp] z" using lp0 by (simp add: nextof_def)
      moreover have "path ?m' z post 0" using p3 notin(2) by (simp add: path_update)
      ultimately have "path ?m' (first s) ((butlast pre @ [lp]) @ post) 0"
        by (metis path_append)
      with pre have "path ?m' (first s) (pre @ post) 0" by simp
      with False show ?thesis
        by (simp add: s'_def set_nextof_cell_def free_list_def nx ys lp_def)
    qed
    have frame: "\<forall>a. a \<notin> set xs \<longrightarrow> mem s' a = mem s a"
    proof (cases "pre = []")
      case True
      then show ?thesis by (simp add: s'_def set_nextof_cell_def)
    next
      case False
      then have "last pre \<in> set xs" by (simp add: xs)
      with False show ?thesis by (auto simp: s'_def set_nextof_cell_def)
    qed
    from r an fl' frame Some a show ?thesis by auto
  qed
qed





section \<open>Returning a chunk\<close>

lemma path_appendI: "path m x as y \<Longrightarrow> path m y bs z \<Longrightarrow> path m x (as @ bs) z"
  by (auto simp: path_append)

lemma free_list_Cons:
  "free_list s (x # xs) \<longleftrightarrow> first s = x \<and> x \<noteq> 0 \<and> path (mem s) (nextof (mem s) x) xs 0"
  by (auto simp: free_list_def)

lemma free_list_Nil: "free_list s [] \<longleftrightarrow> first s = 0"
  by (simp add: free_list_def)

lemma allocate_pop:
  assumes "free_list s (x # xs)"
  shows "allocate s = Some (x, s\<lparr>first := nextof (mem s) x\<rparr>)"
    and "free_list (s\<lparr>first := nextof (mem s) x\<rparr>) xs"
    and "x \<notin> set xs"
proof -
  from assms have f: "first s = x" "x \<noteq> 0" and p: "path (mem s) (nextof (mem s) x) xs 0"
    by (simp_all add: free_list_Cons)
  show "allocate s = Some (x, s\<lparr>first := nextof (mem s) x\<rparr>)"
    using f by (simp add: allocate_def)
  show "free_list (s\<lparr>first := nextof (mem s) x\<rparr>) xs"
    using p by (simp add: free_list_def)
  from assms have "path (mem s) x (x # xs) 0" by (simp add: free_list_def)
  then show "x \<notin> set xs" by (rule path_head_notin_tail)
qed

lemma deallocate_push:
  assumes "free_list s xs" and "a \<noteq> 0" and "a \<notin> set xs"
  shows "free_list (deallocate s a) (a # xs)"
  using assms by (simp add: free_list_def deallocate_def nextof_def path_update)

lemma find_prev_loop_result:
  assumes "path m x (x # xs) 0" and "x \<le> a"
  shows "find_prev_loop m a x = Some (last (takeWhile (\<lambda>y. y \<le> a) (x # xs)))"
  using assms
proof (induction xs arbitrary: x)
  case Nil
  then show ?case by (subst find_prev_loop.simps) simp
next
  case (Cons y ys)
  from Cons.prems have y: "nextof m x = y" "y \<noteq> 0" and p: "path m y (y # ys) 0" by simp_all
  show ?case
  proof (cases "y \<le> a")
    case True
    have "find_prev_loop m a x = find_prev_loop m a y"
      using y True by (subst find_prev_loop.simps) simp
    also have "\<dots> = Some (last (takeWhile (\<lambda>y. y \<le> a) (y # ys)))"
      using p True by (rule Cons.IH)
    finally show ?thesis using True Cons.prems(2) by simp
  next
    case False
    then have "find_prev_loop m a x = Some x"
      using y by (subst find_prev_loop.simps) simp
    with False Cons.prems(2) show ?thesis by simp
  qed
qed

lemma find_prev_result:
  assumes "free_list s xs"
  shows "find_prev s a =
           Some (if takeWhile (\<lambda>y. y \<le> a) xs = [] then 0
                 else last (takeWhile (\<lambda>y. y \<le> a) xs))"
proof (cases xs)
  case Nil
  with assms show ?thesis by (simp add: find_prev_def free_list_def)
next
  case (Cons x xs')
  with assms have f: "first s = x" "x \<noteq> 0" and p: "path (mem s) x (x # xs') 0"
    by (simp_all add: free_list_def)
  show ?thesis
  proof (cases "x \<le> a")
    case True
    with f have "find_prev s a = find_prev_loop (mem s) a x" by (simp add: find_prev_def)
    with find_prev_loop_result [OF p True] True Cons show ?thesis by simp
  next
    case False
    with f Cons show ?thesis by (simp add: find_prev_def)
  qed
qed

lemma find_prev_nonnull:
  assumes "free_list s xs" and "takeWhile (\<lambda>y. y \<le> a) xs \<noteq> []"
  shows "last (takeWhile (\<lambda>y. y \<le> a) xs) \<noteq> 0"
proof -
  from assms(1) have "0 \<notin> set xs" unfolding free_list_def by (rule path_nonnull)
  moreover have "last (takeWhile (\<lambda>y. y \<le> a) xs) \<in> set xs"
    using assms(2) by (meson last_in_set set_takeWhileD)
  ultimately show ?thesis by metis
qed

lemma ordered_deallocate_insert:
  assumes fl: "free_list s xs" and a: "a \<noteq> 0" "a \<notin> set xs"
  shows "\<exists>s'. ordered_deallocate s a = Some s' \<and> free_list s' (ordered_insert a xs) \<and>
           (\<forall>b. b \<notin> set (a # xs) \<longrightarrow> mem s' b = mem s b)"
proof (cases "takeWhile (\<lambda>y. y \<le> a) xs = []")
  case True
  then have "ordered_deallocate s a = Some (deallocate s a)"
    using find_prev_result [OF fl, of a] by (simp add: ordered_deallocate_def)
  moreover have "ordered_insert a xs = a # xs"
    using True by (simp add: ordered_insert_def) (metis append_Nil takeWhile_dropWhile_id)
  moreover have "\<forall>b. b \<notin> set (a # xs) \<longrightarrow> mem (deallocate s a) b = mem s b"
    by (simp add: deallocate_def)
  ultimately show ?thesis using deallocate_push [OF fl a] by simp
next
  case False
  let ?tw = "takeWhile (\<lambda>y. y \<le> a) xs" and ?dw = "dropWhile (\<lambda>y. y \<le> a) xs"
  let ?m = "mem s"
  define loc where "loc = last ?tw"
  have loc0: "loc \<noteq> 0" using find_prev_nonnull [OF fl False] by (simp add: loc_def)
  have fp: "find_prev s a = Some loc"
    using find_prev_result [OF fl, of a] False by (simp add: loc_def)
  define s' where "s' = s\<lparr>mem := ?m(a := nextof ?m loc, loc := a)\<rparr>"
  have od: "ordered_deallocate s a = Some s'"
    using fp loc0 by (simp add: ordered_deallocate_def s'_def)
  have tw: "?tw = butlast ?tw @ [loc]" using False by (simp add: loc_def)
  have xs: "xs = butlast ?tw @ [loc] @ ?dw"
    using tw by (metis append.assoc takeWhile_dropWhile_id)
  from fl have "path ?m (first s) (butlast ?tw @ [loc] @ ?dw) 0"
    using xs by (simp add: free_list_def)
  then obtain z where p1: "path ?m (first s) (butlast ?tw) loc" and nx: "nextof ?m loc = z"
    and p3: "path ?m z ?dw 0"
    by (auto simp: path_append)
  have d: "distinct xs" using fl unfolding free_list_def by (rule path_distinct)
  have "distinct (butlast ?tw @ [loc] @ ?dw)" using d xs by simp
  then have n1: "loc \<notin> set (butlast ?tw)" and n2: "loc \<notin> set ?dw" by auto
  have "a \<notin> set (butlast ?tw @ [loc] @ ?dw)" using a(2) xs by simp
  then have m1: "a \<notin> set (butlast ?tw)" and m2: "a \<notin> set ?dw" and al: "a \<noteq> loc" by auto
  let ?m' = "?m(a := z, loc := a)"
  have q1: "path ?m' (first s) (butlast ?tw) loc" using p1 n1 m1 by (simp add: path_update)
  have q2: "path ?m' loc [loc] a" using loc0 by (simp add: nextof_def)
  have q3: "path ?m' a [a] z" using a(1) al by (simp add: nextof_def)
  have q4: "path ?m' z ?dw 0" using p3 n2 m2 by (simp add: path_update)
  have "path ?m' (first s) (((butlast ?tw @ [loc]) @ [a]) @ ?dw) 0"
    by (rule path_appendI [OF path_appendI [OF path_appendI [OF q1 q2] q3] q4])
  then have "path ?m' (first s) (?tw @ a # ?dw) 0" using tw by simp
  then have "free_list s' (ordered_insert a xs)"
    by (simp add: free_list_def s'_def ordered_insert_def nx)
  moreover have "loc \<in> set xs" using xs by (metis in_set_conv_decomp append_Cons append_Nil)
  then have "\<forall>b. b \<notin> set (a # xs) \<longrightarrow> mem s' b = mem s b"
    by (auto simp: s'_def)
  ultimately show ?thesis using od by blast
qed

lemma sorted_ordered_insert:
  assumes "sorted_wrt (<) xs" and "a \<notin> set xs"
  shows "sorted_wrt (<) (ordered_insert a xs)"
proof -
  let ?tw = "takeWhile (\<lambda>y. y \<le> a) xs" and ?dw = "dropWhile (\<lambda>y. y \<le> a) xs"
  have xs: "xs = ?tw @ ?dw" by simp
  have s: "sorted_wrt (<) (?tw @ ?dw)" using assms(1) by (simp only: takeWhile_dropWhile_id)
  have 1: "\<forall>x\<in>set ?tw. x < a"
    using assms(2) by (metis le_neq_implies_less set_takeWhileD)
  have 2: "\<forall>y\<in>set ?dw. a < y"
  proof
    fix y assume y: "y \<in> set ?dw"
    then obtain d ds where dw: "?dw = d # ds" by (cases ?dw) auto
    then have "\<not> d \<le> a" by (metis hd_dropWhile list.sel(1) list.distinct(1))
    moreover have "d \<le> y"
      using s y dw by (auto simp: sorted_wrt_append less_imp_le)
    ultimately show "a < y" by simp
  qed
  from s have 3: "sorted_wrt (<) ?tw" and 4: "sorted_wrt (<) ?dw"
    unfolding sorted_wrt_append by blast+
  have 5: "\<forall>x\<in>set ?tw. \<forall>y\<in>set ?dw. x < y"
    using 1 2 by (meson less_trans)
  from 1 2 3 4 5 show ?thesis
    unfolding ordered_insert_def by (simp add: sorted_wrt_append)
qed


lemma ordered_deallocate_frame:
  "ordered_deallocate p a = Some p' \<Longrightarrow> storage_frame p p'"
  by (auto simp: ordered_deallocate_def deallocate_def storage_frame_def
      split: bind_splits if_splits)

lemma ordered_allocate_pop:
  assumes "free_list p (x # xs)"
  shows "ordered_allocate p = Some (x, p\<lparr>first := nextof (mem p) x\<rparr>)"
    and "pool_allocate p = Some (x, p\<lparr>first := nextof (mem p) x\<rparr>)"
proof -
  from assms have "\<not> empty p" by (simp add: free_list_Cons empty_def)
  then show "ordered_allocate p = Some (x, p\<lparr>first := nextof (mem p) x\<rparr>)"
    and "pool_allocate p = Some (x, p\<lparr>first := nextof (mem p) x\<rparr>)"
    using allocate_pop(1) [OF assms] by (simp_all add: ordered_allocate_def pool_allocate_def)
qed

lemma allocations_pops:
  assumes "free_list p xs" and "k \<le> length xs"
  shows "\<exists>p'. allocations k p = Some (take k xs, p') \<and> free_list p' (drop k xs) \<and>
           sys p' = sys p"
  using assms
proof (induction k arbitrary: p xs)
  case 0
  then show ?case by simp
next
  case (Suc k)
  then obtain x xs' where xs: "xs = x # xs'" by (cases xs) auto
  let ?p1 = "p\<lparr>first := nextof (mem p) x\<rparr>"
  from Suc.prems xs have fl: "free_list p (x # xs')" by simp
  have 1: "ordered_allocate p = Some (x, ?p1)" using ordered_allocate_pop(1) [OF fl] .
  have 2: "free_list ?p1 xs'" using allocate_pop(2) [OF fl] .
  from Suc.prems xs have "k \<le> length xs'" by simp
  from Suc.IH [OF 2 this] obtain p' where
    "allocations k ?p1 = Some (take k xs', p')" "free_list p' (drop k xs')" "sys p' = sys ?p1"
    by blast
  with 1 xs show ?case by simp
qed

lemma apart_notin: "list_all (apart a) xs \<Longrightarrow> a \<notin> set xs"
  by (auto simp: list_all_iff apart_def pointer_size_def)

lemma cycle_no_request:
  assumes "free_list p xs" and "cycle_ok xs ops"
  shows "\<exists>p'. cycle p ops = Some p' \<and> sys p' = sys p"
  using assms
proof (induction xs ops arbitrary: p rule: cycle_ok.induct)
  case (1 xs)
  then show ?case by simp
next
  case (2 xs ops)
  then obtain x xs' where xs: "xs = x # xs'" by (cases xs) auto
  let ?p1 = "p\<lparr>first := nextof (mem p) x\<rparr>"
  from 2(2) xs have fl: "free_list p (x # xs')" by simp
  have "free_list ?p1 (tl xs)" using allocate_pop(2) [OF fl] xs by simp
  with 2 obtain p' where "cycle ?p1 ops = Some p'" "sys p' = sys ?p1" by fastforce
  with ordered_allocate_pop(2) [OF fl] show ?case by simp
next
  case (3 xs a ops)
  then have "a \<noteq> 0" "a \<notin> set xs" by (simp_all add: apart_notin)
  with 3 have "free_list (pool_deallocate p a) (a # xs)"
    by (simp add: pool_deallocate_def deallocate_push)
  with 3 obtain p' where "cycle (pool_deallocate p a) ops = Some p'"
    "sys p' = sys (pool_deallocate p a)" by fastforce
  then show ?case by (simp add: pool_deallocate_def deallocate_def)
next
  case (4 xs ops)
  then obtain x xs' where xs: "xs = x # xs'" by (cases xs) auto
  let ?p1 = "p\<lparr>first := nextof (mem p) x\<rparr>"
  from 4(2) xs have fl: "free_list p (x # xs')" by simp
  have "free_list ?p1 (tl xs)" using allocate_pop(2) [OF fl] xs by simp
  with 4 obtain p' where "cycle ?p1 ops = Some p'" "sys p' = sys ?p1" by fastforce
  with ordered_allocate_pop(1) [OF fl] show ?case by simp
next
  case (5 xs a ops)
  then have a: "a \<noteq> 0" "a \<notin> set xs" by (simp_all add: apart_notin)
  from ordered_deallocate_insert [OF 5(2) a] obtain p1 where
    1: "ordered_deallocate p a = Some p1" and 2: "free_list p1 (ordered_insert a xs)" by blast
  from 5 2 obtain p' where "cycle p1 ops = Some p'" "sys p' = sys p1" by fastforce
  with 1 ordered_deallocate_frame [OF 1] show ?case
    by (simp add: pool_ordered_deallocate_def storage_frame_def)
qed

text \<open>
  Claim C9.  The pool has the free chunks \<open>ys\<close>, and \<open>a\<close> is a chunk in use: not
  null, and it overlaps no free chunk, as no two of these overlap.  After \<^verbatim>\<open>deallocate(a)\<close> the next \<^verbatim>\<open>allocate()\<close> returns \<open>a\<close> and
  leaves the free list as it was.  After \<^verbatim>\<open>ordered_deallocate(a)\<close>, \<open>a\<close> is in the
  free list behind the chunks below it, and \<^verbatim>\<open>ordered_allocate()\<close> returns it once
  these are handed out.  None of this asks the system allocator; and no cycle of
  single-chunk allocations and deallocations that finds the free list non-empty at each
  allocation does: it returns and leaves the record of requests and releases as it was.
\<close>

theorem deallocate_makes_available:
  assumes fl: "free_list p ys" and a0: "a \<noteq> 0" and sp: "spaced (a # ys)"
  shows "free_list (pool_deallocate p a) (a # ys) \<and>
     (\<exists>p'. pool_allocate (pool_deallocate p a) = Some (a, p') \<and> free_list p' ys \<and>
        sys p' = sys p) \<and>
     (\<exists>p1 p2. pool_ordered_deallocate p a = Some p1 \<and>
        free_list p1 (ordered_insert a ys) \<and> sys p1 = sys p \<and>
        allocations (Suc (length (takeWhile (\<lambda>x. x \<le> a) ys))) p1 =
          Some (takeWhile (\<lambda>x. x \<le> a) ys @ [a], p2) \<and>
        sys p2 = sys p) \<and>
     (cycle_ok ys ops \<longrightarrow> (\<exists>p'. cycle p ops = Some p' \<and> sys p' = sys p))"
proof (intro conjI impI)
  from sp have nin: "a \<notin> set ys" by (simp add: apart_notin)
  let ?d = "pool_deallocate p a"
  show fl': "free_list ?d (a # ys)"
    using fl a0 nin by (simp add: pool_deallocate_def deallocate_push)
  have "pool_allocate ?d = Some (a, ?d\<lparr>first := nextof (mem ?d) a\<rparr>)"
    using ordered_allocate_pop(2) [OF fl'] .
  moreover have "free_list (?d\<lparr>first := nextof (mem ?d) a\<rparr>) ys"
    using allocate_pop(2) [OF fl'] .
  moreover have "sys (?d\<lparr>first := nextof (mem ?d) a\<rparr>) = sys p"
    by (simp add: pool_deallocate_def deallocate_def)
  ultimately show "\<exists>p'. pool_allocate ?d = Some (a, p') \<and> free_list p' ys \<and> sys p' = sys p"
    by blast
next
  let ?tw = "takeWhile (\<lambda>x. x \<le> a) ys"
  from sp have nin: "a \<notin> set ys" by (simp add: apart_notin)
  from ordered_deallocate_insert [OF fl a0 nin] obtain p1 where
    1: "ordered_deallocate p a = Some p1" and 2: "free_list p1 (ordered_insert a ys)" by blast
  have 3: "sys p1 = sys p" using ordered_deallocate_frame [OF 1] by (simp add: storage_frame_def)
  have "Suc (length ?tw) \<le> length (ordered_insert a ys)" by (simp add: ordered_insert_def)
  from allocations_pops [OF 2 this] obtain p2 where
    "allocations (Suc (length ?tw)) p1 = Some (take (Suc (length ?tw)) (ordered_insert a ys), p2)"
    and 4: "sys p2 = sys p1" by blast
  moreover have "take (Suc (length ?tw)) (ordered_insert a ys) = ?tw @ [a]"
    by (simp add: ordered_insert_def)
  ultimately have "allocations (Suc (length ?tw)) p1 = Some (?tw @ [a], p2)" by simp
  with 1 2 3 4 show "\<exists>p1 p2. pool_ordered_deallocate p a = Some p1 \<and>
        free_list p1 (ordered_insert a ys) \<and> sys p1 = sys p \<and>
        allocations (Suc (length ?tw)) p1 = Some (?tw @ [a], p2) \<and> sys p2 = sys p"
    by (simp add: pool_ordered_deallocate_def)
next
  assume "cycle_ok ys ops"
  with fl show "\<exists>p'. cycle p ops = Some p' \<and> sys p' = sys p"
    by (rule cycle_no_request)
qed

lemma pool_i_free_list: "free_list pool_i [4104, 4112, 4120]"
  by (simp add: pool_i_def free_list_def eval_defs)

lemma pool_k_free_list: "free_list pool_k [4096, 4112, 4120]"
  by (simp add: pool_k_def pool_i_def free_list_def eval_defs)

lemma pool_k_spaced: "spaced [4104, 4096, 4112, 4120]"
  by (simp add: apart_def pointer_size_def)

text \<open>
  A pool of 8-byte chunks in a block at 4096: \<^verbatim>\<open>ordered_allocate()\<close> returned 4096 and
  then 4104, and 4096 was given back, so that 4096, 4112 and 4120 are free and 4104 is
  in use.  Given back unordered, 4104 is the next chunk handed out; given back ordered,
  it lies behind 4096 and is handed out second.
\<close>

theorem deallocate_makes_available_witness:
  "returned (ordered_allocate (new_pool 8 4 0 zero_memory sys_pages)) = Some 4096 \<and>
   returned (ordered_allocate pool_i) = Some 4104 \<and>
   free_list pool_k [4096, 4112, 4120] \<and>
   spaced [4104, 4096, 4112, 4120] \<and>
   (\<exists>p'. pool_allocate (pool_deallocate pool_k 4104) = Some (4104, p') \<and>
      free_list p' [4096, 4112, 4120] \<and> sys p' = sys pool_k) \<and>
   (\<exists>p1 p2. pool_ordered_deallocate pool_k 4104 = Some p1 \<and>
      free_list p1 [4096, 4104, 4112, 4120] \<and>
      allocations 2 p1 = Some ([4096, 4104], p2) \<and> sys p2 = sys pool_k) \<and>
   (\<exists>p'. cycle pool_k [Ordered_deallocate 4104, Ordered_allocate, Allocate, Deallocate 4096,
        Ordered_deallocate 4104] = Some p' \<and> sys p' = sys pool_k)"
proof -
  have a: "(4104::addr) \<noteq> 0" by simp
  have c: "cycle_ok [4096, 4112, 4120]
      [Ordered_deallocate 4104, Ordered_allocate, Allocate, Deallocate 4096,
       Ordered_deallocate 4104]"
    by (simp add: ordered_insert_def apart_def pointer_size_def)
  note t = deallocate_makes_available [OF pool_k_free_list a pool_k_spaced,
      of "[Ordered_deallocate 4104, Ordered_allocate, Allocate, Deallocate 4096,
       Ordered_deallocate 4104]"]
  have r: "returned (ordered_allocate (new_pool 8 4 0 zero_memory sys_pages)) = Some 4096"
    "returned (ordered_allocate pool_i) = Some 4104"
    by (simp_all add: returned_def pool_i_def eval_defs)
  have i: "ordered_insert 4104 [4096, 4112, 4120] = [4096, 4104, 4112, 4120]"
    by (simp add: ordered_insert_def)
  from t have 1: "\<exists>p'. pool_allocate (pool_deallocate pool_k 4104) = Some (4104, p') \<and>
      free_list p' [4096, 4112, 4120] \<and> sys p' = sys pool_k" by blast
  from t have 2: "\<exists>p1 p2. pool_ordered_deallocate pool_k 4104 = Some p1 \<and>
      free_list p1 [4096, 4104, 4112, 4120] \<and>
      allocations 2 p1 = Some ([4096, 4104], p2) \<and> sys p2 = sys pool_k"
    by (auto simp: i numeral_2_eq_2)
  from t c have 3: "\<exists>p'. cycle pool_k
      [Ordered_deallocate 4104, Ordered_allocate, Allocate, Deallocate 4096,
       Ordered_deallocate 4104] = Some p' \<and> sys p' = sys pool_k" by blast
  from r pool_k_free_list pool_k_spaced 1 2 3 show ?thesis by blast
qed

lemma pool_i_release: "returned (release_memory pool_i) = Some False"
  by (simp add: returned_def pool_i_def eval_defs)

lemma pool_i_purge: "returned (purge_memory pool_i) = Some True"
  by (simp add: returned_def pool_i_def eval_defs)

lemma pool_i_sizes: "start_size pool_i = 4" "max_size pool_i = 0" "next_size pool_i = 8"
  by (simp_all add: pool_i_def eval_defs)


section \<open>Blocks and their cells\<close>

lemma path_cong:
  "(\<And>a. a \<in> set as \<Longrightarrow> m' a = m a) \<Longrightarrow> path m' x as y \<longleftrightarrow> path m x as y"
  by (induction as arbitrary: x) (auto simp: nextof_def)

lemma pod_next_cong:
  "m' (ptr_next_ptr b) = m (ptr_next_ptr b) \<Longrightarrow> m' (ptr_next_size b) = m (ptr_next_size b) \<Longrightarrow>
   pod_next m' b = pod_next m b"
  by (simp add: pod_next_def next_ptr_def pod_next_size_def)

lemma block_seg_cong:
  assumes "\<And>b. b \<in> set bs \<Longrightarrow>
      m' (ptr_next_ptr b) = m (ptr_next_ptr b) \<and> m' (ptr_next_size b) = m (ptr_next_size b)"
  shows "block_seg m' l bs e \<longleftrightarrow> block_seg m l bs e"
  using assms
proof (induction bs arbitrary: l)
  case Nil
  then show ?case by simp
next
  case (Cons b bs)
  have "pod_next m' b = pod_next m b"
    using Cons.prems [of b] by (intro pod_next_cong) simp_all
  moreover have "block_seg m' (pod_next m b) bs e \<longleftrightarrow> block_seg m (pod_next m b) bs e"
    using Cons.prems by (intro Cons.IH) simp
  ultimately show ?case by simp
qed

lemma block_path_seg: "block_path m l bs \<longleftrightarrow> (\<exists>e. block_seg m l bs e \<and> \<not> valid e)"
  by (induction bs arbitrary: l) auto

lemma block_path_cong:
  assumes "\<And>b. b \<in> set bs \<Longrightarrow>
      m' (ptr_next_ptr b) = m (ptr_next_ptr b) \<and> m' (ptr_next_size b) = m (ptr_next_size b)"
  shows "block_path m' l bs \<longleftrightarrow> block_path m l bs"
  unfolding block_path_seg using block_seg_cong [OF assms] by simp

lemma block_seg_append:
  "block_seg m l (as @ bs) e \<longleftrightarrow> (\<exists>x. block_seg m l as x \<and> block_seg m x bs e)"
  by (induction as arbitrary: l) auto

lemma block_path_append:
  "block_path m l (as @ bs) \<longleftrightarrow> (\<exists>x. block_seg m l as x \<and> block_path m x bs)"
  unfolding block_path_seg block_seg_append by blast

lemma block_seg_snoc:
  "block_seg m l (as @ [b]) e \<longleftrightarrow> block_seg m l as b \<and> valid b \<and> pod_next m b = e"
  by (auto simp: block_seg_append)

lemma block_ok_geometry:
  assumes "block_ok ps b" and "0 < ps"
  shows "unat (element_size b) = chunk_count ps b * ps"
    and "pod_end b = ptr b + chunk_count ps b * ps"
    and "ptr_next_ptr b = ptr b + chunk_count ps b * ps"
    and "ptr_next_size b = ptr b + chunk_count ps b * ps + 8"
    and "ptr b \<noteq> 0"
proof -
  let ?n = "chunk_count ps b"
  from assms have szb: "unat (sz b) = ?n * ps + 16" and v: "valid b" by (simp_all add: block_ok_def)
  have "(16::size_type) \<le> sz b"
    using szb by (simp add: word_le_nat_alt)
  have e: "element_size b = sz b - 16"
    by (simp add: element_size_def sizeof_size_type_def min_alloc_size_def)
  have "unat (sz b - 16) = unat (sz b) - unat (16::size_type)"
    using \<open>16 \<le> sz b\<close> by (rule unat_sub)
  then show u: "unat (element_size b) = ?n * ps" using szb e by simp
  show ns: "ptr_next_size b = ptr b + ?n * ps + 8"
    using szb by (simp add: ptr_next_size_def sizeof_size_type_def)
  show np: "ptr_next_ptr b = ptr b + ?n * ps"
    using ns by (simp add: ptr_next_ptr_def min_alloc_size_def)
  then show "pod_end b = ptr b + ?n * ps" by (simp add: pod_end_def)
  show "ptr b \<noteq> 0" using v by (simp add: valid_def)
qed

lemma chunks_of_within:
  assumes "block_ok ps b" and "0 < ps" and "a \<in> set (chunks_of ps b)"
  shows "ptr b \<le> a" and "a < pod_end b" and "within b a" and "a \<noteq> 0"
    and "a \<noteq> ptr_next_ptr b" and "a \<noteq> ptr_next_size b"
proof -
  let ?n = "chunk_count ps b"
  from assms(3) obtain i where i: "i < ?n" and a: "a = ptr b + i * ps"
    by (auto simp: chunks_of_def set_chunk_seq)
  note g = block_ok_geometry [OF assms(1,2)]
  from i assms(2) have lt: "i * ps < ?n * ps" by simp
  show "ptr b \<le> a" by (simp add: a)
  show "a < pod_end b" using lt by (simp add: a g)
  have "i * ps < ?n * ps + 16" using lt by linarith
  then show "within b a" using assms(1) by (simp add: within_def a block_ok_def)
  show "a \<noteq> 0" using g(5) by (simp add: a)
  show "a \<noteq> ptr_next_ptr b" using lt by (simp add: a g)
  have "i * ps \<noteq> ?n * ps + 8" using lt by linarith
  then show "a \<noteq> ptr_next_size b" by (simp add: a g)
qed

lemma trailer_within:
  assumes "block_ok ps b" and "0 < ps"
  shows "within b (ptr_next_ptr b)" and "within b (ptr_next_size b)"
    and "ptr_next_ptr b \<noteq> ptr_next_size b"
    and "pod_end b \<le> ptr_next_ptr b"
  using block_ok_geometry [OF assms] assms(1)
  by (simp_all add: within_def block_ok_def)

lemma within_disjoint:
  assumes "block_before b c" and "within b a"
  shows "\<not> within c a" and "a < ptr c"
  using assms by (simp_all add: block_before_def within_def)

lemma pod_set_next_read:
  assumes "ptr_next_ptr b \<noteq> ptr_next_size b"
  shows "pod_next (pod_set_next m b x) b = x"
  using assms
  by (simp add: pod_next_def pod_set_next_def next_ptr_def pod_next_size_def total_size_def)

lemma pod_set_next_other:
  "a \<noteq> ptr_next_ptr b \<Longrightarrow> a \<noteq> ptr_next_size b \<Longrightarrow> pod_set_next m b x a = m a"
  by (simp add: pod_set_next_def)

section \<open>The sweep of release\_memory\<close>

lemma hd0_simps [simp]: "hd0 [] = 0" "hd0 (x # xs) = x"
  by (simp_all add: hd0_def)

lemma last0_simps [simp]: "last0 [] = 0" "last0 (xs @ [x]) = x"
  by (simp_all add: last0_def)

lemma path_hd0: "path m f zs 0 \<Longrightarrow> f = hd0 zs"
  by (cases zs) auto

lemma path_hd0_tl: "path m f (z # zs) 0 \<Longrightarrow> nextof m z = hd0 zs"
  by (cases zs) auto

lemma release_scan_result:
  assumes "path m f zs 0" and "0 < ps" and "i \<noteq> 0"
  shows "release_scan m i (i + j * ps) ps saved f =
           Some (if take j zs = chunk_seq i j ps then (True, hd0 (drop j zs))
                 else (False, saved))"
  using assms(1,3)
proof (induction j arbitrary: i f zs)
  case 0
  then show ?case by (subst release_scan.simps) (simp add: path_hd0)
next
  case (Suc j)
  define e where "e = i + Suc j * ps"
  have ne: "i \<noteq> e" using assms(2) by (simp add: e_def)
  have e: "e = (i + ps) + j * ps" by (simp add: e_def)
  show ?case
  proof (cases "i = f")
    case False
    have "take (Suc j) zs \<noteq> chunk_seq i (Suc j) ps"
    proof (cases zs)
      case Nil
      then show ?thesis by (simp add: chunk_seq_Suc)
    next
      case (Cons z zs')
      with Suc.prems False show ?thesis by (simp add: chunk_seq_Suc)
    qed
    moreover have "release_scan m i e ps saved f = Some (False, saved)"
      using ne False by (subst release_scan.simps) simp
    ultimately show ?thesis by (simp add: e_def)
  next
    case True
    with Suc.prems obtain zs' where zs: "zs = i # zs'" and tl: "path m (nextof m i) zs' 0"
      by (cases zs) auto
    have "release_scan m i e ps saved f =
        release_scan m (i + ps) e ps saved (nextof m f)"
      using ne True by (subst release_scan.simps) simp
    also have "\<dots> = release_scan m (i + ps) ((i + ps) + j * ps) ps saved (nextof m f)"
      by (simp only: e)
    also have "\<dots> = Some (if take j zs' = chunk_seq (i + ps) j ps then (True, hd0 (drop j zs'))
                 else (False, saved))"
      using tl True assms(2) by (intro Suc.IH) simp_all
    finally show ?thesis by (simp add: zs chunk_seq_Suc e_def)
  qed
qed

lemma release_skip_result:
  assumes "path m f (f # zs) 0"
  shows "release_skip m e f =
           Some (last (f # takeWhile (\<lambda>x. x < e) zs), hd0 (dropWhile (\<lambda>x. x < e) zs))"
  using assms
proof (induction zs arbitrary: f)
  case Nil
  then show ?case by (subst release_skip.simps) simp
next
  case (Cons z zs)
  from Cons.prems have nx: "nextof m f = z" and z: "z \<noteq> 0" and tl: "path m z (z # zs) 0"
    by simp_all
  show ?case
  proof (cases "z < e")
    case True
    have "release_skip m e f = release_skip m e z"
      using nx z True by (subst release_skip.simps) simp
    also have "\<dots> = Some (last (z # takeWhile (\<lambda>x. x < e) zs), hd0 (dropWhile (\<lambda>x. x < e) zs))"
      using tl by (rule Cons.IH)
    finally show ?thesis using True by simp
  next
    case False
    then have "release_skip m e f = Some (f, z)"
      using nx by (subst release_skip.simps) simp
    with False show ?thesis by simp
  qed
qed


lemma block_before_irrefl:
  assumes "block_ok ps b" shows "\<not> block_before b b"
  using assms by (simp add: block_before_def block_ok_def)

lemma sorted_blocks_distinct:
  assumes "list_all (block_ok ps) bs" and "sorted_wrt block_before bs"
  shows "distinct bs"
  using assms
  by (induction bs) (auto simp: list_all_iff dest: block_before_irrefl)

lemma sorted_blocks_cases:
  assumes "sorted_wrt block_before bs" and "b \<in> set bs" and "c \<in> set bs" and "b \<noteq> c"
  shows "block_before b c \<or> block_before c b"
  using assms
  by (induction bs) auto

lemma blocks_disjoint:
  assumes "sorted_wrt block_before bs" and "b \<in> set bs" and "c \<in> set bs" and "b \<noteq> c"
    and "within b a"
  shows "\<not> within c a"
  using sorted_blocks_cases [OF assms(1-4)] assms(5)
  by (auto simp: block_before_def within_def)

lemma chunk_not_trailer:
  assumes ok: "list_all (block_ok ps) bs" and so: "sorted_wrt block_before bs" and ps: "0 < ps"
    and b: "b \<in> set bs" and c: "c \<in> set bs" and x: "x \<in> set (chunks_of ps c)"
  shows "x \<noteq> ptr_next_ptr b" and "x \<noteq> ptr_next_size b"
proof -
  from ok b c have okb: "block_ok ps b" and okc: "block_ok ps c" by (auto simp: list_all_iff)
  have "x \<noteq> ptr_next_ptr b \<and> x \<noteq> ptr_next_size b"
  proof (cases "b = c")
    case True
    with chunks_of_within(5,6) [OF okc ps x] show ?thesis by simp
  next
    case False
    have wx: "within c x" using chunks_of_within(3) [OF okc ps x] .
    have "\<not> within b x" using blocks_disjoint [OF so c b _ wx] False by blast
    with trailer_within(1,2) [OF okb ps] show ?thesis by metis
  qed
  then show "x \<noteq> ptr_next_ptr b" and "x \<noteq> ptr_next_size b" by simp_all
qed

lemma trailers_distinct:
  assumes ok: "list_all (block_ok ps) bs" and so: "sorted_wrt block_before bs" and ps: "0 < ps"
    and b: "b \<in> set bs" and c: "c \<in> set bs" and ne: "b \<noteq> c"
  shows "ptr_next_ptr c \<noteq> ptr_next_ptr b" and "ptr_next_ptr c \<noteq> ptr_next_size b"
    and "ptr_next_size c \<noteq> ptr_next_ptr b" and "ptr_next_size c \<noteq> ptr_next_size b"
proof -
  from ok b c have okb: "block_ok ps b" and okc: "block_ok ps c" by (auto simp: list_all_iff)
  note tb = trailer_within(1,2) [OF okb ps] and tc = trailer_within(1,2) [OF okc ps]
  have 1: "\<not> within b (ptr_next_ptr c)" using blocks_disjoint [OF so c b _ tc(1)] ne by blast
  have 2: "\<not> within b (ptr_next_size c)" using blocks_disjoint [OF so c b _ tc(2)] ne by blast
  from 1 tb show "ptr_next_ptr c \<noteq> ptr_next_ptr b" and "ptr_next_ptr c \<noteq> ptr_next_size b"
    by metis+
  from 2 tb show "ptr_next_size c \<noteq> ptr_next_ptr b" and "ptr_next_size c \<noteq> ptr_next_size b"
    by metis+
qed

text \<open>The free chunks of the first block are the leading ones.\<close>

lemma free_chunk_bounds:
  assumes ok: "list_all (block_ok ps) (b # rest)" and so: "sorted_wrt block_before (b # rest)"
    and ps: "0 < ps" and f: "in_blocks ps (b # rest) f"
  shows "ptr b \<le> f"
    and "f < pod_end b \<longleftrightarrow> f \<in> set (chunks_of ps b)"
    and "\<not> f < pod_end b \<longleftrightarrow> in_blocks ps rest f"
proof -
  from ok have okb: "block_ok ps b" by simp
  from f obtain c where c: "c \<in> set (b # rest)" and fc: "f \<in> set (chunks_of ps c)"
    by (auto simp: in_blocks_def list_ex_iff)
  from ok c have okc: "block_ok ps c" by (auto simp: list_all_iff)
  have in_rest: "ptr b \<le> f \<and> pod_end b \<le> f" if c': "c' \<in> set rest"
    and fc': "f \<in> set (chunks_of ps c')" for c'
  proof -
    from ok c' have okc': "block_ok ps c'" by (auto simp: list_all_iff)
    from so c' have "block_before b c'" by simp
    then have "ptr b + unat (sz b) \<le> ptr c'" by (simp add: block_before_def)
    moreover have "ptr c' \<le> f" using chunks_of_within(1) [OF okc' ps fc'] .
    moreover have "pod_end b \<le> ptr b + unat (sz b)"
      using block_ok_geometry(2) [OF okb ps] okb by (simp add: block_ok_def)
    ultimately show ?thesis by simp
  qed
  show "ptr b \<le> f"
  proof (cases "c = b")
    case True
    with chunks_of_within(1) [OF okc ps fc] show ?thesis by simp
  next
    case False
    with c in_rest fc show ?thesis by simp
  qed
  show "f < pod_end b \<longleftrightarrow> f \<in> set (chunks_of ps b)"
  proof
    assume lt: "f < pod_end b"
    show "f \<in> set (chunks_of ps b)"
    proof (cases "c = b")
      case True
      with fc show ?thesis by simp
    next
      case False
      with c in_rest fc lt show ?thesis by fastforce
    qed
  next
    assume "f \<in> set (chunks_of ps b)"
    then show "f < pod_end b" using chunks_of_within(2) [OF okb ps] by simp
  qed
  show "\<not> f < pod_end b \<longleftrightarrow> in_blocks ps rest f"
  proof
    assume ge: "\<not> f < pod_end b"
    have "c \<noteq> b" using ge chunks_of_within(2) [OF okc ps fc] by auto
    with c fc show "in_blocks ps rest f" by (auto simp: in_blocks_def list_ex_iff)
  next
    assume "in_blocks ps rest f"
    then obtain c' where "c' \<in> set rest" "f \<in> set (chunks_of ps c')"
      by (auto simp: in_blocks_def list_ex_iff)
    from in_rest [OF this] show "\<not> f < pod_end b" by simp
  qed
qed


lemma in_blocks_iff: "in_blocks ps bs f \<longleftrightarrow> (\<exists>b\<in>set bs. f \<in> set (chunks_of ps b))"
  by (simp add: in_blocks_def list_ex_iff)

lemma in_blocks_append: "in_blocks ps (as @ bs) f \<longleftrightarrow> in_blocks ps as f \<or> in_blocks ps bs f"
  by (auto simp: in_blocks_iff)

lemma sorted_dropWhile_ge:
  assumes "sorted_wrt (<) (xs::nat list)" and "x \<in> set (dropWhile (\<lambda>y. y < e) xs)"
  shows "\<not> x < e"
proof -
  let ?dw = "dropWhile (\<lambda>y. y < e) xs"
  from assms(2) obtain d ds where dw: "?dw = d # ds" by (cases ?dw) auto
  then have "\<not> d < e" by (metis hd_dropWhile list.sel(1) list.distinct(1))
  moreover have "sorted_wrt (<) ?dw" using assms(1) by (rule sorted_wrt_dropWhile)
  then have "d \<le> x" using assms(2) dw by auto
  ultimately show ?thesis by simp
qed

lemma sweep_keep_step:
  assumes st: "sweep_state ps p kd (b # rest) fd fr blk prev free_p prev_free_p"
    and ps: "0 < ps"
  defines "tw \<equiv> takeWhile (\<lambda>x. x < pod_end b) fr"
  defines "dw \<equiv> dropWhile (\<lambda>x. x < pod_end b) fr"
  shows "sweep_state ps p (kd @ [b]) rest (fd @ tw) dw (pod_next (mem p) b) b
           (hd0 dw) (last0 (fd @ tw))"
proof -
  let ?m = "mem p"
  from st have seg: "block_seg ?m (list p) kd blk" and bp: "block_path ?m blk (b # rest)"
    and p1: "path ?m (first p) fd free_p" and p2: "path ?m free_p fr 0"
    and ok: "list_all (block_ok ps) (kd @ b # rest)"
    and so: "sorted_wrt block_before (kd @ b # rest)" and sf: "sorted_wrt (<) fr"
    and c1: "list_all (in_blocks ps kd) fd" and c2: "list_all (in_blocks ps (b # rest)) fr"
    unfolding sweep_state_def by blast+
  from bp have blk: "blk = b" and v: "valid b" and bp': "block_path ?m (pod_next ?m b) rest"
    by simp_all
  have fr: "fr = tw @ dw" by (simp add: tw_def dw_def)
  from p2 fr obtain y where q1: "path ?m free_p tw y" and q2: "path ?m y dw 0"
    by (metis path_append)
  have y: "y = hd0 dw" using q2 by (rule path_hd0)
  have okb: "list_all (block_ok ps) (b # rest)" and sob: "sorted_wrt block_before (b # rest)"
    using ok so by (simp_all add: sorted_wrt_append)
  have tw_in: "list_all (in_blocks ps (kd @ [b])) tw"
  proof -
    have "in_blocks ps [b] f" if f: "f \<in> set tw" for f
    proof -
      from f have "f \<in> set fr" "f < pod_end b"
        by (auto simp: tw_def dest: set_takeWhileD)
      with c2 have "in_blocks ps (b # rest) f" by (auto simp: list_all_iff)
      from free_chunk_bounds(2) [OF okb sob ps this] \<open>f < pod_end b\<close>
      show ?thesis by (simp add: in_blocks_iff)
    qed
    then show ?thesis by (auto simp: list_all_iff in_blocks_append)
  qed
  have dw_in: "list_all (in_blocks ps rest) dw"
  proof -
    have "in_blocks ps rest f" if f: "f \<in> set dw" for f
    proof -
      from f have "f \<in> set fr" by (auto simp: dw_def dest: set_dropWhileD)
      with c2 have "in_blocks ps (b # rest) f" by (auto simp: list_all_iff)
      moreover have "\<not> f < pod_end b"
        by (rule sorted_dropWhile_ge [OF sf f [unfolded dw_def]])
      ultimately show ?thesis using free_chunk_bounds(3) [OF okb sob ps] by blast
    qed
    then show ?thesis by (auto simp: list_all_iff)
  qed
  from seg have seg': "block_seg ?m (list p) kd b" unfolding blk .
  have "block_seg ?m (list p) (kd @ [b]) (pod_next ?m b)"
    using seg' v by (simp add: block_seg_snoc)
  moreover have "path ?m (first p) (fd @ tw) (hd0 dw)"
    using path_appendI [OF p1 q1] y by simp
  moreover have "path ?m (hd0 dw) dw 0" using q2 y by simp
  moreover have "sorted_wrt (<) dw" using sf unfolding dw_def by (rule sorted_wrt_dropWhile)
  moreover have "list_all (in_blocks ps (kd @ [b])) (fd @ tw)"
    using c1 tw_in by (auto simp: list_all_iff in_blocks_append)
  ultimately show ?thesis
    using bp' ok so dw_in by (simp add: sweep_state_def)
qed

lemma sweep_release_step:
  assumes st: "sweep_state ps p kd (b # rest) fd fr blk prev free_p prev_free_p"
    and ps: "0 < ps"
    and tk: "take (chunk_count ps b) fr = chunks_of ps b"
  defines "nxt \<equiv> pod_next (mem p) b"
  defines "f1 \<equiv> hd0 (drop (chunk_count ps b) fr)"
  defines "p1 \<equiv> (if valid prev then p\<lparr>mem := pod_set_next (mem p) prev nxt\<rparr>
                  else p\<lparr>list := nxt\<rparr>)"
  defines "p2 \<equiv> (if prev_free_p \<noteq> 0 then p1\<lparr>mem := (mem p1)(prev_free_p := f1)\<rparr>
                  else p1\<lparr>first := f1\<rparr>)"
  shows "sweep_state ps (sys_deallocate p2 (ptr b)) kd rest fd (drop (chunk_count ps b) fr)
           nxt prev f1 prev_free_p"
proof -
  let ?m = "mem p" and ?m3 = "mem p2" and ?n = "chunk_count ps b"
  let ?all = "kd @ b # rest"
  from st have seg: "block_seg ?m (list p) kd blk" and bp: "block_path ?m blk (b # rest)"
    and pv: "if kd = [] then \<not> valid prev else prev = last kd"
    and p1: "path ?m (first p) fd free_p" and p2: "path ?m free_p fr 0"
    and pf: "prev_free_p = last0 fd"
    and ok: "list_all (block_ok ps) ?all"
    and so: "sorted_wrt block_before ?all" and sf: "sorted_wrt (<) fr"
    and c1: "list_all (in_blocks ps kd) fd" and c2: "list_all (in_blocks ps (b # rest)) fr"
    unfolding sweep_state_def by blast+
  from bp have blk: "blk = b" and v: "valid b" and bp': "block_path ?m nxt rest"
    by (simp_all add: nxt_def)
  have dall: "distinct ?all" using ok so by (rule sorted_blocks_distinct)
  have whole: "path ?m (first p) (fd @ fr) 0" using p1 p2 by (rule path_appendI)
  then have dfree: "distinct (fd @ fr)" by (rule path_distinct)
  from whole have nonnull: "0 \<notin> set (fd @ fr)" by (rule path_nonnull)
  have chunk: "\<exists>c\<in>set ?all. f \<in> set (chunks_of ps c)" if "f \<in> set (fd @ fr)" for f
    using that c1 c2 by (auto simp: list_all_iff in_blocks_iff)
  have not_trailer: "f \<noteq> ptr_next_ptr c \<and> f \<noteq> ptr_next_size c"
    if "f \<in> set (fd @ fr)" and "c \<in> set ?all" for f c
  proof -
    from chunk [OF that(1)] obtain c' where "c' \<in> set ?all" "f \<in> set (chunks_of ps c')" ..
    from chunk_not_trailer [OF ok so ps that(2) this] show ?thesis by simp
  qed
  have vprev: "valid prev \<longleftrightarrow> kd \<noteq> []"
  proof (cases "kd = []")
    case True with pv show ?thesis by simp
  next
    case False
    with pv have "prev \<in> set kd" by simp
    with ok have "block_ok ps prev" by (auto simp: list_all_iff)
    with False show ?thesis by (simp add: block_ok_def)
  qed
  have pfp: "prev_free_p \<noteq> 0 \<longleftrightarrow> fd \<noteq> []"
  proof (cases "fd = []")
    case True with pf show ?thesis by (simp add: last0_def)
  next
    case False
    then have "last fd \<in> set fd" by simp
    moreover from nonnull have "0 \<notin> set fd" by simp
    ultimately have "last fd \<noteq> 0" by metis
    with False pf show ?thesis by (simp add: last0_def)
  qed
  have prev_in: "prev \<in> set ?all" if "kd \<noteq> []" using that pv by simp
  have frame: "?m3 a = ?m a"
    if "kd \<noteq> [] \<Longrightarrow> a \<noteq> ptr_next_ptr prev \<and> a \<noteq> ptr_next_size prev"
      and "fd \<noteq> [] \<Longrightarrow> a \<noteq> last fd" for a
    using that vprev pfp pf
    by (auto simp: p2_def p1_def pod_set_next_other last0_def)
  have free_frame: "?m3 a = ?m a" if a: "a \<in> set (fd @ fr)" and l: "fd \<noteq> [] \<Longrightarrow> a \<noteq> last fd" for a
  proof (rule frame)
    assume "kd \<noteq> []"
    from not_trailer [OF a prev_in [OF this]]
    show "a \<noteq> ptr_next_ptr prev \<and> a \<noteq> ptr_next_size prev" .
  next
    assume "fd \<noteq> []" then show "a \<noteq> last fd" by (rule l)
  qed
  have block_frame: "?m3 (ptr_next_ptr c) = ?m (ptr_next_ptr c) \<and>
      ?m3 (ptr_next_size c) = ?m (ptr_next_size c)"
    if c: "c \<in> set ?all" and ne: "kd \<noteq> [] \<Longrightarrow> c \<noteq> prev" for c
  proof -
    have 1: "ptr_next_ptr c \<noteq> ptr_next_ptr prev \<and> ptr_next_ptr c \<noteq> ptr_next_size prev \<and>
        ptr_next_size c \<noteq> ptr_next_ptr prev \<and> ptr_next_size c \<noteq> ptr_next_size prev"
      if "kd \<noteq> []"
      using trailers_distinct [OF ok so ps prev_in [OF that] c] ne [OF that] by simp
    have 2: "ptr_next_ptr c \<noteq> last fd \<and> ptr_next_size c \<noteq> last fd" if "fd \<noteq> []"
    proof -
      from that have "last fd \<in> set (fd @ fr)" by simp
      from not_trailer [OF this c] show ?thesis by auto
    qed
    show ?thesis using 1 2 by (auto intro!: frame)
  qed
  have fr: "fr = take ?n fr @ drop ?n fr" by simp
  from p2 obtain y where q2: "path ?m y (drop ?n fr) 0"
    by (metis path_append append_take_drop_id)
  have y: "y = f1" unfolding f1_def using q2 by (rule path_hd0)
  have g1: "block_seg ?m3 (list p2) kd nxt"
  proof (cases "kd = []")
    case True
    with vprev pfp show ?thesis by (simp add: p2_def p1_def)
  next
    case False
    then obtain kd' where kd: "kd = kd' @ [prev]" using pv
      by (metis append_butlast_last_id)
    from seg have s1: "block_seg ?m (list p) kd' prev" unfolding kd blk block_seg_snoc by simp
    have lst: "list p2 = list p" using False vprev by (simp add: p2_def p1_def)
    have "prev \<notin> set kd'" using dall unfolding kd by simp
    then have "block_seg ?m3 (list p) kd' prev \<longleftrightarrow> block_seg ?m (list p) kd' prev"
      by (intro block_seg_cong block_frame) (auto simp: kd)
    with s1 have s2: "block_seg ?m3 (list p) kd' prev" by simp
    have okp: "block_ok ps prev" using ok by (simp add: kd)
    have tr: "ptr_next_ptr prev \<noteq> ptr_next_size prev" using okp ps by (rule trailer_within(3))
    have lp: "ptr_next_ptr prev \<noteq> last fd \<and> ptr_next_size prev \<noteq> last fd" if "fd \<noteq> []"
    proof -
      from that have "last fd \<in> set (fd @ fr)" by simp
      from not_trailer [OF this prev_in [OF False]] show ?thesis by auto
    qed
    have "pod_next ?m3 prev = pod_next (pod_set_next ?m prev nxt) prev"
      using vprev False pfp pf lp
      by (intro pod_next_cong) (auto simp: p2_def p1_def last0_def)
    also have "\<dots> = nxt" using tr by (rule pod_set_next_read)
    finally have "pod_next ?m3 prev = nxt" .
    moreover have "valid prev" using vprev False by simp
    ultimately show ?thesis using s2 unfolding lst kd block_seg_snoc by simp
  qed
  have "b \<notin> set kd" "b \<notin> set rest" using dall by auto
  have g2: "block_path ?m3 nxt rest"
  proof -
    have "block_path ?m3 nxt rest \<longleftrightarrow> block_path ?m nxt rest"
    proof (intro block_path_cong block_frame)
      fix c assume "c \<in> set rest" then show "c \<in> set ?all" by simp
    next
      fix c assume c: "c \<in> set rest" and "kd \<noteq> []"
      then have "prev \<in> set kd" using pv by simp
      with dall c show "c \<noteq> prev" by auto
    qed
    with bp' show ?thesis by simp
  qed
  have g3: "path ?m3 (first p2) fd f1"
  proof (cases "fd = []")
    case True
    with pfp show ?thesis by (simp add: p2_def p1_def)
  next
    case False
    then obtain fd' l where fd: "fd = fd' @ [l]" by (metis append_butlast_last_id)
    from p1 obtain z where z1: "path ?m (first p) fd' z" and z2: "path ?m z [l] free_p"
      unfolding fd path_append by blast
    from z2 have z: "z = l" and l0: "l \<noteq> 0" by simp_all
    have fst: "first p2 = first p" using False pfp by (simp add: p2_def p1_def)
    have "path ?m3 (first p) fd' l \<longleftrightarrow> path ?m (first p) fd' l"
    proof (intro path_cong free_frame)
      fix a assume "a \<in> set fd'" then show "a \<in> set (fd @ fr)" by (simp add: fd)
    next
      fix a assume "a \<in> set fd'" then show "a \<noteq> last fd" using dfree by (auto simp: fd)
    qed
    with z1 z have a1: "path ?m3 (first p) fd' l" by simp
    have "?m3 l = f1" using pfp False pf by (simp add: p2_def last0_def fd)
    with l0 have "path ?m3 l [l] f1" by (simp add: nextof_def)
    from path_appendI [OF a1 this] show ?thesis by (simp add: fst fd)
  qed
  have g4: "path ?m3 f1 (drop ?n fr) 0"
  proof -
    have "path ?m3 f1 (drop ?n fr) 0 \<longleftrightarrow> path ?m f1 (drop ?n fr) 0"
    proof (intro path_cong free_frame)
      fix a assume "a \<in> set (drop ?n fr)" then show "a \<in> set (fd @ fr)"
        by (auto dest: in_set_dropD)
    next
      fix a assume "a \<in> set (drop ?n fr)" and "fd \<noteq> []"
      then have "a \<in> set fr" "last fd \<in> set fd" by (auto dest: in_set_dropD)
      then show "a \<noteq> last fd" using dfree by auto
    qed
    with q2 y show ?thesis by simp
  qed
  have g9: "list_all (in_blocks ps rest) (drop ?n fr)"
  proof -
    have "in_blocks ps rest a" if a: "a \<in> set (drop ?n fr)" for a
    proof -
      from a have afr: "a \<in> set fr" by (auto dest: in_set_dropD)
      have "distinct fr" using dfree by simp
      then have "set (take ?n fr) \<inter> set (drop ?n fr) = {}"
        by (rule set_take_disj_set_drop_if_distinct) simp
      with a have "a \<notin> set (take ?n fr)" by blast
      then have "a \<notin> set (chunks_of ps b)" by (simp add: tk)
      moreover from afr c2 have "in_blocks ps (b # rest) a" by (auto simp: list_all_iff)
      ultimately show ?thesis by (auto simp: in_blocks_iff)
    qed
    then show ?thesis by (auto simp: list_all_iff)
  qed
  have g7: "sorted_wrt (<) (drop ?n fr)" using sf by (rule sorted_wrt_drop)
  have g6: "list_all (block_ok ps) (kd @ rest)" "sorted_wrt block_before (kd @ rest)"
    using ok so by (auto simp: sorted_wrt_append)
  show ?thesis
    unfolding sweep_state_def sys_deallocate_fields
    using g1 g2 pv g3 g4 pf g6 g7 c1 g9 by blast
qed


lemma release_loop_sweep:
  assumes ps: "0 < unat psw"
  shows "sweep_state (unat psw) p kd rest fd fr blk prev free_p prev_free_p \<Longrightarrow>
    \<exists>p'. release_loop p psw blk prev free_p prev_free_p ret =
            Some (ret \<or> fst (sweep (unat psw) rest fr) \<noteq> [], p') \<and>
      block_path (mem p') (list p') (kd @ fst (snd (sweep (unat psw) rest fr))) \<and>
      free_list p' (fd @ snd (snd (sweep (unat psw) rest fr))) \<and>
      released (sys p') = released (sys p) @ map ptr (fst (sweep (unat psw) rest fr)) \<and>
      requests (sys p') = requests (sys p) \<and> answers (sys p') = answers (sys p) \<and>
      same_parameters p p' \<and> next_size p' = next_size p"
proof (induction rest arbitrary: p kd fd fr blk prev free_p prev_free_p ret)
  case Nil
  let ?m = "mem p"
  from Nil have seg: "block_seg ?m (list p) kd blk" and bp: "block_path ?m blk []"
    and p1: "path ?m (first p) fd free_p" and p2: "path ?m free_p fr 0"
    unfolding sweep_state_def by blast+
  from bp have nv: "\<not> valid blk" by simp
  then have "release_loop p psw blk prev free_p prev_free_p ret = Some (ret, p)"
    by (subst release_loop.simps) simp
  moreover have "block_path ?m (list p) kd" unfolding block_path_seg using seg nv by blast
  moreover have "free_list p (fd @ fr)" unfolding free_list_def using p1 p2 by (rule path_appendI)
  ultimately show ?case by (simp add: same_parameters_def)
next
  case (Cons b rest)
  let ?ps = "unat psw"
  let ?m = "mem p" and ?n = "chunk_count ?ps b"
  note st = Cons.prems
  from st have seg: "block_seg ?m (list p) kd blk" and bp: "block_path ?m blk (b # rest)"
    and p1: "path ?m (first p) fd free_p" and p2: "path ?m free_p fr 0"
    and pf: "prev_free_p = last0 fd"
    and ok: "list_all (block_ok ?ps) (kd @ b # rest)"
    and so: "sorted_wrt block_before (kd @ b # rest)"
    and c2: "list_all (in_blocks ?ps (b # rest)) fr"
    unfolding sweep_state_def by blast+
  from bp have blk: "blk = b" and v: "valid b" by simp_all
  have okb: "block_ok ?ps b" using ok by simp
  have okr: "list_all (block_ok ?ps) (b # rest)" and sor: "sorted_wrt block_before (b # rest)"
    using ok so by (simp_all add: sorted_wrt_append)
  note geo = block_ok_geometry [OF okb ps]
  show ?case
  proof (cases "fr = []")
    case True
    with p2 have f0: "free_p = 0" by simp
    have "release_loop p psw blk prev free_p prev_free_p ret = Some (ret, p)"
      by (subst release_loop.simps) (simp add: f0)
    moreover have "block_path ?m (list p) (kd @ b # rest)"
      unfolding block_path_append using seg bp by blast
    moreover have "free_list p fd" unfolding free_list_def using p1 f0 by simp
    ultimately show ?thesis using True by (simp add: same_parameters_def)
  next
    case False
    then obtain f fr' where fr: "fr = f # fr'" by (cases fr) auto
    from p2 have ff: "free_p = f" and f0: "f \<noteq> 0" by (simp_all add: fr)
    have fin: "in_blocks ?ps (b # rest) f" using c2 by (simp add: fr)
    note fb = free_chunk_bounds [OF okr sor ps fin]
    have scan: "release_scan ?m (ptr b) (pod_end b) ?ps free_p free_p =
        Some (if take ?n fr = chunks_of ?ps b then (True, hd0 (drop ?n fr)) else (False, free_p))"
      unfolding geo(2) chunks_of_def
      by (rule release_scan_result [OF p2 ps geo(5)])
    show ?thesis
    proof (cases "take ?n fr = chunks_of ?ps b")
      case True
      define nxt where "nxt = pod_next ?m b"
      define f1 where "f1 = hd0 (drop ?n fr)"
      define q1 where "q1 = (if valid prev then p\<lparr>mem := pod_set_next ?m prev nxt\<rparr>
                  else p\<lparr>list := nxt\<rparr>)"
      define q2 where "q2 = (if prev_free_p \<noteq> 0 then q1\<lparr>mem := (mem q1)(prev_free_p := f1)\<rparr>
                  else q1\<lparr>first := f1\<rparr>)"
      define q3 where "q3 = sys_deallocate q2 (ptr b)"
      have st': "sweep_state ?ps q3 kd rest fd (drop ?n fr) nxt prev f1 prev_free_p"
        unfolding q3_def q2_def q1_def f1_def nxt_def
        by (rule sweep_release_step [OF st ps True])
      obtain r k g where sw: "sweep ?ps rest (drop ?n fr) = (r, k, g)" by (cases "sweep ?ps rest (drop ?n fr)")
      from Cons.IH [OF st', of True] sw obtain p' where
        run: "release_loop q3 psw nxt prev f1 prev_free_p True = Some (True, p')"
        and r1: "block_path (mem p') (list p') (kd @ k)"
        and r2: "free_list p' (fd @ g)"
        and r3: "released (sys p') = released (sys q3) @ map ptr r"
        and r4: "requests (sys p') = requests (sys q3)" "answers (sys p') = answers (sys q3)"
        and r5: "same_parameters q3 p'" "next_size p' = next_size q3"
        by auto
      have sw': "sweep ?ps (b # rest) fr = (b # r, k, g)" using False True sw by simp
      have "release_loop p psw blk prev free_p prev_free_p ret =
          release_loop q3 psw nxt prev f1 prev_free_p True"
        apply (subst release_loop.simps)
        apply (simp only: blk scan True)
        using v f0 ff
        apply (simp add: Let_def nxt_def [symmetric] f1_def [symmetric] q3_def q2_def q1_def)
        done
      with run have "release_loop p psw blk prev free_p prev_free_p ret = Some (True, p')"
        by simp
      moreover have "released (sys q3) = released (sys p) @ [ptr b]"
        "requests (sys q3) = requests (sys p)" "answers (sys q3) = answers (sys p)"
        "next_size q3 = next_size p" "same_parameters p q3"
        by (simp_all add: q3_def q2_def q1_def sys_deallocate_def same_parameters_def)
      ultimately show ?thesis using r1 r2 r3 r4 r5 sw'
        by (simp add: same_parameters_def)
    next
      case nf: False
      let ?e = "pod_end b"
      define tw where "tw = takeWhile (\<lambda>x. x < ?e) fr"
      define dw where "dw = dropWhile (\<lambda>x. x < ?e) fr"
      define nxt where "nxt = pod_next ?m b"
      have st': "sweep_state ?ps p (kd @ [b]) rest (fd @ tw) dw nxt b (hd0 dw) (last0 (fd @ tw))"
        unfolding tw_def dw_def nxt_def by (rule sweep_keep_step [OF st ps])
      obtain r k g where sw: "sweep ?ps rest dw = (r, k, g)" by (cases "sweep ?ps rest dw")
      from Cons.IH [OF st', of ret] sw obtain p' where
        run: "release_loop p psw nxt b (hd0 dw) (last0 (fd @ tw)) ret = Some (ret \<or> r \<noteq> [], p')"
        and r1: "block_path (mem p') (list p') ((kd @ [b]) @ k)"
        and r2: "free_list p' ((fd @ tw) @ g)"
        and r3: "released (sys p') = released (sys p) @ map ptr r"
        and r4: "requests (sys p') = requests (sys p)" "answers (sys p') = answers (sys p)"
        and r5: "same_parameters p p'" "next_size p' = next_size p"
        by auto
      have sw': "sweep ?ps (b # rest) fr = (r, b # k, tw @ g)"
        using False nf sw by (simp add: tw_def dw_def)
      have rng: "is_from_range free_p (ptr b) (element_size b) \<longleftrightarrow> f < ?e"
        using fb(1) by (simp add: is_from_range_def geo ff)
      have skip: "(if is_from_range free_p (ptr b) (element_size b)
             then release_skip ?m ?e free_p else Some (prev_free_p, free_p)) =
           Some (last0 (fd @ tw), hd0 dw)"
      proof (cases "f < ?e")
        case True
        have "path ?m f (f # fr') 0" using p2 by (simp add: fr ff)
        from release_skip_result [OF this, of ?e] True rng
        show ?thesis by (simp add: tw_def dw_def fr ff last0_def)
      next
        case False
        with rng show ?thesis by (simp add: tw_def dw_def fr ff pf)
      qed
      have "release_loop p psw blk prev free_p prev_free_p ret =
          release_loop p psw nxt b (hd0 dw) (last0 (fd @ tw)) ret"
        apply (subst release_loop.simps)
        apply (simp only: blk scan nf if_False)
        using v f0 ff skip
        apply (auto simp add: Let_def nxt_def [symmetric] split: if_splits)
        done
      with run have "release_loop p psw blk prev free_p prev_free_p ret =
          Some (ret \<or> r \<noteq> [], p')" by simp
      then show ?thesis using r1 r2 r3 r4 r5 sw' by simp
    qed
  qed
qed

section \<open>The sweep on the lists\<close>

lemma chunks_disjoint:
  assumes ok: "list_all (block_ok ps) bs" and so: "sorted_wrt block_before bs" and ps: "0 < ps"
    and b: "b \<in> set bs" and c: "c \<in> set bs" and ne: "b \<noteq> c"
    and a: "a \<in> set (chunks_of ps b)"
  shows "a \<notin> set (chunks_of ps c)"
proof
  assume a': "a \<in> set (chunks_of ps c)"
  from ok b c have "block_ok ps b" "block_ok ps c" by (auto simp: list_all_iff)
  then have "within b a" "within c a"
    using chunks_of_within(3) ps a a' by blast+
  with blocks_disjoint [OF so b c ne] show False by blast
qed

lemma all_free_rest:
  assumes ok: "list_all (block_ok ps) (b # rest)" and so: "sorted_wrt block_before (b # rest)"
    and ps: "0 < ps" and xs: "set xs \<subseteq> set (chunks_of ps b)" and c: "c \<in> set rest"
  shows "all_free ps (xs @ ys) c \<longleftrightarrow> all_free ps ys c"
proof -
  have d: "distinct (b # rest)" using ok so by (rule sorted_blocks_distinct)
  with c have ne: "b \<noteq> c" by auto
  have "a \<notin> set xs" if "a \<in> set (chunks_of ps c)" for a
  proof
    assume "a \<in> set xs"
    with xs have "a \<in> set (chunks_of ps b)" by blast
    from chunks_disjoint [OF ok so ps _ _ ne this] c that show False by simp
  qed
  then show ?thesis by (auto simp: all_free_def)
qed

lemma chunks_of_nonempty:
  assumes "block_ok ps b" shows "chunks_of ps b \<noteq> []"
proof -
  from assms have "0 < length (chunks_of ps b)" by (simp add: block_ok_def chunks_of_def)
  then show ?thesis by simp
qed

lemma strict_sorted_set_eq:
  assumes "sorted_wrt (<) (xs::nat list)" and "sorted_wrt (<) ys" and "set xs = set ys"
  shows "xs = ys"
  using assms by (metis strict_sorted_equal)

lemma sorted_takeWhile_filter:
  assumes "sorted_wrt (<) (xs::nat list)"
  shows "set (takeWhile (\<lambda>x. x < e) xs) = {x \<in> set xs. x < e}"
  using assms
proof (induction xs)
  case Nil then show ?case by simp
next
  case (Cons a xs)
  then show ?case by (auto dest: less_trans)
qed

lemma all_free_take:
  assumes ok: "list_all (block_ok ps) (b # rest)" and so: "sorted_wrt block_before (b # rest)"
    and ps: "0 < ps" and sf: "sorted_wrt (<) fr" and c2: "list_all (in_blocks ps (b # rest)) fr"
  shows "all_free ps fr b \<longleftrightarrow> take (chunk_count ps b) fr = chunks_of ps b"
proof
  assume "take (chunk_count ps b) fr = chunks_of ps b"
  then have "set (chunks_of ps b) = set (take (chunk_count ps b) fr)" by simp
  then show "all_free ps fr b" unfolding all_free_def by (metis set_take_subset)
next
  assume af: "all_free ps fr b"
  let ?tw = "takeWhile (\<lambda>x. x < pod_end b) fr"
  have okb: "block_ok ps b" using ok by simp
  have "set ?tw = {x \<in> set fr. x < pod_end b}" using sf by (rule sorted_takeWhile_filter)
  also have "\<dots> = set (chunks_of ps b)"
  proof (intro set_eqI iffI)
    fix x assume "x \<in> {x \<in> set fr. x < pod_end b}"
    then have x: "x \<in> set fr" "x < pod_end b" by simp_all
    with c2 have "in_blocks ps (b # rest) x" by (auto simp: list_all_iff)
    from free_chunk_bounds(2) [OF ok so ps this] x(2) show "x \<in> set (chunks_of ps b)" by simp
  next
    fix x assume x: "x \<in> set (chunks_of ps b)"
    with af have "x \<in> set fr" by (auto simp: all_free_def)
    moreover have "x < pod_end b" using okb ps x by (rule chunks_of_within(2))
    ultimately show "x \<in> {x \<in> set fr. x < pod_end b}" by simp
  qed
  finally have se: "set ?tw = set (chunks_of ps b)" .
  have s1: "sorted_wrt (<) ?tw" using sf by (rule sorted_wrt_takeWhile)
  have s2: "sorted_wrt (<) (chunks_of ps b)"
    unfolding chunks_of_def using ps by (rule sorted_chunk_seq)
  have tw: "?tw = chunks_of ps b" using s1 s2 se by (rule strict_sorted_set_eq)
  have "?tw = take (length ?tw) fr" by (rule takeWhile_eq_take)
  then show "take (chunk_count ps b) fr = chunks_of ps b"
    unfolding tw by (simp add: chunks_of_def)
qed


lemma kept_free_rest:
  assumes ok: "list_all (block_ok ps) (b # rest)" and so: "sorted_wrt block_before (b # rest)"
    and ps: "0 < ps" and xs: "set xs \<subseteq> set (chunks_of ps b)"
  shows "filter (\<lambda>f. list_all (\<lambda>c. all_free ps (xs @ ys) c \<longrightarrow> f \<notin> set (chunks_of ps c)) rest) ys
         = kept_free ps rest ys"
  unfolding kept_free_def
  by (rule filter_cong [OF refl]) (simp add: list_all_iff all_free_rest [OF ok so ps xs])

lemma filter_all_free_rest:
  assumes ok: "list_all (block_ok ps) (b # rest)" and so: "sorted_wrt block_before (b # rest)"
    and ps: "0 < ps" and xs: "set xs \<subseteq> set (chunks_of ps b)"
  shows "filter (all_free ps (xs @ ys)) rest = filter (all_free ps ys) rest"
    and "filter (\<lambda>c. \<not> all_free ps (xs @ ys) c) rest = filter (\<lambda>c. \<not> all_free ps ys c) rest"
  by (rule filter_cong [OF refl], simp add: all_free_rest [OF ok so ps xs])+

lemma sweep_filters:
  assumes ps: "0 < ps"
  shows "list_all (block_ok ps) bs \<Longrightarrow> sorted_wrt block_before bs \<Longrightarrow> sorted_wrt (<) fr \<Longrightarrow>
    list_all (in_blocks ps bs) fr \<Longrightarrow>
    sweep ps bs fr =
      (filter (all_free ps fr) bs, filter (\<lambda>b. \<not> all_free ps fr b) bs, kept_free ps bs fr)"
proof (induction bs arbitrary: fr)
  case Nil
  then show ?case by (simp add: kept_free_def)
next
  case (Cons b rest)
  note ok = Cons.prems(1) and so = Cons.prems(2) and sf = Cons.prems(3) and c2 = Cons.prems(4)
  let ?n = "chunk_count ps b" and ?e = "pod_end b"
  have okr: "list_all (block_ok ps) rest" and sor: "sorted_wrt block_before rest"
    using ok so by simp_all
  have okb: "block_ok ps b" using ok by simp
  have dis: "f \<notin> set (chunks_of ps c)" if "f \<in> set (chunks_of ps b)" and "c \<in> set rest" for f c
  proof -
    have "distinct (b # rest)" using ok so by (rule sorted_blocks_distinct)
    with that(2) have ne: "b \<noteq> c" by auto
    from chunks_disjoint [OF ok so ps _ _ ne that(1)] that(2) show ?thesis by simp
  qed
  show ?case
  proof (cases "fr = []")
    case True
    have "\<not> all_free ps [] c" if "c \<in> set (b # rest)" for c
    proof -
      from ok that have "block_ok ps c" by (auto simp: list_all_iff)
      then have "chunks_of ps c \<noteq> []" by (rule chunks_of_nonempty)
      then show ?thesis by (simp add: all_free_def)
    qed
    then have "filter (all_free ps []) (b # rest) = []"
      and "filter (\<lambda>c. \<not> all_free ps [] c) (b # rest) = b # rest"
      by (auto simp: filter_empty_conv filter_id_conv)
    with True show ?thesis by (simp add: kept_free_def)
  next
    case False
    note af = all_free_take [OF ok so ps sf c2]
    show ?thesis
    proof (cases "take ?n fr = chunks_of ps b")
      case True
      let ?xs = "take ?n fr" and ?ys = "drop ?n fr"
      have fr: "fr = ?xs @ ?ys" by simp
      have xs: "set ?xs \<subseteq> set (chunks_of ps b)" by (simp add: True)
      have afb: "all_free ps fr b" using af True by simp
      have dfr: "distinct fr" using sf by (simp add: strict_sorted_iff)
      have inter: "set ?xs \<inter> set ?ys = {}"
        using dfr by (rule set_take_disj_set_drop_if_distinct) simp
      have c2': "list_all (in_blocks ps rest) ?ys"
      proof -
        have "in_blocks ps rest a" if a: "a \<in> set ?ys" for a
        proof -
          from a have "a \<in> set fr" by (auto dest: in_set_dropD)
          with c2 have "in_blocks ps (b # rest) a" by (auto simp: list_all_iff)
          moreover from a inter have "a \<notin> set (chunks_of ps b)" unfolding True [symmetric] by blast
          ultimately show ?thesis by (auto simp: in_blocks_iff)
        qed
        then show ?thesis by (auto simp: list_all_iff)
      qed
      have sf': "sorted_wrt (<) ?ys" using sf by (rule sorted_wrt_drop)
      note IH = Cons.IH [OF okr sor sf' c2']
      have k1: "filter (\<lambda>f. list_all (\<lambda>c. all_free ps fr c \<longrightarrow> f \<notin> set (chunks_of ps c)) (b # rest)) ?xs = []"
        using afb by (auto simp: filter_empty_conv True)
      have k2: "filter (\<lambda>f. list_all (\<lambda>c. all_free ps fr c \<longrightarrow> f \<notin> set (chunks_of ps c)) (b # rest)) ?ys
          = filter (\<lambda>f. list_all (\<lambda>c. all_free ps fr c \<longrightarrow> f \<notin> set (chunks_of ps c)) rest) ?ys"
        using inter by (intro filter_cong [OF refl]) (auto simp: True [symmetric])
      have k3: "filter (\<lambda>f. list_all (\<lambda>c. all_free ps fr c \<longrightarrow> f \<notin> set (chunks_of ps c)) rest) ?ys
          = kept_free ps rest ?ys"
        using kept_free_rest [OF ok so ps xs, of ?ys] by simp
      have "kept_free ps (b # rest) fr =
          filter (\<lambda>f. list_all (\<lambda>c. all_free ps fr c \<longrightarrow> f \<notin> set (chunks_of ps c)) (b # rest)) (?xs @ ?ys)"
        unfolding kept_free_def by simp
      also have "\<dots> = kept_free ps rest ?ys" unfolding filter_append k1 k2 k3 by simp
      finally have kf: "kept_free ps (b # rest) fr = kept_free ps rest ?ys" .
      have fl: "filter (all_free ps fr) rest = filter (all_free ps ?ys) rest"
        "filter (\<lambda>c. \<not> all_free ps fr c) rest = filter (\<lambda>c. \<not> all_free ps ?ys c) rest"
        using filter_all_free_rest [OF ok so ps xs, of ?ys] by simp_all
      show ?thesis using False True IH afb by (simp add: kf fl)
    next
      case nf: False
      let ?xs = "takeWhile (\<lambda>x. x < ?e) fr" and ?ys = "dropWhile (\<lambda>x. x < ?e) fr"
      have fr: "fr = ?xs @ ?ys" by simp
      have nafb: "\<not> all_free ps fr b" using af nf by simp
      have xs: "set ?xs \<subseteq> set (chunks_of ps b)"
      proof
        fix f assume "f \<in> set ?xs"
        then have "f \<in> set fr" "f < ?e" by (auto dest: set_takeWhileD)
        with c2 have "in_blocks ps (b # rest) f" by (auto simp: list_all_iff)
        from free_chunk_bounds(2) [OF ok so ps this] \<open>f < ?e\<close>
        show "f \<in> set (chunks_of ps b)" by simp
      qed
      have c2': "list_all (in_blocks ps rest) ?ys"
      proof -
        have "in_blocks ps rest f" if f: "f \<in> set ?ys" for f
        proof -
          from f have "f \<in> set fr" by (auto dest: set_dropWhileD)
          with c2 have "in_blocks ps (b # rest) f" by (auto simp: list_all_iff)
          moreover have "\<not> f < ?e" by (rule sorted_dropWhile_ge [OF sf f])
          ultimately show ?thesis using free_chunk_bounds(3) [OF ok so ps] by blast
        qed
        then show ?thesis by (auto simp: list_all_iff)
      qed
      have sf': "sorted_wrt (<) ?ys" using sf by (rule sorted_wrt_dropWhile)
      note IH = Cons.IH [OF okr sor sf' c2']
      have k1: "filter (\<lambda>f. list_all (\<lambda>c. all_free ps fr c \<longrightarrow> f \<notin> set (chunks_of ps c)) (b # rest)) ?xs = ?xs"
        using nafb xs dis by (auto simp: filter_id_conv list_all_iff)
      have k2: "filter (\<lambda>f. list_all (\<lambda>c. all_free ps fr c \<longrightarrow> f \<notin> set (chunks_of ps c)) (b # rest)) ?ys
          = filter (\<lambda>f. list_all (\<lambda>c. all_free ps fr c \<longrightarrow> f \<notin> set (chunks_of ps c)) rest) ?ys"
        using nafb by simp
      have k3: "filter (\<lambda>f. list_all (\<lambda>c. all_free ps fr c \<longrightarrow> f \<notin> set (chunks_of ps c)) rest) ?ys
          = kept_free ps rest ?ys"
        using kept_free_rest [OF ok so ps xs, of ?ys] by simp
      have "kept_free ps (b # rest) fr =
          filter (\<lambda>f. list_all (\<lambda>c. all_free ps fr c \<longrightarrow> f \<notin> set (chunks_of ps c)) (b # rest)) (?xs @ ?ys)"
        unfolding kept_free_def by simp
      also have "\<dots> = ?xs @ kept_free ps rest ?ys" unfolding filter_append k1 k2 k3 by simp
      finally have kf: "kept_free ps (b # rest) fr = ?xs @ kept_free ps rest ?ys" .
      have fl: "filter (all_free ps fr) rest = filter (all_free ps ?ys) rest"
        "filter (\<lambda>c. \<not> all_free ps fr c) rest = filter (\<lambda>c. \<not> all_free ps ?ys c) rest"
        using filter_all_free_rest [OF ok so ps xs, of ?ys] by simp_all
      show ?thesis using False nf IH nafb by (simp add: kf fl)
    qed
  qed
qed

section \<open>release\_memory\<close>

lemma kept_free_chunks:
  assumes ok: "list_all (block_ok ps) bs" and so: "sorted_wrt block_before bs" and ps: "0 < ps"
    and c: "list_all (in_blocks ps bs) fs"
  shows "kept_free ps bs fs = filter (in_blocks ps (filter (\<lambda>b. \<not> all_free ps fs b) bs)) fs"
  unfolding kept_free_def
proof (rule filter_cong [OF refl])
  fix f assume "f \<in> set fs"
  with c obtain c where c: "c \<in> set bs" and fc: "f \<in> set (chunks_of ps c)"
    by (auto simp: list_all_iff in_blocks_iff)
  have other: "f \<notin> set (chunks_of ps b)" if "b \<in> set bs" "b \<noteq> c" for b
    using chunks_disjoint [OF ok so ps c that(1) _ fc] that(2) by blast
  have "list_all (\<lambda>b. all_free ps fs b \<longrightarrow> f \<notin> set (chunks_of ps b)) bs \<longleftrightarrow> \<not> all_free ps fs c"
    using c fc other by (auto simp: list_all_iff)
  also have "\<dots> \<longleftrightarrow> in_blocks ps (filter (\<lambda>b. \<not> all_free ps fs b) bs) f"
    using c fc other by (auto simp: in_blocks_iff)
  finally show "list_all (\<lambda>b. all_free ps fs b \<longrightarrow> f \<notin> set (chunks_of ps b)) bs \<longleftrightarrow>
      in_blocks ps (filter (\<lambda>b. \<not> all_free ps fs b) bs) f" .
qed

lemma release_memory_result:
  assumes inv: "pool_inv p psw bs fs"
  shows "\<exists>p'. release_memory p = Some (list_ex (all_free (unat psw) fs) bs, p') \<and>
     released (sys p') = released (sys p) @ map ptr (filter (all_free (unat psw) fs) bs) \<and>
     requests (sys p') = requests (sys p) \<and>
     next_size p' = start_size p \<and> same_parameters p p' \<and>
     pool_inv p' psw (filter (\<lambda>b. \<not> all_free (unat psw) fs b) bs)
       (filter (in_blocks (unat psw) (filter (\<lambda>b. \<not> all_free (unat psw) fs b) bs)) fs)"
proof -
  let ?ps = "unat psw"
  let ?rel = "filter (all_free ?ps fs) bs"
  let ?kept = "filter (\<lambda>b. \<not> all_free ?ps fs b) bs"
  from inv have a: "alloc_size p = Some psw"
    and bp: "block_path (mem p) (list p) bs" and fl: "free_list p fs"
    and ok: "list_all (block_ok ?ps) bs" and so: "sorted_wrt block_before bs"
    and sf: "sorted_wrt (<) fs" and c: "list_all (in_blocks ?ps bs) fs"
    unfolding pool_inv_def by blast+
  have ps: "0 < ?ps" using alloc_size_nonzero [OF a] by (simp add: unat_gt_0)
  have st: "sweep_state ?ps p [] bs [] fs (list p) pod_null (first p) 0"
    using bp fl ok so sf c
    by (simp add: sweep_state_def free_list_def pod_null_def valid_def last0_def)
  have sw: "sweep ?ps bs fs = (?rel, ?kept, kept_free ?ps bs fs)"
    using ps ok so sf c by (rule sweep_filters)
  from release_loop_sweep [OF ps st, of False] obtain q where
    run: "release_loop p psw (list p) pod_null (first p) 0 False = Some (?rel \<noteq> [], q)"
    and r1: "block_path (mem q) (list q) ?kept"
    and r2: "free_list q (kept_free ?ps bs fs)"
    and r3: "released (sys q) = released (sys p) @ map ptr ?rel"
    and r4: "requests (sys q) = requests (sys p)"
    and r5: "same_parameters p q"
    unfolding sw by auto
  let ?p' = "q\<lparr>next_size := start_size q\<rparr>"
  have ex: "(?rel \<noteq> []) = list_ex (all_free ?ps fs) bs"
    by (auto simp: filter_empty_conv list_ex_iff)
  have 1: "release_memory p = Some (list_ex (all_free ?ps fs) bs, ?p')"
    using a run by (simp add: release_memory_def ex)
  have kf: "kept_free ?ps bs fs = filter (in_blocks ?ps ?kept) fs"
    using ok so ps c by (rule kept_free_chunks)
  have aq: "alloc_size q = Some psw"
    using a r5 by (simp add: alloc_size_def same_parameters_def)
  have "list_all (block_ok ?ps) ?kept" using ok by (auto simp: list_all_iff)
  moreover have "sorted_wrt block_before ?kept" using so by (rule sorted_wrt_filter)
  moreover have "sorted_wrt (<) (filter (in_blocks ?ps ?kept) fs)"
    using sf by (rule sorted_wrt_filter)
  moreover have "list_all (in_blocks ?ps ?kept) (filter (in_blocks ?ps ?kept) fs)"
    by (simp add: list_all_iff)
  ultimately have 5: "pool_inv ?p' psw ?kept (filter (in_blocks ?ps ?kept) fs)"
    using aq r1 r2 by (simp add: pool_inv_def kf free_list_def)
  have 4: "next_size ?p' = start_size p" using r5 by (simp add: same_parameters_def)
  have 6: "same_parameters p ?p'" using r5 by (simp add: same_parameters_def)
  from 1 r3 r4 4 5 6 show ?thesis
    by (intro exI [of _ ?p']) simp
qed

text \<open>
  Claim C1.  The pool is in ordered mode: its blocks \<open>bs\<close> and its free chunks \<open>fs\<close> are
  as \<open>pool_inv\<close> says.  Then \<^verbatim>\<open>release_memory\<close> returns; the blocks it hands to the
  system allocator are, in order, the blocks all of whose chunks are in the free list,
  and no other; it returns true exactly when there is such a block; it sets
  \<^verbatim>\<open>next_size\<close> to \<^verbatim>\<open>start_size\<close>; and afterwards the pool is in ordered mode again,
  with the other blocks as its block list and, as its free list, the chunks of \<open>fs\<close>
  that lie in these blocks.
\<close>

theorem release_memory_sweep:
  assumes inv: "pool_inv p psw bs fs"
  shows "\<exists>p'. release_memory p = Some (list_ex (all_free (unat psw) fs) bs, p') \<and>
     released (sys p') = released (sys p) @ map ptr (filter (all_free (unat psw) fs) bs) \<and>
     requests (sys p') = requests (sys p) \<and>
     next_size p' = start_size p \<and>
     pool_inv p' psw (filter (\<lambda>b. \<not> all_free (unat psw) fs b) bs)
       (filter (in_blocks (unat psw) (filter (\<lambda>b. \<not> all_free (unat psw) fs b) bs)) fs)"
proof -
  from release_memory_result [OF inv] obtain p' where
    r: "release_memory p = Some (list_ex (all_free (unat psw) fs) bs, p') \<and>
     released (sys p') = released (sys p) @ map ptr (filter (all_free (unat psw) fs) bs) \<and>
     requests (sys p') = requests (sys p) \<and>
     next_size p' = start_size p \<and> same_parameters p p' \<and>
     pool_inv p' psw (filter (\<lambda>b. \<not> all_free (unat psw) fs b) bs)
       (filter (in_blocks (unat psw) (filter (\<lambda>b. \<not> all_free (unat psw) fs b) bs)) fs)" ..
  then show ?thesis by (intro exI [of _ p']) simp
qed

lemma pool_j_inv:
  "pool_inv pool_j 8 [\<lparr>ptr = 4096, sz = 24\<rparr>, \<lparr>ptr = 8192, sz = 32\<rparr>] [4096, 8200]"
  by (simp add: pool_inv_def pool_j_def free_list_def block_ok_def chunk_count_def
      in_blocks_def chunks_of_def chunk_seq_def block_before_def eval_defs)


lemma pool_j_fields:
  "released (sys pool_j) = []" "requests (sys pool_j) = [24, 32]" "start_size pool_j = 1"
  "next_size pool_j = 4"
  by (simp_all add: pool_j_def eval_defs)

lemma pool_j_chunks:
  "chunks_of 8 \<lparr>ptr = 4096, sz = 24\<rparr> = [4096]"
  "chunks_of 8 \<lparr>ptr = 8192, sz = 32\<rparr> = [8192, 8200]"
  by (simp_all add: chunks_of_def chunk_seq_def chunk_count_def upt_rec eval_defs)

lemma pool_j_all_free:
  "all_free 8 [4096, 8200] \<lparr>ptr = 4096, sz = 24\<rparr>"
  "\<not> all_free 8 [4096, 8200] \<lparr>ptr = 8192, sz = 32\<rparr>"
  "in_blocks 8 [\<lparr>ptr = 8192, sz = 32\<rparr>] 8200"
  "\<not> in_blocks 8 [\<lparr>ptr = 8192, sz = 32\<rparr>] 4096"
  by (simp_all add: all_free_def in_blocks_def pool_j_chunks)

text \<open>
  The pool \<open>pool_j\<close> holds the block at 4096, whose one chunk is free, and the block at
  8192, whose first chunk is in use and whose second chunk, 8200, is free.
\<close>

theorem release_memory_sweep_witness:
  "pool_inv pool_j 8 [\<lparr>ptr = 4096, sz = 24\<rparr>, \<lparr>ptr = 8192, sz = 32\<rparr>] [4096, 8200] \<and>
   next_size pool_j = 4 \<and>
   (\<exists>p'. release_memory pool_j = Some (True, p') \<and>
      released (sys p') = [4096] \<and> requests (sys p') = [24, 32] \<and> next_size p' = 1 \<and>
      pool_inv p' 8 [\<lparr>ptr = 8192, sz = 32\<rparr>] [8200])"
  using release_memory_sweep [OF pool_j_inv] pool_j_inv
  by (simp add: pool_j_fields pool_j_all_free)

section \<open>Ordered insertion of a run of chunks\<close>

lemma run_bounds:
  assumes "x \<in> set (chunk_seq a k ps)"
  shows "a \<le> x" and "x \<le> a + (k - 1) * ps"
proof -
  from assms obtain i where i: "i < k" "x = a + i * ps" by (auto simp: set_chunk_seq)
  then show "a \<le> x" by simp
  from i have "i \<le> k - 1" by simp
  then have "i * ps \<le> (k - 1) * ps" by (rule mult_le_mono1)
  with i show "x \<le> a + (k - 1) * ps" by simp
qed

lemma add_ordered_block_insert:
  fixes nsz psw :: size_type
  assumes fl: "free_list s xs" and nz: "psw \<noteq> 0" and k: "0 < k"
    and szk: "unat nsz = k * unat psw" and a0: "a \<noteq> 0"
    and out: "\<forall>x\<in>set xs. x < a \<or> a + (k - 1) * unat psw < x"
  shows "\<exists>s'. add_ordered_block s a nsz psw = Some s' \<and>
           free_list s' (takeWhile (\<lambda>x. x \<le> a) xs @ chunk_seq a k (unat psw) @
              dropWhile (\<lambda>x. x \<le> a) xs) \<and>
           (\<forall>c. c \<notin> set (chunk_seq a k (unat psw)) \<and> c \<notin> set xs \<longrightarrow> mem s' c = mem s c)"
proof -
  let ?ps = "unat psw" and ?m = "mem s"
  let ?run = "chunk_seq a k ?ps"
  let ?tw = "takeWhile (\<lambda>x. x \<le> a) xs" and ?dw = "dropWhile (\<lambda>x. x \<le> a) xs"
  have ps: "0 < ?ps" using nz by (simp add: unat_gt_0)
  have le: "psw \<le> nsz"
  proof -
    have "?ps \<le> k * ?ps" using k by simp
    then show ?thesis by (simp add: word_le_nat_alt szk)
  qed
  have kd: "unat nsz div ?ps = k" using ps by (simp add: szk)
  have notrun: "x \<notin> set ?run" if "x \<in> set xs" for x
    using out that run_bounds [of x a k ?ps] by fastforce
  from fl have whole: "path ?m (first s) (?tw @ ?dw) 0" by (simp add: free_list_def)
  then obtain y where q1: "path ?m (first s) ?tw y" and q2: "path ?m y ?dw 0"
    unfolding path_append by blast
  from fl have dis: "distinct xs" unfolding free_list_def by (rule path_distinct)
  have fp: "find_prev s a = Some (if ?tw = [] then 0 else last ?tw)"
    using fl by (rule find_prev_result)
  show ?thesis
  proof (cases "?tw = []")
    case True
    with q1 have y: "y = first s" by simp
    from segregate_result [OF nz le, of ?m a "first s"] obtain m' where
      sg: "segregate ?m a nsz psw (first s) = Some (m', a)"
      and l1: "\<forall>i. Suc i < k \<longrightarrow> m' (a + i * ?ps) = a + Suc i * ?ps"
      and l2: "m' (a + (k - 1) * ?ps) = first s"
      and l3: "\<forall>c. c \<notin> set ?run \<longrightarrow> m' c = ?m c"
      unfolding kd by blast
    let ?s' = "s\<lparr>mem := m', first := a\<rparr>"
    have run: "add_ordered_block s a nsz psw = Some ?s'"
      using fp True sg by (simp add: add_ordered_block_def add_block_def)
    have r1: "path m' a ?run (first s)"
      using l1 l2 k a0 by (intro path_chunk_seq) simp_all
    have "path m' (first s) ?dw 0 \<longleftrightarrow> path ?m (first s) ?dw 0"
    proof (rule path_cong)
      fix c assume "c \<in> set ?dw"
      then have "c \<in> set xs" by (rule set_dropWhileD)
      then show "m' c = ?m c" using l3 notrun by simp
    qed
    with q2 y have r2: "path m' (first s) ?dw 0" by simp
    have "free_list ?s' (?tw @ ?run @ ?dw)"
      using path_appendI [OF r1 r2] True by (simp add: free_list_def)
    moreover have "\<forall>c. c \<notin> set ?run \<and> c \<notin> set xs \<longrightarrow> mem ?s' c = ?m c" using l3 by simp
    ultimately show ?thesis using run by blast
  next
    case False
    then obtain tw' loc where tw: "?tw = tw' @ [loc]" by (metis append_butlast_last_id)
    have loc: "loc = last ?tw" by (simp add: tw)
    from q1 obtain z where z1: "path ?m (first s) tw' z" and z2: "path ?m z [loc] y"
      unfolding tw path_append by blast
    from z2 have z: "z = loc" and loc0: "loc \<noteq> 0" and ny: "nextof ?m loc = y" by simp_all
    have loc_in: "loc \<in> set xs"
    proof -
      have "loc \<in> set ?tw" by (simp add: tw)
      then show ?thesis by (auto dest: set_takeWhileD)
    qed
    have dxs: "distinct (tw' @ [loc] @ ?dw)" using dis tw by (metis append_assoc takeWhile_dropWhile_id)
    from segregate_result [OF nz le, of ?m a y] obtain m' where
      sg: "segregate ?m a nsz psw y = Some (m', a)"
      and l1: "\<forall>i. Suc i < k \<longrightarrow> m' (a + i * ?ps) = a + Suc i * ?ps"
      and l2: "m' (a + (k - 1) * ?ps) = y"
      and l3: "\<forall>c. c \<notin> set ?run \<longrightarrow> m' c = ?m c"
      unfolding kd by blast
    let ?M = "m'(loc := a)"
    let ?s' = "s\<lparr>mem := ?M\<rparr>"
    have run: "add_ordered_block s a nsz psw = Some ?s'"
      using fp False sg loc0 ny by (simp add: add_ordered_block_def loc [symmetric])
    have locrun: "loc \<notin> set ?run" using loc_in by (rule notrun)
    have "path ?M (first s) tw' loc \<longleftrightarrow> path ?m (first s) tw' loc"
    proof (rule path_cong)
      fix c assume c: "c \<in> set tw'"
      then have "c \<in> set ?tw" by (simp add: tw)
      then have "c \<in> set xs" by (auto dest: set_takeWhileD)
      moreover have "c \<noteq> loc" using dxs c by auto
      ultimately show "?M c = ?m c" using l3 notrun by simp
    qed
    with z1 z have r0: "path ?M (first s) tw' loc" by simp
    have r0': "path ?M loc [loc] a" using loc0 by (simp add: nextof_def)
    have r1: "path ?M a ?run y"
    proof (intro path_chunk_seq)
      show "\<forall>i. Suc i < k \<longrightarrow> ?M (a + i * ?ps) = a + Suc i * ?ps"
      proof (intro allI impI)
        fix i assume i: "Suc i < k"
        then have "a + i * ?ps \<in> set ?run" by (auto simp: set_chunk_seq)
        with locrun have "a + i * ?ps \<noteq> loc" by auto
        with l1 i show "?M (a + i * ?ps) = a + Suc i * ?ps" by simp
      qed
      have "a + (k - 1) * ?ps \<in> set ?run" using k by (auto simp: set_chunk_seq)
      with locrun have "a + (k - 1) * ?ps \<noteq> loc" by auto
      with l2 show "?M (a + (k - 1) * ?ps) = y" by simp
    qed (use k a0 in simp_all)
    have "path ?M y ?dw 0 \<longleftrightarrow> path ?m y ?dw 0"
    proof (rule path_cong)
      fix c assume c: "c \<in> set ?dw"
      then have "c \<in> set xs" by (rule set_dropWhileD)
      moreover have "c \<noteq> loc" using dxs c by auto
      ultimately show "?M c = ?m c" using l3 notrun by simp
    qed
    with q2 have r2: "path ?M y ?dw 0" by simp
    have "path ?M (first s) ((tw' @ [loc]) @ ?run @ ?dw) 0"
      by (intro path_appendI [OF path_appendI [OF r0 r0'] path_appendI [OF r1 r2]])
    then have "free_list ?s' (?tw @ ?run @ ?dw)" by (simp add: free_list_def tw)
    moreover have "\<forall>c. c \<notin> set ?run \<and> c \<notin> set xs \<longrightarrow> mem ?s' c = ?m c"
      using l3 loc_in by auto
    ultimately show ?thesis using run by blast
  qed
qed

section \<open>Ordered insertion of a block\<close>

lemma block_before_less:
  assumes "block_ok ps b" and "block_before b c"
  shows "ptr b < ptr c"
  using assms by (simp add: block_ok_def block_before_def)

lemma find_prev_block_result:
  assumes "block_path m x (x # xs)" and "ptr x \<le> nb"
  shows "find_prev_block m x nb = Some (last (takeWhile (\<lambda>b. ptr b \<le> nb) (x # xs)))"
  using assms
proof (induction xs arbitrary: x)
  case Nil
  then have "next_ptr m x = 0" by (simp add: valid_def pod_next_def)
  then show ?case using Nil.prems(2) by (subst find_prev_block.simps) simp
next
  case (Cons y ys)
  from Cons.prems have y: "pod_next m x = y" "valid y" and p: "block_path m y (y # ys)"
    by simp_all
  from y have ny: "next_ptr m x = ptr y" "ptr y \<noteq> 0" by (auto simp: pod_next_def valid_def)
  show ?case
  proof (cases "ptr y \<le> nb")
    case True
    have "find_prev_block m x nb = find_prev_block m y nb"
      using ny y True by (subst find_prev_block.simps) simp
    also have "\<dots> = Some (last (takeWhile (\<lambda>b. ptr b \<le> nb) (y # ys)))"
      using p True by (rule Cons.IH)
    finally show ?thesis using True Cons.prems(2) by simp
  next
    case False
    then have "find_prev_block m x nb = Some x"
      using ny by (subst find_prev_block.simps) simp
    with False Cons.prems(2) show ?thesis by simp
  qed
qed

lemma sorted_insert_block:
  assumes ok: "list_all (block_ok ps) bs" and so: "sorted_wrt block_before bs"
    and okn: "block_ok ps node"
    and fresh: "list_all (\<lambda>b. block_before b node \<or> block_before node b) bs"
  shows "sorted_wrt block_before (insert_block node bs)"
    and "list_all (block_ok ps) (insert_block node bs)"
proof -
  let ?P = "\<lambda>b. ptr b \<le> ptr node"
  let ?tw = "takeWhile ?P bs" and ?dw = "dropWhile ?P bs"
  have bs: "bs = ?tw @ ?dw" by simp
  have s1: "sorted_wrt block_before ?tw" using so by (rule sorted_wrt_takeWhile)
  have s2: "sorted_wrt block_before ?dw" using so by (rule sorted_wrt_dropWhile)
  have t: "block_before b node" if "b \<in> set ?tw" for b
  proof -
    from that have b: "b \<in> set bs" "ptr b \<le> ptr node" by (auto dest: set_takeWhileD)
    with fresh have "block_before b node \<or> block_before node b" by (auto simp: list_all_iff)
    moreover have "\<not> block_before node b" using block_before_less [OF okn] b(2) by fastforce
    ultimately show ?thesis by simp
  qed
  have d: "block_before node b" if "b \<in> set ?dw" for b
  proof -
    from that have b: "b \<in> set bs" by (rule set_dropWhileD)
    from that obtain h hs where dw: "?dw = h # hs" by (cases ?dw) auto
    then have h: "\<not> ptr h \<le> ptr node" by (metis hd_dropWhile list.sel(1) list.distinct(1))
    have "h \<in> set bs" by (metis dw list.set_intros(1) set_dropWhileD)
    with ok have okh: "block_ok ps h" by (auto simp: list_all_iff)
    have "ptr h \<le> ptr b"
    proof (cases "b = h")
      case False
      with that dw s2 have "block_before h b" by auto
      from block_before_less [OF okh this] show ?thesis by simp
    qed simp
    with h have nb: "\<not> ptr b \<le> ptr node" by simp
    from ok b have okb: "block_ok ps b" by (auto simp: list_all_iff)
    from fresh b have "block_before b node \<or> block_before node b" by (auto simp: list_all_iff)
    moreover have "\<not> block_before b node" using block_before_less [OF okb] nb by fastforce
    ultimately show ?thesis by simp
  qed
  have "sorted_wrt block_before (?tw @ ?dw)" using so by simp
  then have td: "block_before b c" if "b \<in> set ?tw" "c \<in> set ?dw" for b c
    unfolding sorted_wrt_append using that by blast
  show "sorted_wrt block_before (insert_block node bs)"
    unfolding insert_block_def using s1 s2 t d td by (auto simp: sorted_wrt_append)
  show "list_all (block_ok ps) (insert_block node bs)"
    unfolding insert_block_def using ok okn
    by (auto simp: list_all_iff dest: set_takeWhileD set_dropWhileD)
qed

lemma set_insert_block [simp]: "set (insert_block node bs) = insert node (set bs)"
proof -
  let ?tw = "takeWhile (\<lambda>b. ptr b \<le> ptr node) bs"
  let ?dw = "dropWhile (\<lambda>b. ptr b \<le> ptr node) bs"
  have "set bs = set (?tw @ ?dw)" by simp
  also have "\<dots> = set ?tw \<union> set ?dw" by (rule set_append)
  finally have "set bs = set ?tw \<union> set ?dw" .
  then show ?thesis unfolding insert_block_def by (simp only: set_append list.set) blast
qed


lemma pod_set_next_trailer:
  assumes "ptr_next_ptr c \<noteq> ptr_next_ptr b" and "ptr_next_ptr c \<noteq> ptr_next_size b"
    and "ptr_next_size c \<noteq> ptr_next_ptr b" and "ptr_next_size c \<noteq> ptr_next_size b"
  shows "pod_set_next m b x (ptr_next_ptr c) = m (ptr_next_ptr c) \<and>
         pod_set_next m b x (ptr_next_size c) = m (ptr_next_size c)"
  using assms by (simp add: pod_set_next_other)

lemma insert_ordered_result:
  assumes bp: "block_path (mem p) (list p) bs"
    and ok: "list_all (block_ok ps) bs" and so: "sorted_wrt block_before bs" and ps: "0 < ps"
    and okn: "block_ok ps node"
    and fresh: "list_all (\<lambda>b. block_before b node \<or> block_before node b) bs"
  shows "\<exists>p'. insert_ordered p node = Some p' \<and>
     block_path (mem p') (list p') (insert_block node bs) \<and>
     (\<forall>c. (\<forall>b\<in>set (node # bs). c \<noteq> ptr_next_ptr b \<and> c \<noteq> ptr_next_size b) \<longrightarrow>
          mem p' c = mem p c) \<and>
     first p' = first p \<and> next_size p' = next_size p \<and> sys p' = sys p \<and>
     same_parameters p p'"
proof -
  let ?m = "mem p"
  let ?P = "\<lambda>b. ptr b \<le> ptr node"
  let ?tw = "takeWhile ?P bs" and ?dw = "dropWhile ?P bs"
  let ?all = "insert_block node bs"
  note soa = sorted_insert_block(1) [OF ok so okn fresh]
  note oka = sorted_insert_block(2) [OF ok so okn fresh]
  have da: "distinct ?all" using oka soa by (rule sorted_blocks_distinct)
  have tr: "ptr_next_ptr c \<noteq> ptr_next_ptr b \<and> ptr_next_ptr c \<noteq> ptr_next_size b \<and>
      ptr_next_size c \<noteq> ptr_next_ptr b \<and> ptr_next_size c \<noteq> ptr_next_size b"
    if "b \<in> set ?all" "c \<in> set ?all" "b \<noteq> c" for b c
    using trailers_distinct [OF oka soa ps that] by simp
  have vn: "valid node" using okn by (simp add: block_ok_def)
  have tn: "ptr_next_ptr node \<noteq> ptr_next_size node" using okn ps by (rule trailer_within(3))
  have node_new: "node \<notin> set bs"
  proof
    assume "node \<in> set bs"
    then have "node \<in> set ?tw \<union> set ?dw" by (metis set_append takeWhile_dropWhile_id)
    with da show False by (auto simp: insert_block_def)
  qed
  show ?thesis
  proof (cases "\<not> valid (list p) \<or> ptr node < ptr (list p)")
    case True
    let ?m' = "pod_set_next ?m node (list p)"
    let ?p' = "p\<lparr>mem := ?m', list := node\<rparr>"
    have run: "insert_ordered p node = Some ?p'" using True by (simp add: insert_ordered_def)
    have tw: "?tw = []"
    proof (cases bs)
      case (Cons h t)
      with bp True show ?thesis by auto
    qed simp
    then have "?dw = bs" by (metis append_Nil takeWhile_dropWhile_id)
    with tw have all: "?all = node # bs" by (simp only: insert_block_def append_Nil)
    have "block_path ?m' (list p) bs \<longleftrightarrow> block_path ?m (list p) bs"
    proof (rule block_path_cong)
      fix b assume b: "b \<in> set bs"
      with node_new have "node \<noteq> b" by auto
      from tr [OF _ _ this] b
      show "?m' (ptr_next_ptr b) = ?m (ptr_next_ptr b) \<and> ?m' (ptr_next_size b) = ?m (ptr_next_size b)"
        by (intro pod_set_next_trailer) simp_all
    qed
    with bp have "block_path ?m' (list p) bs" by simp
    moreover have "pod_next ?m' node = list p" using tn by (rule pod_set_next_read)
    ultimately have "block_path (mem ?p') (list ?p') ?all" using vn by (simp add: all)
    moreover have "\<forall>c. (\<forall>b\<in>set (node # bs). c \<noteq> ptr_next_ptr b \<and> c \<noteq> ptr_next_size b) \<longrightarrow>
          mem ?p' c = ?m c" by (simp add: pod_set_next_other)
    ultimately show ?thesis using run by (intro exI [of _ ?p']) (simp add: same_parameters_def)
  next
    case False
    then have vl: "valid (list p)" and le: "ptr (list p) \<le> ptr node" by simp_all
    from bp vl obtain t where bs: "bs = list p # t" by (cases bs) auto
    have fpb: "find_prev_block ?m (list p) (ptr node) = Some (last ?tw)"
      using find_prev_block_result [of ?m "list p" t "ptr node"] bp le unfolding bs by simp
    have twne: "?tw \<noteq> []" using le by (simp add: bs)
    then obtain tw' prev where tw: "?tw = tw' @ [prev]" by (metis append_butlast_last_id)
    then have prev: "last ?tw = prev" by simp
    have bsd: "bs = tw' @ prev # ?dw" by (metis tw append_Cons append_Nil append_assoc takeWhile_dropWhile_id)
    have all: "?all = tw' @ prev # node # ?dw" by (simp add: insert_block_def tw)
    from bp obtain x where s1: "block_seg ?m (list p) tw' x" and s2: "block_path ?m x (prev # ?dw)"
      by (subst (asm) bsd) (auto simp: block_path_append)
    from s2 have x: "x = prev" and vp: "valid prev" and s3: "block_path ?m (pod_next ?m prev) ?dw"
      by simp_all
    let ?nx = "pod_next ?m prev"
    let ?m1 = "pod_set_next ?m node ?nx"
    let ?m' = "pod_set_next ?m1 prev node"
    let ?p' = "p\<lparr>mem := ?m'\<rparr>"
    have run: "insert_ordered p node = Some ?p'"
      using False fpb by (simp add: insert_ordered_def prev)
    have prev_in: "prev \<in> set ?all" and node_in: "node \<in> set ?all" by (simp_all add: all)
    have pn: "prev \<noteq> node" using da by (auto simp: all)
    have okp: "block_ok ps prev" using oka by (simp add: all)
    have tp: "ptr_next_ptr prev \<noteq> ptr_next_size prev" using okp ps by (rule trailer_within(3))
    have other: "?m' (ptr_next_ptr b) = ?m (ptr_next_ptr b) \<and> ?m' (ptr_next_size b) = ?m (ptr_next_size b)"
      if b: "b \<in> set ?all" "b \<noteq> prev" "b \<noteq> node" for b
    proof -
      from tr [OF prev_in b(1)] b(2) have 1: "ptr_next_ptr b \<noteq> ptr_next_ptr prev"
        "ptr_next_ptr b \<noteq> ptr_next_size prev" "ptr_next_size b \<noteq> ptr_next_ptr prev"
        "ptr_next_size b \<noteq> ptr_next_size prev" by auto
      from tr [OF node_in b(1)] b(3) have 2: "ptr_next_ptr b \<noteq> ptr_next_ptr node"
        "ptr_next_ptr b \<noteq> ptr_next_size node" "ptr_next_size b \<noteq> ptr_next_ptr node"
        "ptr_next_size b \<noteq> ptr_next_size node" by auto
      show ?thesis using 1 2 by (simp add: pod_set_next_other)
    qed
    have "block_seg ?m' (list p) tw' prev \<longleftrightarrow> block_seg ?m (list p) tw' prev"
    proof (rule block_seg_cong)
      fix b assume b: "b \<in> set tw'"
      then have "b \<in> set ?all" "b \<noteq> prev" "b \<noteq> node" using da by (auto simp: all)
      then show "?m' (ptr_next_ptr b) = ?m (ptr_next_ptr b) \<and> ?m' (ptr_next_size b) = ?m (ptr_next_size b)"
        by (rule other)
    qed
    with s1 x have g1: "block_seg ?m' (list p) tw' prev" by simp
    have g2: "pod_next ?m' prev = node" using tp by (rule pod_set_next_read)
    have "pod_next ?m' node = pod_next ?m1 node"
      using tr [OF prev_in node_in pn] by (intro pod_next_cong) (simp_all add: pod_set_next_other)
    also have "\<dots> = ?nx" using tn by (rule pod_set_next_read)
    finally have g3: "pod_next ?m' node = ?nx" .
    have "block_path ?m' ?nx ?dw \<longleftrightarrow> block_path ?m ?nx ?dw"
    proof (rule block_path_cong)
      fix b assume b: "b \<in> set ?dw"
      then have "b \<in> set ?all" "b \<noteq> prev" "b \<noteq> node" using da by (auto simp: all)
      then show "?m' (ptr_next_ptr b) = ?m (ptr_next_ptr b) \<and> ?m' (ptr_next_size b) = ?m (ptr_next_size b)"
        by (rule other)
    qed
    with s3 have g4: "block_path ?m' ?nx ?dw" by simp
    have "block_path ?m' (list p) (tw' @ prev # node # ?dw)"
      unfolding block_path_append using g1 g2 g3 g4 vp vn by auto
    then have "block_path (mem ?p') (list ?p') ?all" by (simp add: all)
    moreover have "prev \<in> set bs" by (subst bsd) simp
    then have "\<forall>c. (\<forall>b\<in>set (node # bs). c \<noteq> ptr_next_ptr b \<and> c \<noteq> ptr_next_size b) \<longrightarrow>
          mem ?p' c = ?m c" by (auto simp: pod_set_next_other)
    ultimately show ?thesis using run by (intro exI [of _ ?p']) (simp add: same_parameters_def)
  qed
qed

section \<open>The ordered operations keep the pool in ordered mode\<close>

lemma trailer_not_chunk:
  assumes ok: "list_all (block_ok ps) bs" and so: "sorted_wrt block_before bs" and ps: "0 < ps"
    and b: "b \<in> set bs"
  shows "\<not> in_blocks ps bs (ptr_next_ptr b)" and "\<not> in_blocks ps bs (ptr_next_size b)"
  using chunk_not_trailer [OF ok so ps b] by (auto simp: in_blocks_iff)

lemma block_path_chunks_frame:
  assumes bp: "block_path m l bs"
    and ok: "list_all (block_ok ps) bs" and so: "sorted_wrt block_before bs" and ps: "0 < ps"
    and fr: "\<And>c. \<not> in_blocks ps bs c \<Longrightarrow> m' c = m c"
  shows "block_path m' l bs"
proof -
  have "block_path m' l bs \<longleftrightarrow> block_path m l bs"
  proof (rule block_path_cong)
    fix b assume "b \<in> set bs"
    from trailer_not_chunk [OF ok so ps this]
    show "m' (ptr_next_ptr b) = m (ptr_next_ptr b) \<and> m' (ptr_next_size b) = m (ptr_next_size b)"
      by (simp add: fr)
  qed
  with bp show ?thesis by simp
qed

lemma path_trailers_frame:
  assumes p: "path m x fs y" and c: "list_all (in_blocks ps bs) fs"
    and fr: "\<And>c. in_blocks ps bs c \<Longrightarrow> m' c = m c"
  shows "path m' x fs y"
proof -
  have "path m' x fs y \<longleftrightarrow> path m x fs y"
    using c by (intro path_cong fr) (auto simp: list_all_iff)
  with p show ?thesis by simp
qed

lemma pool_inv_D:
  assumes "pool_inv p psw bs fs"
  shows "alloc_size p = Some psw" and "block_path (mem p) (list p) bs" and "free_list p fs"
    and "list_all (block_ok (unat psw)) bs" and "sorted_wrt block_before bs"
    and "sorted_wrt (<) fs" and "list_all (in_blocks (unat psw) bs) fs" and "0 < unat psw"
proof -
  from assms show a: "alloc_size p = Some psw" and "block_path (mem p) (list p) bs"
    and "free_list p fs"
    and "list_all (block_ok (unat psw)) bs" and "sorted_wrt block_before bs"
    and "sorted_wrt (<) fs" and "list_all (in_blocks (unat psw) bs) fs"
    unfolding pool_inv_def by blast+
  show "0 < unat psw" using alloc_size_nonzero [OF a] by (simp add: unat_gt_0)
qed

lemma ordered_allocate_pop_inv:
  assumes inv: "pool_inv p psw bs (x # xs)"
  shows "\<exists>p'. ordered_allocate p = Some (x, p') \<and> pool_inv p' psw bs xs \<and>
           next_size p' = next_size p \<and> same_parameters p p'"
proof -
  note d = pool_inv_D [OF inv]
  let ?p' = "p\<lparr>first := nextof (mem p) x\<rparr>"
  have "ordered_allocate p = Some (x, ?p')" using d(3) by (rule ordered_allocate_pop(1))
  moreover have "free_list ?p' xs" using d(3) by (rule allocate_pop(2))
  then have "pool_inv ?p' psw bs xs" using d by (simp add: pool_inv_def)
  ultimately show ?thesis by (simp add: same_parameters_def)
qed

lemma ordered_deallocate_inv:
  assumes inv: "pool_inv p psw bs fs" and a: "in_blocks (unat psw) bs a" "a \<notin> set fs"
  shows "\<exists>p'. pool_ordered_deallocate p a = Some p' \<and> pool_inv p' psw bs (ordered_insert a fs) \<and>
           next_size p' = next_size p \<and> same_parameters p p'"
proof -
  let ?ps = "unat psw"
  note d = pool_inv_D [OF inv]
  from a(1) obtain b where b: "b \<in> set bs" "a \<in> set (chunks_of ?ps b)"
    by (auto simp: in_blocks_iff)
  with d(4) have "block_ok ?ps b" by (auto simp: list_all_iff)
  from chunks_of_within(4) [OF this d(8) b(2)] have a0: "a \<noteq> 0" .
  from ordered_deallocate_insert [OF d(3) a0 a(2)] obtain p' where
    run: "ordered_deallocate p a = Some p'" and fl: "free_list p' (ordered_insert a fs)"
    and fr: "\<forall>c. c \<notin> set (a # fs) \<longrightarrow> mem p' c = mem p c" by blast
  from ordered_deallocate_frame [OF run] have sf: "storage_frame p p'" .
  have "block_path (mem p') (list p) bs"
  proof (rule block_path_chunks_frame [OF d(2) d(4) d(5) d(8)])
    fix c assume "\<not> in_blocks ?ps bs c"
    with a(1) d(7) have "c \<notin> set (a # fs)" by (auto simp: list_all_iff)
    with fr show "mem p' c = mem p c" by simp
  qed
  moreover have "sorted_wrt (<) (ordered_insert a fs)" using d(6) a(2) by (rule sorted_ordered_insert)
  moreover have "list_all (in_blocks ?ps bs) (ordered_insert a fs)"
    using d(7) a(1) by (auto simp: ordered_insert_def list_all_iff dest: set_takeWhileD set_dropWhileD)
  moreover have "alloc_size p' = Some psw"
    using d(1) sf by (simp add: alloc_size_def storage_frame_def)
  ultimately have "pool_inv p' psw bs (ordered_insert a fs)"
    using fl d sf by (simp add: pool_inv_def storage_frame_def)
  with run sf show ?thesis
    by (simp add: pool_ordered_deallocate_def storage_frame_def same_parameters_def)
qed


lemma hd0_chunk_seq: "0 < k \<Longrightarrow> hd0 (chunk_seq a k ps) = a"
  by (cases k) (simp_all add: chunk_seq_Suc)

lemma insert_run_Nil [simp]: "insert_run [] xs = xs"
  by (simp add: insert_run_def)

lemma set_insert_run [simp]: "set (insert_run run xs) = set run \<union> set xs"
proof -
  let ?tw = "takeWhile (\<lambda>x. x \<le> hd0 run) xs" and ?dw = "dropWhile (\<lambda>x. x \<le> hd0 run) xs"
  have "set xs = set (?tw @ ?dw)" by simp
  also have "\<dots> = set ?tw \<union> set ?dw" by (rule set_append)
  finally have "set xs = set ?tw \<union> set ?dw" .
  then show ?thesis unfolding insert_run_def by (simp only: set_append) blast
qed

lemma sorted_insert_run:
  assumes sf: "sorted_wrt (<) xs" and ps: "0 < ps" and k: "0 < k"
    and out: "\<forall>x\<in>set xs. x < a \<or> a + (k - 1) * ps < x"
  shows "sorted_wrt (<) (insert_run (chunk_seq a k ps) xs)"
proof -
  let ?run = "chunk_seq a k ps"
  let ?tw = "takeWhile (\<lambda>x. x \<le> a) xs" and ?dw = "dropWhile (\<lambda>x. x \<le> a) xs"
  have s1: "sorted_wrt (<) ?tw" using sf by (rule sorted_wrt_takeWhile)
  have s2: "sorted_wrt (<) ?dw" using sf by (rule sorted_wrt_dropWhile)
  have s3: "sorted_wrt (<) ?run" using ps by (rule sorted_chunk_seq)
  have t: "x < a" if "x \<in> set ?tw" for x
  proof -
    from that have "x \<in> set xs" "x \<le> a" by (auto dest: set_takeWhileD)
    with out show ?thesis by fastforce
  qed
  have d: "a + (k - 1) * ps < x" if "x \<in> set ?dw" for x
  proof -
    from that have x: "x \<in> set xs" by (rule set_dropWhileD)
    from that obtain h hs where dw: "?dw = h # hs" by (cases ?dw) auto
    then have h: "\<not> h \<le> a" by (metis hd_dropWhile list.sel(1) list.distinct(1))
    have "h \<le> x" using that s2 unfolding dw by auto
    with h have "\<not> x < a" by simp
    with out x show ?thesis by auto
  qed
  have "sorted_wrt (<) (?tw @ ?dw)" using sf by simp
  then have td: "x < y" if "x \<in> set ?tw" "y \<in> set ?dw" for x y
    unfolding sorted_wrt_append using that by blast
  have tr: "x < y" if "x \<in> set ?tw" "y \<in> set ?run" for x y
    using t [OF that(1)] run_bounds(1) [OF that(2)] by simp
  have rd: "x < y" if "x \<in> set ?run" "y \<in> set ?dw" for x y
    using d [OF that(2)] run_bounds(2) [OF that(1)] by simp
  show ?thesis
    unfolding insert_run_def hd0_chunk_seq [OF k] sorted_wrt_append
    using s1 s2 s3 td tr rd by auto
qed

lemma free_outside_run:
  assumes ok: "list_all (block_ok ps) bs" and so: "sorted_wrt block_before bs" and ps: "0 < ps"
    and b: "b \<in> set bs" and k: "0 < k"
    and run: "set (chunk_seq a k ps) \<subseteq> set (chunks_of ps b)"
    and x: "in_blocks ps bs x" "x \<notin> set (chunk_seq a k ps)"
  shows "x < a \<or> a + (k - 1) * ps < x"
proof -
  let ?l = "a + (k - 1) * ps"
  from x(1) obtain c where c: "c \<in> set bs" "x \<in> set (chunks_of ps c)"
    by (auto simp: in_blocks_iff)
  from ok b c have okb: "block_ok ps b" and okc: "block_ok ps c" by (auto simp: list_all_iff)
  have "a \<in> set (chunk_seq a k ps)" using k by (auto simp: set_chunk_seq intro: exI [of _ 0])
  with run have ab: "a \<in> set (chunks_of ps b)" by blast
  have "?l \<in> set (chunk_seq a k ps)" using k by (auto simp: set_chunk_seq intro: exI [of _ "k - 1"])
  with run have lb: "?l \<in> set (chunks_of ps b)" by blast
  show ?thesis
  proof (cases "c = b")
    case True
    from c(2) True obtain j where j: "x = ptr b + j * ps" by (auto simp: chunks_of_def set_chunk_seq)
    from ab obtain i where i: "a = ptr b + i * ps" by (auto simp: chunks_of_def set_chunk_seq)
    show ?thesis
    proof (rule ccontr)
      assume "\<not> (x < a \<or> ?l < x)"
      then have 1: "a \<le> x" "x \<le> ?l" by simp_all
      from 1(1) have "i * ps \<le> j * ps" by (simp add: i j)
      with ps have ij: "i \<le> j" by simp
      from 1(2) have "j * ps \<le> (i + (k - 1)) * ps" by (simp add: i j add_mult_distrib)
      with ps have "j \<le> i + (k - 1)" by simp
      with ij k have "j - i < k" by simp
      moreover have "x = a + (j - i) * ps" using ij by (simp add: i j diff_mult_distrib add.assoc [symmetric])
      ultimately have "x \<in> set (chunk_seq a k ps)" by (auto simp: set_chunk_seq)
      with x(2) show False by simp
    qed
  next
    case False
    from sorted_blocks_cases [OF so c(1) b False] show ?thesis
    proof
      assume bb: "block_before c b"
      have "within c x" using okc ps c(2) by (rule chunks_of_within(3))
      from within_disjoint(2) [OF bb this] have "x < ptr b" .
      moreover have "ptr b \<le> a" using okb ps ab by (rule chunks_of_within(1))
      ultimately show ?thesis by simp
    next
      assume bb: "block_before b c"
      have "within b ?l" using okb ps lb by (rule chunks_of_within(3))
      from within_disjoint(2) [OF bb this] have "?l < ptr c" .
      moreover have "ptr c \<le> x" using okc ps c(2) by (rule chunks_of_within(1))
      ultimately show ?thesis by simp
    qed
  qed
qed

lemma add_run_inv:
  fixes nsz psw :: size_type
  assumes ok: "list_all (block_ok (unat psw)) bs" and so: "sorted_wrt block_before bs"
    and ps: "0 < unat psw"
    and fl: "free_list s fs" and sf: "sorted_wrt (<) fs"
    and c: "list_all (in_blocks (unat psw) bs) fs"
    and b: "b \<in> set bs" and k: "0 < k"
    and run: "set (chunk_seq a k (unat psw)) \<subseteq> set (chunks_of (unat psw) b)"
    and nf: "set (chunk_seq a k (unat psw)) \<inter> set fs = {}"
    and szk: "unat nsz = k * unat psw"
  shows "\<exists>s'. add_ordered_block s a nsz psw = Some s' \<and>
     free_list s' (insert_run (chunk_seq a k (unat psw)) fs) \<and>
     sorted_wrt (<) (insert_run (chunk_seq a k (unat psw)) fs) \<and>
     list_all (in_blocks (unat psw) bs) (insert_run (chunk_seq a k (unat psw)) fs) \<and>
     (\<forall>c. \<not> in_blocks (unat psw) bs c \<longrightarrow> mem s' c = mem s c)"
proof -
  let ?ps = "unat psw"
  let ?run = "chunk_seq a k ?ps"
  have nz: "psw \<noteq> 0" using ps by (simp add: unat_gt_0)
  have okb: "block_ok ?ps b" using ok b by (auto simp: list_all_iff)
  have "a \<in> set ?run" using k by (auto simp: set_chunk_seq intro: exI [of _ 0])
  with run have "a \<in> set (chunks_of ?ps b)" by blast
  from chunks_of_within(4) [OF okb ps this] have a0: "a \<noteq> 0" .
  have out: "\<forall>x\<in>set fs. x < a \<or> a + (k - 1) * ?ps < x"
  proof
    fix x assume x: "x \<in> set fs"
    with c have "in_blocks ?ps bs x" by (auto simp: list_all_iff)
    moreover from x nf have "x \<notin> set ?run" by blast
    ultimately show "x < a \<or> a + (k - 1) * ?ps < x"
      by (rule free_outside_run [OF ok so ps b k run])
  qed
  from add_ordered_block_insert [OF fl nz k szk a0 out] obtain s' where
    1: "add_ordered_block s a nsz psw = Some s'"
    and 2: "free_list s' (takeWhile (\<lambda>x. x \<le> a) fs @ ?run @ dropWhile (\<lambda>x. x \<le> a) fs)"
    and 3: "\<forall>c. c \<notin> set ?run \<and> c \<notin> set fs \<longrightarrow> mem s' c = mem s c" by blast
  have 2: "free_list s' (insert_run ?run fs)"
    using 2 by (simp add: insert_run_def hd0_chunk_seq [OF k])
  have 4: "sorted_wrt (<) (insert_run ?run fs)" using sf ps k out by (rule sorted_insert_run)
  have inr: "in_blocks ?ps bs x" if "x \<in> set ?run" for x
    using that run b by (auto simp: in_blocks_iff)
  have 5: "list_all (in_blocks ?ps bs) (insert_run ?run fs)"
    using c inr by (auto simp: list_all_iff)
  have 6: "\<forall>c. \<not> in_blocks ?ps bs c \<longrightarrow> mem s' c = mem s c"
  proof (intro allI impI)
    fix x assume "\<not> in_blocks ?ps bs x"
    with inr c have "x \<notin> set ?run \<and> x \<notin> set fs" by (auto simp: list_all_iff)
    with 3 show "mem s' x = mem s x" by simp
  qed
  from 1 2 4 5 6 show ?thesis by blast
qed

lemma unat_mult_small:
  fixes x y :: size_type
  assumes "unat x * unat y < 2 ^ 64"
  shows "unat (x * y) = unat x * unat y"
  using assms by (intro unat_mult_lem [THEN iffD1]) simp

lemma run_in_block_size:
  assumes okb: "block_ok ps b" and ps: "0 < ps" and k: "0 < k"
    and run: "set (chunk_seq a k ps) \<subseteq> set (chunks_of ps b)"
  shows "k * ps \<le> chunk_count ps b * ps"
proof -
  have "a \<in> set (chunk_seq a k ps)" using k by (auto simp: set_chunk_seq intro: exI [of _ 0])
  with run have "a \<in> set (chunks_of ps b)" by blast
  then obtain i where i: "a = ptr b + i * ps"
    unfolding chunks_of_def set_chunk_seq by blast
  have "a + (k - 1) * ps \<in> set (chunk_seq a k ps)"
    using k by (auto simp: set_chunk_seq intro: exI [of _ "k - 1"])
  with run have "a + (k - 1) * ps \<in> set (chunks_of ps b)" by blast
  then obtain j where j: "a + (k - 1) * ps = ptr b + j * ps" "j < chunk_count ps b"
    unfolding chunks_of_def set_chunk_seq by blast
  from j(1) have "(i + (k - 1)) * ps = j * ps" by (simp add: i add_mult_distrib)
  with ps have "i + (k - 1) = j" by simp
  with j(2) k have "k \<le> chunk_count ps b" by simp
  then show ?thesis by (rule mult_le_mono1)
qed

lemma ordered_deallocate_n_inv:
  assumes inv: "pool_inv p psw bs fs"
    and nc: "num_chunks p n = Some nc"
    and b: "b \<in> set bs"
    and run: "set (chunk_seq a (unat nc) (unat psw)) \<subseteq> set (chunks_of (unat psw) b)"
    and nf: "set (chunk_seq a (unat nc) (unat psw)) \<inter> set fs = {}"
  shows "\<exists>p'. pool_ordered_deallocate_n p a n = Some p' \<and>
           pool_inv p' psw bs (insert_run (chunk_seq a (unat nc) (unat psw)) fs) \<and>
           next_size p' = next_size p \<and> same_parameters p p'"
proof -
  let ?ps = "unat psw" and ?k = "unat nc"
  let ?run = "chunk_seq a ?k ?ps"
  note d = pool_inv_D [OF inv]
  from nc d(1) have fc: "fast_ceil_division (n * requested_size p) psw = Some nc"
    by (simp add: num_chunks_def)
  show ?thesis
  proof (cases "nc = 0")
    case True
    then have "pool_ordered_deallocate_n p a n = Some p"
      using d(1) fc by (simp add: pool_ordered_deallocate_n_def ordered_deallocate_n_def)
    with True inv show ?thesis by (simp add: same_parameters_def)
  next
    case False
    then have k: "0 < ?k" by (simp add: unat_gt_0)
    have okb: "block_ok ?ps b" using d(4) b by (auto simp: list_all_iff)
    have "?k * ?ps \<le> chunk_count ?ps b * ?ps" using okb d(8) k run by (rule run_in_block_size)
    also have "\<dots> = unat (element_size b)" using block_ok_geometry(1) [OF okb d(8)] by simp
    also have "\<dots> < 2 ^ 64" using unsigned_less [of "element_size b", where 'a = nat] by simp
    finally have szk: "unat (nc * psw) = ?k * ?ps" by (rule unat_mult_small)
    from add_run_inv [OF d(4) d(5) d(8) d(3) d(6) d(7) b k run nf szk] obtain p' where
      r: "add_ordered_block p a (nc * psw) psw = Some p' \<and>
        free_list p' (insert_run ?run fs) \<and>
        sorted_wrt (<) (insert_run ?run fs) \<and>
        list_all (in_blocks ?ps bs) (insert_run ?run fs) \<and>
        (\<forall>c. \<not> in_blocks ?ps bs c \<longrightarrow> mem p' c = mem p c)" ..
    note 1 = r [THEN conjunct1] and 2 = r [THEN conjunct2, THEN conjunct1]
      and 3 = r [THEN conjunct2, THEN conjunct2, THEN conjunct1]
      and 4 = r [THEN conjunct2, THEN conjunct2, THEN conjunct2, THEN conjunct1]
      and 5 = r [THEN conjunct2, THEN conjunct2, THEN conjunct2, THEN conjunct2]
    from add_ordered_block_frame [OF 1] have sf: "storage_frame p p'" .
    have run': "pool_ordered_deallocate_n p a n = Some p'"
      using d(1) fc False 1 by (simp add: pool_ordered_deallocate_n_def ordered_deallocate_n_def)
    have "block_path (mem p') (list p) bs"
    proof (rule block_path_chunks_frame [OF d(2) d(4) d(5) d(8)])
      fix c assume "\<not> in_blocks ?ps bs c"
      with 5 show "mem p' c = mem p c" by simp
    qed
    moreover have "alloc_size p' = Some psw"
      using d(1) sf by (simp add: alloc_size_def storage_frame_def)
    ultimately have "pool_inv p' psw bs (insert_run ?run fs)"
      using 2 3 4 d sf by (simp add: pool_inv_def storage_frame_def)
    with run' sf show ?thesis by (simp add: storage_frame_def same_parameters_def)
  qed
qed

section \<open>Sizes of a new block\<close>

lemma alloc_size_min: "alloc_size p = Some psw \<Longrightarrow> 8 \<le> unat psw"
  by (auto simp: alloc_size_def Let_def min_alloc_size_def word_le_nat_alt split: if_splits)

lemma block_bytes_unat:
  assumes "block_fits c psw"
  shows "unat (block_bytes c psw) = unat c * unat psw + 16"
    and "unat (c * psw) = unat c * unat psw"
proof -
  from assms have lt: "unat c * unat psw + 16 < 2 ^ 64" by (simp add: block_fits_def)
  then show m: "unat (c * psw) = unat c * unat psw" by (intro unat_mult_small) simp
  have "unat (c * psw + 16) = unat (c * psw) + unat (16::size_type)"
    using lt m by (intro unat_add_lem [THEN iffD1]) simp
  then show "unat (block_bytes c psw) = unat c * unat psw + 16"
    using m by (simp add: block_bytes_def min_alloc_size_def sizeof_size_type_def add.assoc)
qed

lemma new_block_ok:
  assumes fits: "block_fits c psw" and c: "c \<noteq> 0" and ps: "0 < unat psw" and a: "a \<noteq> 0"
  shows "block_ok (unat psw) \<lparr>ptr = a, sz = block_bytes c psw\<rparr>"
    and "chunk_count (unat psw) \<lparr>ptr = a, sz = block_bytes c psw\<rparr> = unat c"
    and "element_size \<lparr>ptr = a, sz = block_bytes c psw\<rparr> = c * psw"
proof -
  let ?node = "\<lparr>ptr = a, sz = block_bytes c psw\<rparr>"
  show e: "element_size ?node = c * psw"
    by (simp add: element_size_def block_bytes_def min_alloc_size_def sizeof_size_type_def)
  show n: "chunk_count (unat psw) ?node = unat c"
    using ps by (simp add: chunk_count_def e block_bytes_unat(2) [OF fits])
  have "0 < unat c" using c by (simp add: unat_gt_0)
  then show "block_ok (unat psw) ?node"
    using a by (simp add: block_ok_def n valid_def block_bytes_unat(1) [OF fits])
qed

lemma block_fits_mono:
  assumes "block_fits c psw" and "c' \<le> c"
  shows "block_fits c' psw"
proof -
  from assms(2) have "unat c' \<le> unat c" by (simp add: word_le_nat_alt)
  then have "unat c' * unat psw \<le> unat c * unat psw" by (rule mult_le_mono1)
  moreover from assms(1) have "unat c * unat psw + 16 < 2 ^ 64" by (simp only: block_fits_def)
  ultimately have "unat c' * unat psw + 16 < 2 ^ 64" by linarith
  then show ?thesis by (simp only: block_fits_def)
qed

lemma unat_drop_bit_1: "unat (drop_bit 1 (c::size_type)) = unat c div 2"
  by (simp add: drop_bit_eq_div unat_div)

lemma drop_bit_1_le: "drop_bit 1 (c::size_type) \<le> c"
  unfolding word_le_nat_alt unat_drop_bit_1 by simp

lemma drop_bit_1_nonzero: "4 < (c::size_type) \<Longrightarrow> drop_bit 1 c \<noteq> 0"
proof -
  assume "4 < c"
  then have "4 < unat c" by (simp add: word_less_nat_alt)
  then have "0 < unat c div 2" by simp
  then have "unat (drop_bit 1 c) \<noteq> 0" unfolding unat_drop_bit_1 by simp
  then show ?thesis unfolding unat_eq_0 .
qed

lemma grown_nonzero:
  assumes c: "c \<noteq> 0" and fits: "block_fits c psw" and ps: "2 \<le> unat psw"
    and rs: "requested_size p \<noteq> 0"
    and mr: "unat (max_size p) * unat (requested_size p) < 2 ^ 64"
  shows "grown p psw c \<noteq> 0"
proof -
  have c0: "0 < unat c" using c by (simp add: unat_gt_0)
  from fits have lt: "unat c * unat psw + 16 < 2 ^ 64" by (simp add: block_fits_def)
  have "2 * unat c \<le> unat psw * unat c" using ps by (rule mult_le_mono1)
  then have "2 * unat c \<le> unat c * unat psw" by (simp only: mult.commute)
  with lt have "2 * unat c < 2 ^ 64" by linarith
  then have "unat (2::size_type) * unat c < 2 ^ 64" by simp
  then have "unat (2 * c) = unat (2::size_type) * unat c" by (rule unat_mult_small)
  with c0 have two: "2 * c \<noteq> 0" by (simp add: unat_eq_0 [symmetric] del: unat_eq_0)
  have lim: "max_size p * requested_size p div psw \<noteq> 0"
    if g: "c * psw div requested_size p < max_size p"
  proof -
    have r0: "0 < unat (requested_size p)" using rs by (simp add: unat_gt_0)
    from g have "unat (c * psw) div unat (requested_size p) < unat (max_size p)"
      by (simp add: word_less_nat_alt unat_div)
    then have "unat c * unat psw < unat (max_size p) * unat (requested_size p)"
      using r0 by (simp add: block_bytes_unat(2) [OF fits] div_less_iff_less_mult)
    moreover have "unat psw \<le> unat c * unat psw" using c0 by simp
    ultimately have "unat psw \<le> unat (max_size p) * unat (requested_size p)" by linarith
    then have "unat psw \<le> unat (max_size p * requested_size p)"
      by (simp only: unat_mult_small [OF mr])
    moreover have "0 < unat psw" using ps by simp
    ultimately have "0 < unat (max_size p * requested_size p) div unat psw"
      by (simp add: div_greater_zero_iff)
    then have "unat (max_size p * requested_size p div psw) \<noteq> 0" by (simp add: unat_div)
    then show ?thesis by (simp add: unat_eq_0)
  qed
  show ?thesis using two lim c by (auto simp: grown_def min_def)
qed

section \<open>Taking a new block into the pool\<close>

lemma block_path_unique: "block_path m l as \<Longrightarrow> block_path m l bs \<Longrightarrow> as = bs"
proof (induction as arbitrary: l bs)
  case Nil
  then show ?case by (cases bs) auto
next
  case (Cons a as)
  then show ?case by (cases bs) auto
qed

lemma in_blocks_insert_block:
  "in_blocks ps (insert_block node bs) c \<longleftrightarrow> c \<in> set (chunks_of ps node) \<or> in_blocks ps bs c"
  by (auto simp: in_blocks_iff)

lemma add_run_new_block:
  fixes nsz psw :: size_type
  assumes inv: "pool_inv q psw bs fs"
    and okn: "block_ok (unat psw) node"
    and fresh: "list_all (\<lambda>b. block_before b node \<or> block_before node b) bs"
    and k: "0 < k"
    and run: "set (chunk_seq a k (unat psw)) \<subseteq> set (chunks_of (unat psw) node)"
    and szk: "unat nsz = k * unat psw"
  shows "\<exists>q1. add_ordered_block q a nsz psw = Some q1 \<and> storage_frame q q1 \<and>
     block_path (mem q1) (list q1) bs \<and>
     free_list q1 (insert_run (chunk_seq a k (unat psw)) fs) \<and>
     sorted_wrt (<) (insert_run (chunk_seq a k (unat psw)) fs) \<and>
     list_all (in_blocks (unat psw) (insert_block node bs))
       (insert_run (chunk_seq a k (unat psw)) fs)"
proof -
  let ?ps = "unat psw"
  let ?run = "chunk_seq a k ?ps"
  let ?all = "insert_block node bs"
  note d = pool_inv_D [OF inv]
  note soa = sorted_insert_block(1) [OF d(4) d(5) okn fresh]
  note oka = sorted_insert_block(2) [OF d(4) d(5) okn fresh]
  have da: "distinct ?all" using oka soa by (rule sorted_blocks_distinct)
  have node_new: "node \<notin> set bs"
  proof
    assume "node \<in> set bs"
    then have "node \<in> set (takeWhile (\<lambda>b. ptr b \<le> ptr node) bs) \<union>
        set (dropWhile (\<lambda>b. ptr b \<le> ptr node) bs)" by (metis set_append takeWhile_dropWhile_id)
    with da show False by (auto simp: insert_block_def)
  qed
  have ca: "list_all (in_blocks ?ps ?all) fs"
    using d(7) by (auto simp: list_all_iff in_blocks_insert_block)
  have nf: "set ?run \<inter> set fs = {}"
  proof -
    have "f \<notin> set (chunks_of ?ps node)" if "f \<in> set fs" for f
    proof -
      from that d(7) obtain b where b: "b \<in> set bs" "f \<in> set (chunks_of ?ps b)"
        by (auto simp: list_all_iff in_blocks_iff)
      with node_new have "b \<noteq> node" by auto
      from chunks_disjoint [OF oka soa d(8) _ _ this b(2)] b(1) show ?thesis by simp
    qed
    with run show ?thesis by blast
  qed
  have nin: "node \<in> set ?all" by simp
  from add_run_inv [OF oka soa d(8) d(3) d(6) ca nin k run nf szk] obtain q1 where
    r: "add_ordered_block q a nsz psw = Some q1 \<and>
      free_list q1 (insert_run ?run fs) \<and>
      sorted_wrt (<) (insert_run ?run fs) \<and>
      list_all (in_blocks ?ps ?all) (insert_run ?run fs) \<and>
      (\<forall>c. \<not> in_blocks ?ps ?all c \<longrightarrow> mem q1 c = mem q c)" ..
  note 1 = r [THEN conjunct1] and 2 = r [THEN conjunct2, THEN conjunct1]
    and 3 = r [THEN conjunct2, THEN conjunct2, THEN conjunct1]
    and 4 = r [THEN conjunct2, THEN conjunct2, THEN conjunct2, THEN conjunct1]
    and 5 = r [THEN conjunct2, THEN conjunct2, THEN conjunct2, THEN conjunct2]
  from add_ordered_block_frame [OF 1] have sf: "storage_frame q q1" .
  have "block_path (mem q1) (list q) bs \<longleftrightarrow> block_path (mem q) (list q) bs"
  proof (rule block_path_cong)
    fix b assume "b \<in> set bs"
    then have "b \<in> set ?all" by simp
    from trailer_not_chunk [OF oka soa d(8) this] 5
    show "mem q1 (ptr_next_ptr b) = mem q (ptr_next_ptr b) \<and>
        mem q1 (ptr_next_size b) = mem q (ptr_next_size b)" by simp
  qed
  with d(2) sf have "block_path (mem q1) (list q1) bs" by (simp add: storage_frame_def)
  with 1 2 3 4 sf show ?thesis by simp
qed

lemma insert_block_inv:
  assumes a: "alloc_size q = Some psw"
    and bp: "block_path (mem q) (list q) bs" and fl: "free_list q fs"
    and sf: "sorted_wrt (<) fs"
    and c: "list_all (in_blocks (unat psw) (insert_block node bs)) fs"
    and ok: "list_all (block_ok (unat psw)) bs" and so: "sorted_wrt block_before bs"
    and okn: "block_ok (unat psw) node"
    and fresh: "list_all (\<lambda>b. block_before b node \<or> block_before node b) bs"
  shows "\<exists>q'. insert_ordered q node = Some q' \<and> pool_inv q' psw (insert_block node bs) fs \<and>
     next_size q' = next_size q \<and> sys q' = sys q \<and> same_parameters q q'"
proof -
  let ?ps = "unat psw"
  let ?all = "insert_block node bs"
  have ps: "0 < ?ps" using alloc_size_nonzero [OF a] by (simp add: unat_gt_0)
  note soa = sorted_insert_block(1) [OF ok so okn fresh]
  note oka = sorted_insert_block(2) [OF ok so okn fresh]
  from insert_ordered_result [OF bp ok so ps okn fresh] obtain q' where
    r: "insert_ordered q node = Some q' \<and>
     block_path (mem q') (list q') ?all \<and>
     (\<forall>c. (\<forall>b\<in>set (node # bs). c \<noteq> ptr_next_ptr b \<and> c \<noteq> ptr_next_size b) \<longrightarrow>
          mem q' c = mem q c) \<and>
     first q' = first q \<and> next_size q' = next_size q \<and> sys q' = sys q \<and>
     same_parameters q q'" ..
  note 1 = r [THEN conjunct1] and 2 = r [THEN conjunct2, THEN conjunct1]
    and 3 = r [THEN conjunct2, THEN conjunct2, THEN conjunct1]
    and 4 = r [THEN conjunct2, THEN conjunct2, THEN conjunct2]
  have "path (mem q') (first q) fs 0"
  proof (rule path_trailers_frame [OF fl [unfolded free_list_def] c])
    fix x assume "in_blocks ?ps ?all x"
    then obtain b' where b': "b' \<in> set ?all" "x \<in> set (chunks_of ?ps b')"
      by (auto simp: in_blocks_iff simp del: set_insert_block)
    have "\<forall>b\<in>set (node # bs). x \<noteq> ptr_next_ptr b \<and> x \<noteq> ptr_next_size b"
    proof
      fix b assume "b \<in> set (node # bs)"
      then have "b \<in> set ?all" by simp
      from chunk_not_trailer [OF oka soa ps this b']
      show "x \<noteq> ptr_next_ptr b \<and> x \<noteq> ptr_next_size b" by simp
    qed
    with 3 show "mem q' x = mem q x" by simp
  qed
  with 4 have fl': "free_list q' fs" by (simp add: free_list_def)
  have "alloc_size q' = Some psw" using a 4 by (simp add: alloc_size_def same_parameters_def)
  with 2 fl' oka soa sf c have "pool_inv q' psw ?all fs" by (simp add: pool_inv_def)
  with 1 4 show ?thesis by simp
qed

section \<open>ordered\_allocate\<close>

lemma pool_inv_cong:
  assumes "mem q = mem p" and "first q = first p" and "list q = list p"
    and "requested_size q = requested_size p"
  shows "pool_inv q psw bs fs \<longleftrightarrow> pool_inv p psw bs fs"
  using assms by (simp add: pool_inv_def alloc_size_def free_list_def)

lemma sizes_ok_cong:
  assumes "same_parameters p q" and "next_size q \<noteq> 0" and "sizes_ok p"
  shows "sizes_ok q"
  using assms by (simp add: sizes_ok_def same_parameters_def)

lemma request_block_shape:
  assumes "alloc_size p = Some psw"
  shows "\<exists>a q. request_block p = Some (a, q) \<and> mem q = mem p \<and> first q = first p \<and>
     list q = list p \<and> same_parameters p q \<and>
     (next_size q = next_size p \<or> 4 < next_size p \<and> next_size q = drop_bit 1 (next_size p))"
  unfolding request_block_result [OF assms]
  by (simp add: same_parameters_def)

lemma grow_next_size_total:
  assumes "requested_size q \<noteq> 0" and "psw \<noteq> 0"
  shows "grow_next_size q psw = Some (q\<lparr>next_size := grown q psw (next_size q)\<rparr>)"
proof -
  from assms have "grow_next_size q psw \<noteq> None"
    by (simp add: grow_next_size_def)
  then obtain q' where "grow_next_size q psw = Some q'" by blast
  with grow_next_size_Some [OF this] show ?thesis by simp
qed

lemma allocate_pop_inv:
  assumes inv: "pool_inv p psw bs (x # xs)"
  shows "\<exists>p'. allocate p = Some (x, p') \<and> pool_inv p' psw bs xs \<and>
           next_size p' = next_size p \<and> same_parameters p p'"
proof -
  note d = pool_inv_D [OF inv]
  let ?p' = "p\<lparr>first := nextof (mem p) x\<rparr>"
  have "allocate p = Some (x, ?p')" using d(3) by (rule allocate_pop(1))
  moreover have "free_list ?p' xs" using d(3) by (rule allocate_pop(2))
  then have "pool_inv ?p' psw bs xs" using d by (simp add: pool_inv_def)
  ultimately show ?thesis by (simp add: same_parameters_def)
qed

lemma fresh_blocks:
  assumes "fresh p node" and "block_path (mem p) (list p) bs"
  shows "list_all (\<lambda>b. block_before b node \<or> block_before node b) bs"
proof -
  from assms(1) obtain bs' where 1: "block_path (mem p) (list p) bs'"
    and 2: "list_all (\<lambda>b. block_before b node \<or> block_before node b) bs'"
    unfolding fresh_def by blast
  from block_path_unique [OF 1 assms(2)] 2 show ?thesis by simp
qed

lemma ordered_allocate_grow_inv:
  assumes inv: "pool_inv p psw bs []" and sz: "sizes_ok p"
    and fits: "block_fits (next_size p) psw"
    and rf: "request_fresh p (request_block p)"
  shows "\<exists>r p' bs' fs'. ordered_allocate p = Some (r, p') \<and> pool_inv p' psw bs' fs' \<and>
           sizes_ok p'"
proof -
  let ?ps = "unat psw"
  note d = pool_inv_D [OF inv]
  from d(3) have f0: "first p = 0" by (simp add: free_list_def)
  have psz: "psw \<noteq> 0" using d(1) by (rule alloc_size_nonzero)
  from request_block_shape [OF d(1)] obtain a q where
    rb: "request_block p = Some (a, q)" and mq: "mem q = mem p" and fq: "first q = first p"
    and lq: "list q = list p" and sq: "same_parameters p q"
    and nq: "next_size q = next_size p \<or> 4 < next_size p \<and> next_size q = drop_bit 1 (next_size p)"
    by blast
  have rq: "requested_size q = requested_size p" using sq by (simp add: same_parameters_def)
  have invq: "pool_inv q psw bs []" using inv by (simp add: pool_inv_cong [OF mq fq lq rq])
  have aq: "alloc_size q = Some psw" using invq by (rule pool_inv_D(1))
  have cq: "next_size q \<noteq> 0"
    using nq sz drop_bit_1_nonzero [of "next_size p"] by (auto simp: sizes_ok_def)
  have fitq: "block_fits (next_size q) psw"
    using nq fits block_fits_mono [OF fits drop_bit_1_le [of "next_size p"]] by auto
  have szq: "sizes_ok q" using sq cq sz by (rule sizes_ok_cong)
  have oa: "ordered_allocate p = ordered_allocate_need_resize p"
    using f0 by (simp add: ordered_allocate_def empty_def)
  show ?thesis
  proof (cases "a = 0")
    case True
    then have "ordered_allocate p = Some (0, q)"
      using d(1) rb by (simp add: oa ordered_allocate_need_resize_def)
    with invq szq show ?thesis by blast
  next
    case False
    let ?c = "next_size q"
    let ?node = "\<lparr>ptr = a, sz = block_bytes ?c psw\<rparr>"
    let ?all = "insert_block ?node bs"
    have pz: "pod_size q = Some (block_bytes ?c psw)" using aq by (rule pod_size_eq)
    note nb = new_block_ok [OF fitq cq d(8) False]
    from rf rb False pz have "fresh p ?node" by (simp add: request_fresh_def)
    then have fresh: "list_all (\<lambda>b. block_before b ?node \<or> block_before ?node b) bs"
      using d(2) by (rule fresh_blocks)
    let ?q2 = "q\<lparr>next_size := grown q psw ?c\<rparr>"
    have rs: "requested_size q \<noteq> 0" using szq by (simp add: sizes_ok_def)
    have gr: "grow_next_size q psw = Some ?q2" using rs psz by (rule grow_next_size_total)
    have inv2: "pool_inv ?q2 psw bs []" using invq by (simp add: pool_inv_cong [of ?q2 q])
    let ?k = "unat ?c"
    have k: "0 < ?k" using cq by (simp add: unat_gt_0)
    have run_eq: "chunk_seq a ?k ?ps = chunks_of ?ps ?node" by (simp add: chunks_of_def nb(2))
    have run: "set (chunk_seq a ?k ?ps) \<subseteq> set (chunks_of ?ps ?node)" by (simp add: run_eq)
    have szk: "unat (element_size ?node) = ?k * ?ps"
      by (simp add: nb(3) block_bytes_unat(2) [OF fitq])
    from add_run_new_block [OF inv2 nb(1) fresh k run szk] obtain q3 where
      r: "add_ordered_block ?q2 a (element_size ?node) psw = Some q3 \<and> storage_frame ?q2 q3 \<and>
       block_path (mem q3) (list q3) bs \<and>
       free_list q3 (insert_run (chunk_seq a ?k ?ps) []) \<and>
       sorted_wrt (<) (insert_run (chunk_seq a ?k ?ps) []) \<and>
       list_all (in_blocks ?ps ?all) (insert_run (chunk_seq a ?k ?ps) [])" ..
    note 1 = r [THEN conjunct1] and 2 = r [THEN conjunct2, THEN conjunct1]
      and 3 = r [THEN conjunct2, THEN conjunct2, THEN conjunct1]
      and 4 = r [THEN conjunct2, THEN conjunct2, THEN conjunct2, THEN conjunct1]
      and 5 = r [THEN conjunct2, THEN conjunct2, THEN conjunct2, THEN conjunct2, THEN conjunct1]
      and 6 = r [THEN conjunct2, THEN conjunct2, THEN conjunct2, THEN conjunct2, THEN conjunct2]
    have ir: "insert_run (chunk_seq a ?k ?ps) [] = chunk_seq a ?k ?ps"
      by (simp add: insert_run_def)
    have a3: "alloc_size q3 = Some psw"
      using aq 2 by (simp add: alloc_size_def storage_frame_def)
    from insert_block_inv [OF a3 3 4 [unfolded ir] 5 [unfolded ir] 6 [unfolded ir] d(4) d(5) nb(1) fresh]
    obtain q4 where i1: "insert_ordered q3 ?node = Some q4"
      and i2: "pool_inv q4 psw ?all (chunk_seq a ?k ?ps)"
      and i3: "next_size q4 = next_size q3" and i4: "same_parameters q3 q4" by blast
    obtain k' where k': "?k = Suc k'" using k by (cases ?k) auto
    have cs: "chunk_seq a ?k ?ps = a # chunk_seq (a + ?ps) k' ?ps"
      by (simp add: k' chunk_seq_Suc)
    from allocate_pop_inv [OF i2 [unfolded cs]] obtain p' where
      al: "allocate q4 = Some (a, p')" and pi: "pool_inv p' psw ?all (chunk_seq (a + ?ps) k' ?ps)"
      and n5: "next_size p' = next_size q4" and s5: "same_parameters q4 p'" by blast
    have run': "ordered_allocate p = Some (a, p')"
      using d(1) rb False pz gr 1 i1 al
      by (simp add: oa ordered_allocate_need_resize_def Let_def)
    have "next_size p' = grown q psw ?c" using n5 i3 2 by (simp add: storage_frame_def)
    moreover have "grown q psw ?c \<noteq> 0"
    proof (rule grown_nonzero [OF cq fitq _ rs])
      show "2 \<le> ?ps" using alloc_size_min [OF d(1)] by simp
      show "unat (max_size q) * unat (requested_size q) < 2 ^ 64"
        using szq by (simp add: sizes_ok_def)
    qed
    moreover have "same_parameters p p'"
      using sq 2 i4 s5 by (simp add: same_parameters_def storage_frame_def)
    ultimately have "sizes_ok p'" using sz by (intro sizes_ok_cong [of p p']) simp_all
    with run' pi show ?thesis by blast
  qed
qed

section \<open>ordered\_allocate(n)\<close>

lemma request_block_n_shape:
  assumes "alloc_size p = Some psw"
  shows "\<exists>a q. request_block_n p nc = Some (a, q) \<and> mem q = mem p \<and> first q = first p \<and>
     list q = list p \<and> same_parameters p q \<and>
     nc \<le> next_size q \<and> next_size q \<le> max (next_size p) nc"
proof -
  have "max (drop_bit 1 (max (next_size p) nc)) nc \<le> max (next_size p) nc"
    by (rule max.boundedI [OF drop_bit_1_le max.cobounded2])
  then show ?thesis
    unfolding request_block_n_result [OF assms]
    by (simp add: same_parameters_def)
qed

lemma fast_ceil_division_nonzero:
  assumes x: "x \<noteq> 0" and y: "2 \<le> unat y" and fc: "fast_ceil_division x y = Some c"
  shows "c \<noteq> 0"
proof (cases "x mod y = 0")
  case True
  with fc y have c: "c = x div y" by (auto simp: fast_ceil_division_def split: if_splits)
  have "x = x div y * y" using True by (metis add.right_neutral div_mult_mod_eq)
  with x c show ?thesis by auto
next
  case False
  with fc y have c: "c = x div y + 1" by (auto simp: fast_ceil_division_def split: if_splits)
  have "unat (x div y) = unat x div unat y" by (rule unat_div)
  also have "\<dots> \<le> unat x div 2" using y by (intro div_le_mono2) simp_all
  also have "\<dots> < 2 ^ 64 - 1" using unsigned_less [of x, where 'a = nat] by simp
  finally have "unat (x div y) + unat (1::size_type) < 2 ^ 64" by simp
  then have "unat (x div y + 1) = unat (x div y) + unat (1::size_type)"
    by (intro unat_add_lem [THEN iffD1]) simp
  then have "unat c \<noteq> 0" by (simp add: c)
  then show ?thesis unfolding unat_eq_0 .
qed

lemma sorted_wrt_remove_middle:
  "sorted_wrt P (as @ bs @ cs) \<Longrightarrow> sorted_wrt P (as @ cs)"
  by (auto simp: sorted_wrt_append)

lemma allocate_n_inv:
  assumes inv: "pool_inv p psw bs fs" and nc: "nc \<noteq> 0"
    and tr: "take_run (unat nc) (unat psw) fs = Some (r, ys)"
  shows "\<exists>p'. allocate_n p nc psw = Some (r, p') \<and> r \<noteq> 0 \<and> pool_inv p' psw bs ys \<and>
     storage_frame p p'"
proof -
  let ?ps = "unat psw"
  note d = pool_inv_D [OF inv]
  from allocate_n_result [OF d(3) nc, of psw] tr obtain p' where
    r0: "r \<noteq> 0" and run: "allocate_n p nc psw = Some (r, p')" and fl: "free_list p' ys"
    and fr: "\<forall>a. a \<notin> set fs \<longrightarrow> mem p' a = mem p a" by auto
  from allocate_n_frame [OF run] have sf: "storage_frame p p'" .
  from take_run_Some [OF tr] obtain pre post where
    fs: "fs = pre @ chunk_seq r (unat nc) ?ps @ post" and ys: "ys = pre @ post" by blast
  have "block_path (mem p') (list p) bs"
  proof (rule block_path_chunks_frame [OF d(2) d(4) d(5) d(8)])
    fix c assume "\<not> in_blocks ?ps bs c"
    with d(7) have "c \<notin> set fs" by (auto simp: list_all_iff)
    with fr show "mem p' c = mem p c" by simp
  qed
  moreover have "sorted_wrt (<) ys"
    using d(6) unfolding fs ys by (rule sorted_wrt_remove_middle)
  moreover have "list_all (in_blocks ?ps bs) ys" using d(7) by (auto simp: fs ys)
  moreover have "alloc_size p' = Some psw"
    using d(1) sf by (simp add: alloc_size_def storage_frame_def)
  ultimately have "pool_inv p' psw bs ys" using fl d sf by (simp add: pool_inv_def storage_frame_def)
  with run r0 sf show ?thesis by simp
qed


lemma remainder_run:
  assumes "kn \<le> kc"
  shows "set (chunk_seq (a + kn * ps) (kc - kn) ps) \<subseteq> set (chunk_seq a kc ps)"
proof
  fix x assume "x \<in> set (chunk_seq (a + kn * ps) (kc - kn) ps)"
  then obtain i where i: "i < kc - kn" "x = a + kn * ps + i * ps" by (auto simp: set_chunk_seq)
  then have "x = a + (kn + i) * ps" "kn + i < kc" by (simp_all add: add_mult_distrib)
  then show "x \<in> set (chunk_seq a kc ps)" unfolding set_chunk_seq by blast
qed

lemma ordered_allocate_n_grow_inv:
  assumes inv: "pool_inv p psw bs fs" and sz: "sizes_ok p"
    and nc: "nc \<noteq> 0"
    and fits: "block_fits (max (next_size p) nc) psw"
    and rf: "request_fresh p (request_block_n p nc)"
  shows "\<exists>a q. request_block_n p nc = Some (a, q) \<and>
     (if a = 0 then pool_inv q psw bs fs \<and> sizes_ok q
      else \<exists>q2 q4 bs' fs'.
        (if next_size q > nc
         then add_ordered_block q (a + unat (nc * psw))
                (element_size \<lparr>ptr = a, sz = block_bytes (next_size q) psw\<rparr> - nc * psw) psw
         else Some q) = Some q2 \<and>
        pod_size q = Some (block_bytes (next_size q) psw) \<and>
        grow_next_size q2 psw = Some (q2\<lparr>next_size := grown q2 psw (next_size q2)\<rparr>) \<and>
        insert_ordered (q2\<lparr>next_size := grown q2 psw (next_size q2)\<rparr>)
          \<lparr>ptr = a, sz = block_bytes (next_size q) psw\<rparr> = Some q4 \<and>
        pool_inv q4 psw bs' fs' \<and> sizes_ok q4)"
proof -
  let ?ps = "unat psw"
  note d = pool_inv_D [OF inv]
  have psz: "psw \<noteq> 0" using d(1) by (rule alloc_size_nonzero)
  from request_block_n_shape [OF d(1), of nc] obtain a q where
    rb: "request_block_n p nc = Some (a, q)" and mq: "mem q = mem p" and fq: "first q = first p"
    and lq: "list q = list p" and sq: "same_parameters p q"
    and lo: "nc \<le> next_size q" and hi: "next_size q \<le> max (next_size p) nc"
    by blast
  have rq: "requested_size q = requested_size p" using sq by (simp add: same_parameters_def)
  have invq: "pool_inv q psw bs fs" using inv by (simp add: pool_inv_cong [OF mq fq lq rq])
  have aq: "alloc_size q = Some psw" using invq by (rule pool_inv_D(1))
  let ?c = "next_size q"
  have cq: "?c \<noteq> 0" using lo nc by auto
  have fitq: "block_fits ?c psw" using fits hi by (rule block_fits_mono)
  have fitn: "block_fits nc psw" using fitq lo by (rule block_fits_mono)
  have szq: "sizes_ok q" using sq cq sz by (rule sizes_ok_cong)
  have rs: "requested_size q \<noteq> 0" using szq by (simp add: sizes_ok_def)
  show ?thesis
  proof (cases "a = 0")
    case True
    with rb invq szq show ?thesis by simp
  next
    case False
    let ?node = "\<lparr>ptr = a, sz = block_bytes ?c psw\<rparr>"
    let ?all = "insert_block ?node bs"
    have pz: "pod_size q = Some (block_bytes ?c psw)" using aq by (rule pod_size_eq)
    note nb = new_block_ok [OF fitq cq d(8) False]
    from rf rb False pz have "fresh p ?node" by (simp add: request_fresh_def)
    then have fresh: "list_all (\<lambda>b. block_before b ?node \<or> block_before ?node b) bs"
      using d(2) by (rule fresh_blocks)
    note dq = pool_inv_D [OF invq]
    have "\<exists>q2 fs'. (if ?c > nc
         then add_ordered_block q (a + unat (nc * psw)) (element_size ?node - nc * psw) psw
         else Some q) = Some q2 \<and> storage_frame q q2 \<and>
        block_path (mem q2) (list q2) bs \<and> free_list q2 fs' \<and> sorted_wrt (<) fs' \<and>
        list_all (in_blocks ?ps ?all) fs'"
    proof (cases "?c > nc")
      case True
      let ?kn = "unat nc" and ?kc = "unat ?c"
      have lt: "?kn < ?kc" using True by (simp add: word_less_nat_alt)
      then have k: "0 < ?kc - ?kn" by simp
      have un: "unat (nc * psw) = ?kn * ?ps" using fitn by (rule block_bytes_unat(2))
      have uc: "unat (?c * psw) = ?kc * ?ps" using fitq by (rule block_bytes_unat(2))
      have "?kn * ?ps \<le> ?kc * ?ps" using lt by (intro mult_le_mono1) simp
      then have "nc * psw \<le> ?c * psw" by (simp add: word_le_nat_alt un uc)
      then have "unat (?c * psw - nc * psw) = unat (?c * psw) - unat (nc * psw)" by (rule unat_sub)
      then have szk: "unat (element_size ?node - nc * psw) = (?kc - ?kn) * ?ps"
        by (simp add: nb(3) un uc diff_mult_distrib)
      have run: "set (chunk_seq (a + unat (nc * psw)) (?kc - ?kn) ?ps) \<subseteq> set (chunks_of ?ps ?node)"
        unfolding un chunks_of_def nb(2) pod_ptr.simps
        by (rule remainder_run) (use lt in simp)
      from add_run_new_block [OF invq nb(1) fresh k run szk] True show ?thesis by auto
    next
      case False
      have "list_all (in_blocks ?ps ?all) fs"
        using dq(7) by (auto simp: list_all_iff in_blocks_insert_block)
      with False dq show ?thesis by (auto simp: storage_frame_def)
    qed
    then obtain q2 fs' where
      ad: "(if ?c > nc
         then add_ordered_block q (a + unat (nc * psw)) (element_size ?node - nc * psw) psw
         else Some q) = Some q2" and sf2: "storage_frame q q2"
      and bp2: "block_path (mem q2) (list q2) bs" and fl2: "free_list q2 fs'"
      and so2: "sorted_wrt (<) fs'" and in2: "list_all (in_blocks ?ps ?all) fs'" by blast
    let ?q3 = "q2\<lparr>next_size := grown q2 psw (next_size q2)\<rparr>"
    have rs2: "requested_size q2 \<noteq> 0" using rs sf2 by (simp add: storage_frame_def)
    have gr: "grow_next_size q2 psw = Some ?q3" using rs2 psz by (rule grow_next_size_total)
    have a3: "alloc_size ?q3 = Some psw" using aq sf2 by (simp add: alloc_size_def storage_frame_def)
    have bp3: "block_path (mem ?q3) (list ?q3) bs" using bp2 by simp
    have fl3: "free_list ?q3 fs'" using fl2 by (simp add: free_list_def)
    from insert_block_inv [OF a3 bp3 fl3 so2 in2 d(4) d(5) nb(1) fresh]
    obtain q4 where i1: "insert_ordered ?q3 ?node = Some q4"
      and i2: "pool_inv q4 psw ?all fs'"
      and i3: "next_size q4 = next_size ?q3" and i4: "same_parameters ?q3 q4" by blast
    have n2: "next_size q2 = ?c" using sf2 by (simp add: storage_frame_def)
    have "grown q2 psw ?c \<noteq> 0"
    proof (rule grown_nonzero [OF cq fitq _ rs2])
      show "2 \<le> ?ps" using alloc_size_min [OF d(1)] by simp
      show "unat (max_size q2) * unat (requested_size q2) < 2 ^ 64"
        using szq sf2 by (simp add: sizes_ok_def storage_frame_def)
    qed
    then have "next_size q4 \<noteq> 0" using i3 n2 by simp
    moreover have "same_parameters p q4"
      using sq sf2 i4 by (simp add: same_parameters_def storage_frame_def)
    ultimately have "sizes_ok q4" using sz by (intro sizes_ok_cong [of p q4]) simp_all
    with rb False ad pz gr i1 i2 show ?thesis by auto
  qed
qed


lemma num_chunks_nonzero:
  assumes a: "alloc_size p = Some psw" and ncs: "num_chunks p n = Some nc"
    and n: "n \<noteq> 0" and rs: "requested_size p \<noteq> 0"
    and nn: "unat n * unat (requested_size p) < 2 ^ 64"
  shows "nc \<noteq> 0"
proof -
  have "unat (n * requested_size p) = unat n * unat (requested_size p)"
    using nn by (rule unat_mult_small)
  moreover have "0 < unat n" "0 < unat (requested_size p)" using n rs by (simp_all add: unat_gt_0)
  ultimately have "unat (n * requested_size p) \<noteq> 0" by simp
  then have x: "n * requested_size p \<noteq> 0" unfolding unat_eq_0 .
  have y: "2 \<le> unat psw" using alloc_size_min [OF a] by simp
  from ncs a have "fast_ceil_division (n * requested_size p) psw = Some nc"
    by (simp add: num_chunks_def)
  with x y show ?thesis by (rule fast_ceil_division_nonzero)
qed

lemma ordered_allocate_n_inv:
  assumes inv: "pool_inv p psw bs fs" and sz: "sizes_ok p"
    and nn: "unat n * unat (requested_size p) < 2 ^ 64"
    and ncs: "num_chunks p n = Some nc"
    and env: "returned (allocate_n p nc psw) = Some 0 \<Longrightarrow>
       block_fits (max (next_size p) nc) psw \<and> request_fresh p (request_block_n p nc)"
  shows "\<exists>r p' bs' fs'. ordered_allocate_n p n = Some (r, p') \<and> pool_inv p' psw bs' fs' \<and>
           sizes_ok p'"
proof (cases "n = 0")
  case True
  note d = pool_inv_D [OF inv]
  from ordered_allocate_n_zero [OF d(1)] True inv sz show ?thesis by blast
next
  case False
  let ?ps = "unat psw"
  note d = pool_inv_D [OF inv]
  have rs: "requested_size p \<noteq> 0" using sz by (simp add: sizes_ok_def)
  have nc: "nc \<noteq> 0" using d(1) ncs False rs nn by (rule num_chunks_nonzero)
  from ncs d(1) have fc: "fast_ceil_division (n * requested_size p) psw = Some nc"
    by (simp add: num_chunks_def)
  show ?thesis
  proof (cases "take_run (unat nc) ?ps fs")
    case (Some rys)
    obtain r ys where rys: "rys = (r, ys)" by (cases rys)
    from allocate_n_inv [OF inv nc Some [unfolded rys]] obtain p' where
      1: "allocate_n p nc psw = Some (r, p')" and 2: "r \<noteq> 0" and 3: "pool_inv p' psw bs ys"
      and 4: "storage_frame p p'" by blast
    have "ordered_allocate_n p n = Some (r, p')"
      using d(1) fc 1 2 by (simp add: ordered_allocate_n_def)
    moreover have "sizes_ok p'" using sz 4 by (simp add: sizes_ok_def storage_frame_def)
    ultimately show ?thesis using 3 by blast
  next
    case None
    with allocate_n_result [OF d(3) nc, of psw] have an: "allocate_n p nc psw = Some (0, p)"
      by simp
    then have "returned (allocate_n p nc psw) = Some 0" by (simp add: returned_def)
    from env [OF this] have fits: "block_fits (max (next_size p) nc) psw"
      and rf: "request_fresh p (request_block_n p nc)" by simp_all
    from ordered_allocate_n_grow_inv [OF inv sz nc fits rf] obtain a q where
      rb: "request_block_n p nc = Some (a, q)"
      and rest: "if a = 0 then pool_inv q psw bs fs \<and> sizes_ok q
      else \<exists>q2 q4 bs' fs'.
        (if next_size q > nc
         then add_ordered_block q (a + unat (nc * psw))
                (element_size \<lparr>ptr = a, sz = block_bytes (next_size q) psw\<rparr> - nc * psw) psw
         else Some q) = Some q2 \<and>
        pod_size q = Some (block_bytes (next_size q) psw) \<and>
        grow_next_size q2 psw = Some (q2\<lparr>next_size := grown q2 psw (next_size q2)\<rparr>) \<and>
        insert_ordered (q2\<lparr>next_size := grown q2 psw (next_size q2)\<rparr>)
          \<lparr>ptr = a, sz = block_bytes (next_size q) psw\<rparr> = Some q4 \<and>
        pool_inv q4 psw bs' fs' \<and> sizes_ok q4" by blast
    show ?thesis
    proof (cases "a = 0")
      case True
      then have "ordered_allocate_n p n = Some (0, q)"
        using d(1) fc an False rb by (simp add: ordered_allocate_n_def)
      with rest True show ?thesis by auto
    next
      case a: False
      with rest obtain q2 q4 bs' fs' where
        ad: "(if next_size q > nc
         then add_ordered_block q (a + unat (nc * psw))
                (element_size \<lparr>ptr = a, sz = block_bytes (next_size q) psw\<rparr> - nc * psw) psw
         else Some q) = Some q2"
        and pz: "pod_size q = Some (block_bytes (next_size q) psw)"
        and gr: "grow_next_size q2 psw = Some (q2\<lparr>next_size := grown q2 psw (next_size q2)\<rparr>)"
        and io: "insert_ordered (q2\<lparr>next_size := grown q2 psw (next_size q2)\<rparr>)
          \<lparr>ptr = a, sz = block_bytes (next_size q) psw\<rparr> = Some q4"
        and pi: "pool_inv q4 psw bs' fs'" and so: "sizes_ok q4" by auto
      have "ordered_allocate_n p n = Some (a, q4)"
        using d(1) fc an False rb a pz ad gr io
        by (auto simp add: ordered_allocate_n_def Let_def split: if_splits)
      with pi so show ?thesis by blast
    qed
  qed
qed

section \<open>Sequences of ordered operations\<close>

lemma sorted_block_starts:
  assumes ok: "list_all (block_ok ps) bs" and so: "sorted_wrt block_before bs"
  shows "sorted_wrt (<) (map ptr bs)"
proof -
  have "sorted_wrt (\<lambda>b c. ptr b < ptr c) bs"
  proof (rule sorted_wrt_mono_rel [OF _ so])
    fix b c assume "b \<in> set bs" "c \<in> set bs" "block_before b c"
    with ok show "ptr b < ptr c" by (auto simp: list_all_iff intro: block_before_less)
  qed
  then show ?thesis by (simp add: sorted_wrt_map)
qed

lemma in_use_D:
  assumes inv: "pool_inv p psw bs fs" and u: "in_use p a"
  shows "in_blocks (unat psw) bs a" and "a \<notin> set fs"
proof -
  note d = pool_inv_D [OF inv]
  from u obtain psw' bs' fs' where 1: "alloc_size p = Some psw'"
    and 2: "block_path (mem p) (list p) bs'" and 3: "free_list p fs'"
    and 4: "in_blocks (unat psw') bs' a" and 5: "a \<notin> set fs'"
    unfolding in_use_def by blast
  from 1 d(1) have e1: "psw' = psw" by simp
  from block_path_unique [OF 2 d(2)] have e2: "bs' = bs" .
  from path_unique [OF 3 [unfolded free_list_def] d(3) [unfolded free_list_def]]
  have e3: "fs' = fs" .
  from 4 show "in_blocks (unat psw) bs a" by (simp add: e1 e2)
  from 5 show "a \<notin> set fs" by (simp add: e3)
qed

lemma run_in_use_D:
  assumes inv: "pool_inv p psw bs fs" and u: "run_in_use p a k"
  shows "\<exists>b. b \<in> set bs \<and> set (chunk_seq a k (unat psw)) \<subseteq> set (chunks_of (unat psw) b) \<and>
     set (chunk_seq a k (unat psw)) \<inter> set fs = {}"
proof -
  note d = pool_inv_D [OF inv]
  from u obtain psw' bs' fs' b where 1: "alloc_size p = Some psw'"
    and 2: "block_path (mem p) (list p) bs'" and 3: "free_list p fs'"
    and 4: "b \<in> set bs'"
    and 5: "set (chunk_seq a k (unat psw')) \<subseteq> set (chunks_of (unat psw') b)"
    and 6: "set (chunk_seq a k (unat psw')) \<inter> set fs' = {}"
    unfolding run_in_use_def by blast
  from 1 d(1) have e1: "psw' = psw" by simp
  from block_path_unique [OF 2 d(2)] have e2: "bs' = bs" .
  from path_unique [OF 3 [unfolded free_list_def] d(3) [unfolded free_list_def]]
  have e3: "fs' = fs" .
  from 4 5 6 show ?thesis unfolding e1 e2 e3 by blast
qed

lemma release_memory_inv:
  assumes inv: "pool_inv p psw bs fs" and sz: "sizes_ok p"
  shows "\<exists>r p' bs' fs'. release_memory p = Some (r, p') \<and> pool_inv p' psw bs' fs' \<and> sizes_ok p'"
proof -
  from release_memory_result [OF inv] obtain p' where
    1: "release_memory p = Some (list_ex (all_free (unat psw) fs) bs, p')"
    and 2: "next_size p' = start_size p" and 3: "same_parameters p p'"
    and 4: "pool_inv p' psw (filter (\<lambda>b. \<not> all_free (unat psw) fs b) bs)
       (filter (in_blocks (unat psw) (filter (\<lambda>b. \<not> all_free (unat psw) fs b) bs)) fs)"
    by blast
  have "sizes_ok p'" using sz 2 3 by (simp add: sizes_ok_def same_parameters_def)
  with 1 4 show ?thesis by blast
qed

lemma apply_op_inv:
  assumes inv: "pool_inv p psw bs fs" and sz: "sizes_ok p" and lg: "legal p x"
  shows "\<exists>p' bs' fs'. apply_op p x = Some p' \<and> pool_inv p' psw bs' fs' \<and> sizes_ok p'"
proof (cases x)
  case Ordered_alloc
  note d = pool_inv_D [OF inv]
  show ?thesis
  proof (cases fs)
    case Nil
    with d(3) have "first p = 0" by (simp add: free_list_def)
    with lg d(1) have "block_fits (next_size p) psw" "request_fresh p (request_block p)"
      by (simp_all add: Ordered_alloc)
    from ordered_allocate_grow_inv [OF inv [unfolded Nil] sz this]
    show ?thesis by (auto simp: Ordered_alloc)
  next
    case (Cons f fs')
    from ordered_allocate_pop_inv [OF inv [unfolded Cons]] obtain p' where
      1: "ordered_allocate p = Some (f, p')" and 2: "pool_inv p' psw bs fs'"
      and 3: "next_size p' = next_size p" and 4: "same_parameters p p'" by blast
    have "sizes_ok p'" using sz 3 4 by (simp add: sizes_ok_def same_parameters_def)
    with 1 2 show ?thesis by (auto simp: Ordered_alloc)
  qed
next
  case (Ordered_alloc_n n)
  note d = pool_inv_D [OF inv]
  from lg d(1) obtain nc where nn: "unat n * unat (requested_size p) < 2 ^ 64"
    and ncs: "num_chunks p n = Some nc"
    and env: "returned (allocate_n p nc psw) = Some 0 \<longrightarrow>
       block_fits (max (next_size p) nc) psw \<and> request_fresh p (request_block_n p nc)"
    by (auto simp: Ordered_alloc_n split: option.splits)
  from env have env': "returned (allocate_n p nc psw) = Some 0 \<Longrightarrow>
       block_fits (max (next_size p) nc) psw \<and> request_fresh p (request_block_n p nc)" by simp
  from ordered_allocate_n_inv [OF inv sz nn ncs env']
  show ?thesis by (auto simp: Ordered_alloc_n)
next
  case (Ordered_free a)
  with lg have "in_use p a" by simp
  note u = in_use_D [OF inv this]
  from ordered_deallocate_inv [OF inv u] obtain p' where
    1: "pool_ordered_deallocate p a = Some p'" and 2: "pool_inv p' psw bs (ordered_insert a fs)"
    and 3: "next_size p' = next_size p" and 4: "same_parameters p p'" by blast
  have "sizes_ok p'" using sz 3 4 by (simp add: sizes_ok_def same_parameters_def)
  with 1 2 show ?thesis by (auto simp: Ordered_free)
next
  case (Ordered_free_n a n)
  with lg obtain nc where ncs: "num_chunks p n = Some nc" and u: "run_in_use p a (unat nc)"
    by (auto split: option.splits)
  from run_in_use_D [OF inv u] obtain b where b: "b \<in> set bs"
    and run: "set (chunk_seq a (unat nc) (unat psw)) \<subseteq> set (chunks_of (unat psw) b)"
    and nf: "set (chunk_seq a (unat nc) (unat psw)) \<inter> set fs = {}" by blast
  from ordered_deallocate_n_inv [OF inv ncs b run nf] obtain p' where
    1: "pool_ordered_deallocate_n p a n = Some p'"
    and 2: "pool_inv p' psw bs (insert_run (chunk_seq a (unat nc) (unat psw)) fs)"
    and 3: "next_size p' = next_size p" and 4: "same_parameters p p'" by blast
  have "sizes_ok p'" using sz 3 4 by (simp add: sizes_ok_def same_parameters_def)
  with 1 2 show ?thesis by (auto simp: Ordered_free_n)
next
  case Release
  from release_memory_inv [OF inv sz] show ?thesis by (auto simp: Release)
qed

lemma run_ops_inv:
  "pool_inv p psw bs fs \<Longrightarrow> sizes_ok p \<Longrightarrow> legal_run p ops \<Longrightarrow>
   \<exists>p' bs' fs'. run_ops p ops = Some p' \<and> pool_inv p' psw bs' fs' \<and> sizes_ok p'"
proof (induction ops arbitrary: p bs fs)
  case Nil
  then show ?case by auto
next
  case (Cons x ops)
  from Cons.prems(3) have lg: "legal p x" by simp
  from apply_op_inv [OF Cons.prems(1,2) lg] obtain p1 bs1 fs1 where
    1: "apply_op p x = Some p1" and 2: "pool_inv p1 psw bs1 fs1" and 3: "sizes_ok p1" by blast
  from Cons.prems(3) 1 have "legal_run p1 ops" by simp
  from Cons.IH [OF 2 3 this] 1 show ?case by simp
qed

lemma legal_run_take: "legal_run p ops \<Longrightarrow> legal_run p (take k ops)"
proof (induction ops arbitrary: p k)
  case Nil
  then show ?case by simp
next
  case (Cons x ops)
  show ?case
  proof (cases k)
    case 0
    then show ?thesis by simp
  next
    case (Suc k')
    with Cons show ?thesis by (auto split: option.splits)
  qed
qed

text \<open>
  Claim C4.  A pool in ordered mode, with its sizes in order, runs a sequence of ordered
  operations: \<^verbatim>\<open>ordered_allocate()\<close>, \<^verbatim>\<open>ordered_allocate(n)\<close>,
  \<^verbatim>\<open>ordered_deallocate(p)\<close>, \<^verbatim>\<open>ordered_deallocate(p, n)\<close> and \<^verbatim>\<open>release_memory()\<close>.
  The system allocator hands out blocks that overlap none the pool holds, the sizes
  requested do not wrap, and the caller gives back only chunks in use (\<open>legal_run\<close>).
  Then after every number \<open>k\<close> of these operations the calls have returned, the walk
  along the free list ends and yields strictly ascending addresses, and the walk along
  the block list ends and yields strictly ascending block starts; the pool is in ordered
  mode again.
\<close>

theorem ordered_operations_ascending:
  assumes inv: "pool_inv p psw bs fs" and sz: "sizes_ok p" and lg: "legal_run p ops"
  shows "\<exists>p' bs' fs'. run_ops p (take k ops) = Some p' \<and>
     block_path (mem p') (list p') bs' \<and> free_list p' fs' \<and>
     sorted_wrt (<) fs' \<and> sorted_wrt (<) (map ptr bs') \<and>
     pool_inv p' psw bs' fs' \<and> sizes_ok p'"
proof -
  from lg have "legal_run p (take k ops)" by (rule legal_run_take)
  from run_ops_inv [OF inv sz this] obtain p' bs' fs' where
    1: "run_ops p (take k ops) = Some p'" and 2: "pool_inv p' psw bs' fs'" and 3: "sizes_ok p'"
    by blast
  note d = pool_inv_D [OF 2]
  have "sorted_wrt (<) (map ptr bs')" using d(4) d(5) by (rule sorted_block_starts)
  with 1 2 3 d(2) d(3) d(6) show ?thesis by blast
qed

lemma freshI:
  "block_path (mem p) (list p) bs \<Longrightarrow>
   list_all (\<lambda>b. block_before b node \<or> block_before node b) bs \<Longrightarrow> fresh p node"
  unfolding fresh_def by blast

lemma in_useI:
  "alloc_size p = Some psw \<Longrightarrow> block_path (mem p) (list p) bs \<Longrightarrow> free_list p fs \<Longrightarrow>
   in_blocks (unat psw) bs a \<Longrightarrow> a \<notin> set fs \<Longrightarrow> in_use p a"
  unfolding in_use_def by blast

lemma run_in_useI:
  "alloc_size p = Some psw \<Longrightarrow> block_path (mem p) (list p) bs \<Longrightarrow> free_list p fs \<Longrightarrow>
   b \<in> set bs \<Longrightarrow> set (chunk_seq a k (unat psw)) \<subseteq> set (chunks_of (unat psw) b) \<Longrightarrow>
   set (chunk_seq a k (unat psw)) \<inter> set fs = {} \<Longrightarrow> run_in_use p a k"
  unfolding run_in_use_def by blast

lemma legal_run_Cons:
  "legal p x \<Longrightarrow> apply_op p x = Some p' \<Longrightarrow> legal_run p' xs \<Longrightarrow> legal_run p (x # xs)"
  by simp

lemma example_run_legal:
  "legal_run (new_pool 8 1 0 zero_memory sys_pages)
     [Ordered_alloc, Ordered_alloc, Ordered_free 4096, Release, Ordered_alloc_n 2,
      Ordered_free_n 12288 2, Release]"
proof -
  define p0 where "p0 = new_pool 8 1 0 zero_memory sys_pages"
  define p1 where "p1 = the (apply_op p0 Ordered_alloc)"
  define p2 where "p2 = the (apply_op p1 Ordered_alloc)"
  define p3 where "p3 = the (apply_op p2 (Ordered_free 4096))"
  define p4 where "p4 = the (apply_op p3 Release)"
  define p5 where "p5 = the (apply_op p4 (Ordered_alloc_n 2))"
  define p6 where "p6 = the (apply_op p5 (Ordered_free_n 12288 2))"
  note defs = p6_def p5_def p4_def p3_def p2_def p1_def p0_def
  have s1: "apply_op p0 Ordered_alloc = Some p1" by (simp add: defs eval_defs)
  have s2: "apply_op p1 Ordered_alloc = Some p2" by (simp add: defs eval_defs)
  have s3: "apply_op p2 (Ordered_free 4096) = Some p3" by (simp add: defs eval_defs)
  have s4: "apply_op p3 Release = Some p4" by (simp add: defs eval_defs)
  have s5: "apply_op p4 (Ordered_alloc_n 2) = Some p5" by (simp add: defs eval_defs)
  have s6: "apply_op p5 (Ordered_free_n 12288 2) = Some p6" by (simp add: defs eval_defs)
  have f0: "fresh p0 \<lparr>ptr = 4096, sz = 24\<rparr>"
    by (rule freshI [of _ "[]"]) (simp_all add: defs eval_defs)
  have l0: "legal p0 Ordered_alloc"
    using f0 by (simp add: defs request_fresh_def block_fits_def eval_defs)
  have f1: "fresh p1 \<lparr>ptr = 8192, sz = 32\<rparr>"
    by (rule freshI [of _ "[\<lparr>ptr = 4096, sz = 24\<rparr>]"])
      (simp_all add: defs block_before_def eval_defs)
  have l1: "legal p1 Ordered_alloc"
    using f1 by (simp add: defs request_fresh_def block_fits_def eval_defs)
  have l2: "legal p2 (Ordered_free 4096)"
    unfolding legal.simps
    by (rule in_useI [of _ 8 "[\<lparr>ptr = 4096, sz = 24\<rparr>, \<lparr>ptr = 8192, sz = 32\<rparr>]" "[8200]"])
      (simp_all add: defs free_list_def in_blocks_def pool_j_chunks eval_defs)
  have l3: "legal p3 Release" by simp
  have f4: "fresh p4 \<lparr>ptr = 12288, sz = 32\<rparr>"
    by (rule freshI [of _ "[\<lparr>ptr = 8192, sz = 32\<rparr>]"])
      (simp_all add: defs block_before_def eval_defs)
  have l4: "legal p4 (Ordered_alloc_n 2)"
    using f4 by (simp add: defs num_chunks_def request_fresh_def block_fits_def eval_defs)
  have c3: "chunks_of 8 \<lparr>ptr = 12288, sz = 32\<rparr> = [12288, 12296]"
    by (simp add: chunks_of_def chunk_seq_def chunk_count_def upt_rec eval_defs)
  have r5: "run_in_use p5 12288 2"
    by (rule run_in_useI [of _ 8 "[\<lparr>ptr = 8192, sz = 32\<rparr>, \<lparr>ptr = 12288, sz = 32\<rparr>]" "[8200]"
          "\<lparr>ptr = 12288, sz = 32\<rparr>"])
      (simp_all add: defs free_list_def c3 chunk_seq_def upt_rec eval_defs)
  have l5: "legal p5 (Ordered_free_n 12288 2)"
    using r5 by (simp add: defs num_chunks_def eval_defs)
  have l6: "legal p6 Release" by simp
  have "legal_run p6 [Release]" by (simp split: option.splits)
  from legal_run_Cons [OF l5 s6 this] have "legal_run p5 [Ordered_free_n 12288 2, Release]" .
  from legal_run_Cons [OF l4 s5 this] have "legal_run p4 [Ordered_alloc_n 2,
      Ordered_free_n 12288 2, Release]" .
  from legal_run_Cons [OF l3 s4 this] have "legal_run p3 [Release, Ordered_alloc_n 2,
      Ordered_free_n 12288 2, Release]" .
  from legal_run_Cons [OF l2 s3 this] have "legal_run p2 [Ordered_free 4096, Release, Ordered_alloc_n 2,
      Ordered_free_n 12288 2, Release]" .
  from legal_run_Cons [OF l1 s2 this] have "legal_run p1 [Ordered_alloc, Ordered_free 4096, Release,
      Ordered_alloc_n 2, Ordered_free_n 12288 2, Release]" .
  from legal_run_Cons [OF l0 s1 this] show ?thesis unfolding p0_def .
qed


lemma example_pool_start:
  "pool_inv (new_pool 8 1 0 zero_memory sys_pages) 8 [] []"
  "sizes_ok (new_pool 8 1 0 zero_memory sys_pages)"
  by (simp_all add: pool_inv_def sizes_ok_def free_list_def eval_defs)

lemma example_run_state:
  "\<exists>p'. run_ops (new_pool 8 1 0 zero_memory sys_pages)
       [Ordered_alloc, Ordered_alloc, Ordered_free 4096, Release, Ordered_alloc_n 2,
        Ordered_free_n 12288 2] = Some p' \<and>
     block_path (mem p') (list p') [\<lparr>ptr = 8192, sz = 32\<rparr>, \<lparr>ptr = 12288, sz = 32\<rparr>] \<and>
     free_list p' [8200, 12288, 12296] \<and>
     released (sys p') = [4096]"
  by (simp add: free_list_def eval_defs)

text \<open>
  A pool of 8-byte chunks that starts with blocks of one chunk, on a system allocator
  that hands out the addresses 4096, 8192, 12288: two chunks are taken, the first is
  given back and its block released, then two chunks are taken together and given back.
\<close>

theorem ordered_operations_ascending_witness:
  "pool_inv (new_pool 8 1 0 zero_memory sys_pages) 8 [] [] \<and>
   sizes_ok (new_pool 8 1 0 zero_memory sys_pages) \<and>
   legal_run (new_pool 8 1 0 zero_memory sys_pages)
     [Ordered_alloc, Ordered_alloc, Ordered_free 4096, Release, Ordered_alloc_n 2,
      Ordered_free_n 12288 2, Release] \<and>
   (\<exists>p'. run_ops (new_pool 8 1 0 zero_memory sys_pages)
       [Ordered_alloc, Ordered_alloc, Ordered_free 4096, Release, Ordered_alloc_n 2,
        Ordered_free_n 12288 2] = Some p' \<and>
     block_path (mem p') (list p') [\<lparr>ptr = 8192, sz = 32\<rparr>, \<lparr>ptr = 12288, sz = 32\<rparr>] \<and>
     free_list p' [8200, 12288, 12296] \<and>
     pool_inv p' 8 [\<lparr>ptr = 8192, sz = 32\<rparr>, \<lparr>ptr = 12288, sz = 32\<rparr>] [8200, 12288, 12296] \<and>
     sizes_ok p')"
proof -
  let ?p0 = "new_pool 8 1 0 zero_memory sys_pages"
  let ?ops = "[Ordered_alloc, Ordered_alloc, Ordered_free 4096, Release, Ordered_alloc_n 2,
      Ordered_free_n 12288 2, Release]"
  from ordered_operations_ascending [OF example_pool_start example_run_legal, of 6]
  obtain p' bs' fs' where 1: "run_ops ?p0 (take 6 ?ops) = Some p'"
    and 2: "block_path (mem p') (list p') bs'" and 3: "free_list p' fs'"
    and 4: "pool_inv p' 8 bs' fs'" and 5: "sizes_ok p'" by blast
  from example_run_state obtain q where 6: "run_ops ?p0 (take 6 ?ops) = Some q"
    and 7: "block_path (mem q) (list q) [\<lparr>ptr = 8192, sz = 32\<rparr>, \<lparr>ptr = 12288, sz = 32\<rparr>]"
    and 8: "free_list q [8200, 12288, 12296]" by auto
  from 1 6 have q: "q = p'" by simp
  from block_path_unique [OF 2 7 [unfolded q]]
  have b: "bs' = [\<lparr>ptr = 8192, sz = 32\<rparr>, \<lparr>ptr = 12288, sz = 32\<rparr>]" .
  from path_unique [OF 3 [unfolded free_list_def] 8 [unfolded q free_list_def]]
  have f: "fs' = [8200, 12288, 12296]" .
  from 1 have 1: "run_ops ?p0 [Ordered_alloc, Ordered_alloc, Ordered_free 4096, Release,
      Ordered_alloc_n 2, Ordered_free_n 12288 2] = Some p'" by (simp add: numeral_eq_Suc)
  from 1 2 3 4 5 example_pool_start example_run_legal show ?thesis unfolding b f by blast
qed

section \<open>The parameters of a pool\<close>

lemma purge_loop_returns:
  "block_path (mem p) b (b # rest) \<Longrightarrow> \<exists>p'. purge_loop p b = Some p'"
proof (induction rest arbitrary: p b)
  case Nil
  then show ?case by (subst purge_loop.simps) simp
next
  case (Cons c rest)
  from Cons.prems have c: "pod_next (mem p) b = c" "valid c"
    and bp: "block_path (mem p) c (c # rest)" by simp_all
  have "block_path (mem (sys_deallocate p (ptr b))) c (c # rest)" using bp by simp
  from Cons.IH [OF this] obtain p' where "purge_loop (sys_deallocate p (ptr b)) c = Some p'" ..
  then show ?case using c by (subst purge_loop.simps) simp
qed

lemma purge_memory_returns:
  assumes "block_path (mem p) (list p) bs"
  shows "\<exists>r q. purge_memory p = Some (r, q)"
proof (cases bs)
  case Nil
  with assms have "purge_memory p = Some (False, p)" by (simp add: purge_memory_def)
  then show ?thesis by blast
next
  case (Cons b rest)
  with assms have l: "list p = b" "valid b" by simp_all
  from purge_loop_returns [of p b rest] assms Cons l obtain p' where
    "purge_loop p b = Some p'" by auto
  with l have "purge_memory p =
      Some (True, p'\<lparr>list := (list p')\<lparr>ptr := 0\<rparr>, first := 0, next_size := start_size p'\<rparr>)"
    by (simp add: purge_memory_def)
  then show ?thesis by blast
qed

text \<open>
  Claim C10.  When \<^verbatim>\<open>release_memory\<close> or \<^verbatim>\<open>purge_memory\<close> returns, \<^verbatim>\<open>start_size_\<close>
  and \<^verbatim>\<open>max_size_\<close> (and the requested chunk size) are what they were;
  \<^verbatim>\<open>release_memory\<close> sets \<^verbatim>\<open>next_size_\<close> to \<^verbatim>\<open>start_size_\<close>; \<^verbatim>\<open>purge_memory\<close> does so
  too, clears the free-list head and invalidates the block list when it held a block, and
  changes nothing when it held none.  And they do return: \<^verbatim>\<open>purge_memory\<close> when the walk
  along the block list ends, \<^verbatim>\<open>release_memory\<close> when the pool is in ordered mode.
\<close>

theorem release_purge_parameters:
  "(release_memory p = Some (b, p') \<longrightarrow>
      start_size p' = start_size p \<and> max_size p' = max_size p \<and>
      requested_size p' = requested_size p \<and> next_size p' = start_size p) \<and>
   (purge_memory p = Some (b, p') \<longrightarrow>
      start_size p' = start_size p \<and> max_size p' = max_size p \<and>
      requested_size p' = requested_size p \<and>
      (b \<longrightarrow> next_size p' = start_size p \<and> first p' = 0 \<and> \<not> valid (list p')) \<and>
      (\<not> b \<longrightarrow> p' = p)) \<and>
   (block_path (mem p) (list p) bs \<longrightarrow> (\<exists>r q. purge_memory p = Some (r, q))) \<and>
   (pool_inv p psw bs fs \<longrightarrow> (\<exists>r q. release_memory p = Some (r, q)))"
proof (intro conjI impI)
  assume r: "release_memory p = Some (b, p')"
  then obtain ps q where l: "release_loop p ps (list p) pod_null (first p) 0 False = Some (b, q)"
    and p': "p' = q\<lparr>next_size := start_size q\<rparr>"
    by (auto simp: release_memory_def split: bind_splits)
  from release_loop_parameters_aux [OF l] p'
  show "start_size p' = start_size p" "max_size p' = max_size p"
    "requested_size p' = requested_size p" "next_size p' = start_size p"
    by (simp_all add: same_parameters_def)
next
  assume r: "purge_memory p = Some (b, p')"
  show "start_size p' = start_size p" "max_size p' = max_size p"
    "requested_size p' = requested_size p"
    using r by (auto simp: purge_memory_def same_parameters_def split: bind_splits if_splits
        dest!: purge_loop_parameters_aux)
  {
    assume b
    with r show "next_size p' = start_size p" "first p' = 0" "\<not> valid (list p')"
      by (auto simp: purge_memory_def same_parameters_def valid_def
          split: bind_splits if_splits dest!: purge_loop_parameters_aux)
  }
  {
    assume "\<not> b"
    with r show "p' = p"
      by (auto simp: purge_memory_def split: bind_splits if_splits)
  }
next
  assume "block_path (mem p) (list p) bs"
  then show "\<exists>r q. purge_memory p = Some (r, q)" by (rule purge_memory_returns)
next
  assume "pool_inv p psw bs fs"
  from release_memory_result [OF this] show "\<exists>r q. release_memory p = Some (r, q)" by blast
qed

lemma pool_i_inv: "pool_inv pool_i 8 [\<lparr>ptr = 4096, sz = 48\<rparr>] [4104, 4112, 4120]"
  by (simp add: pool_inv_def pool_i_def free_list_def block_ok_def chunk_count_def
      in_blocks_def chunks_of_def chunk_seq_def block_before_def eval_defs)

text \<open>The pool \<open>pool_i\<close>, which holds one block with a chunk in use.\<close>

theorem release_purge_parameters_witness:
  "returned (release_memory pool_i) = Some False \<and>
   returned (purge_memory pool_i) = Some True \<and>
   next_size pool_i = 8 \<and>
   pool_inv pool_i 8 [\<lparr>ptr = 4096, sz = 48\<rparr>] [4104, 4112, 4120] \<and>
   (\<exists>p'. release_memory pool_i = Some (False, p') \<and>
      start_size p' = 4 \<and> max_size p' = 0 \<and> next_size p' = 4) \<and>
   (\<exists>p'. purge_memory pool_i = Some (True, p') \<and>
      start_size p' = 4 \<and> max_size p' = 0 \<and> next_size p' = 4 \<and> first p' = 0)"
proof -
  note d = pool_inv_D [OF pool_i_inv]
  from release_purge_parameters
    [of pool_i False undefined "[\<lparr>ptr = 4096, sz = 48\<rparr>]" 8 "[4104, 4112, 4120]"]
    pool_i_inv d(2)
  obtain r1 p1 r2 p2 where "release_memory pool_i = Some (r1, p1)"
    "purge_memory pool_i = Some (r2, p2)" by blast
  with pool_i_release pool_i_purge
  have 1: "release_memory pool_i = Some (False, p1)" and 2: "purge_memory pool_i = Some (True, p2)"
    by (simp_all add: returned_def)
  from release_purge_parameters [of pool_i False p1] 1 pool_i_sizes
  have 3: "start_size p1 = 4 \<and> max_size p1 = 0 \<and> next_size p1 = 4" by simp
  from release_purge_parameters [of pool_i True p2] 2 pool_i_sizes
  have 4: "start_size p2 = 4 \<and> max_size p2 = 0 \<and> next_size p2 = 4 \<and> first p2 = 0" by simp
  from 1 2 3 4 pool_i_release pool_i_purge pool_i_sizes pool_i_inv show ?thesis by blast
qed

section \<open>The fast allocator\<close>

lemma deallocate_n_prepend:
  fixes nc ps :: size_type
  assumes fl: "free_list s ys" and nz: "nc \<noteq> 0" and ps: "ps \<noteq> 0"
    and nw: "unat nc * unat ps < 2 ^ 64" and p0: "p \<noteq> 0"
    and out: "list_all (\<lambda>y. y + pointer_size \<le> p \<or> p + unat nc * unat ps \<le> y) ys"
  shows "\<exists>s'. deallocate_n s p nc ps = Some s' \<and>
     free_list s' (chunk_seq p (unat nc) (unat ps) @ ys) \<and> storage_frame s s'"
proof -
  let ?k = "unat nc" and ?ps = "unat ps" and ?m = "mem s"
  let ?run = "chunk_seq p ?k ?ps"
  have ps0: "0 < ?ps" using ps by (simp add: unat_gt_0)
  have k0: "0 < ?k" using nz by (simp add: unat_gt_0)
  have sz: "unat (nc * ps) = ?k * ?ps" using nw by (rule unat_mult_small)
  have "?ps \<le> ?k * ?ps" using k0 by simp
  then have le: "ps \<le> nc * ps" by (simp add: word_le_nat_alt sz)
  have kd: "unat (nc * ps) div ?ps = ?k" using ps0 by (simp add: sz)
  from segregate_result [OF ps le, of ?m p "first s"] obtain m' where
    sg: "segregate ?m p (nc * ps) ps (first s) = Some (m', p)"
    and l1: "\<forall>i. Suc i < ?k \<longrightarrow> m' (p + i * ?ps) = p + Suc i * ?ps"
    and l2: "m' (p + (?k - 1) * ?ps) = first s"
    and l3: "\<forall>c. c \<notin> set ?run \<longrightarrow> m' c = ?m c"
    unfolding kd by blast
  let ?s' = "s\<lparr>mem := m', first := p\<rparr>"
  have run: "deallocate_n s p nc ps = Some ?s'"
    using nz sg by (simp add: deallocate_n_def add_block_def)
  have r1: "path m' p ?run (first s)"
    using l1 l2 k0 p0 by (intro path_chunk_seq) simp_all
  have "path m' (first s) ys 0 \<longleftrightarrow> path ?m (first s) ys 0"
  proof (rule path_cong)
    fix c assume c: "c \<in> set ys"
    with out have o: "c + pointer_size \<le> p \<or> p + ?k * ?ps \<le> c" by (auto simp: list_all_iff)
    have "c \<notin> set ?run"
    proof
      assume "c \<in> set ?run"
      then obtain i where i: "i < ?k" "c = p + i * ?ps" by (auto simp: set_chunk_seq)
      from i(1) have "Suc i * ?ps \<le> ?k * ?ps" by (intro mult_le_mono1) simp
      then have "c + ?ps \<le> p + ?k * ?ps" using i(2) by simp
      with ps0 have "c < p + ?k * ?ps" by linarith
      moreover have "p \<le> c" using i(2) by simp
      ultimately show False using o unfolding pointer_size_def by linarith
    qed
    with l3 show "m' c = ?m c" by simp
  qed
  with fl have r2: "path m' (first s) ys 0" by (simp add: free_list_def)
  have "free_list ?s' (?run @ ys)" using path_appendI [OF r1 r2] by (simp add: free_list_def)
  with run show ?thesis by (simp add: storage_frame_def)
qed


lemma pool_deallocate_n_prepend:
  assumes a: "alloc_size pl = Some ps" and ncs: "num_chunks pl n = Some nc" and nz: "nc \<noteq> 0"
    and nw: "unat nc * unat ps < 2 ^ 64" and fl: "free_list pl ys" and p0: "p \<noteq> 0"
    and out: "list_all (\<lambda>y. y + pointer_size \<le> p \<or> p + unat nc * unat ps \<le> y) ys"
  shows "\<exists>pl'. pool_deallocate_n pl p n = Some pl' \<and>
     free_list pl' (chunk_seq p (unat nc) (unat ps) @ ys) \<and> sys pl' = sys pl"
proof -
  have ps: "ps \<noteq> 0" using a by (rule alloc_size_nonzero)
  from ncs a have fc: "fast_ceil_division (n * requested_size pl) ps = Some nc"
    by (simp add: num_chunks_def)
  from deallocate_n_prepend [OF fl nz ps nw p0 out] obtain pl' where
    "deallocate_n pl p nc ps = Some pl'"
    "free_list pl' (chunk_seq p (unat nc) (unat ps) @ ys)" "storage_frame pl pl'" by blast
  then show ?thesis using a fc by (simp add: pool_deallocate_n_def storage_frame_def)
qed

text \<open>
  Claim C7, as the code has it.  The fast allocator sends every \<^verbatim>\<open>allocate(n)\<close> with
  \<^verbatim>\<open>n != 1\<close> to \<^verbatim>\<open>ordered_allocate(n)\<close>, whatever the function called for
  \<^verbatim>\<open>n == 1\<close> is.  It sends \<^verbatim>\<open>deallocate(p, 1)\<close> to the unordered
  \<^verbatim>\<open>deallocate(p)\<close>, which makes \<open>p\<close> the head of the free list, and every other
  \<^verbatim>\<open>deallocate(p, n)\<close> to the unordered \<^verbatim>\<open>deallocate(p, n)\<close>, which puts the chunks
  of the \<open>n\<close> objects, in ascending order, ahead of the chunks that were free, whatever
  their addresses.  Here \<open>p\<close> is not null and the chunks given back overlap no free
  chunk.
\<close>

theorem fast_pool_allocator_routes:
  "(n \<noteq> 1 \<longrightarrow>
      fast_pool_allocator_allocate allocate_1 pl n = raise_if_null n (ordered_allocate_n pl n)) \<and>
   fast_pool_allocator_deallocate pl p 1 = Some (pool_deallocate pl p) \<and>
   (n \<noteq> 1 \<longrightarrow> fast_pool_allocator_deallocate pl p n = pool_deallocate_n pl p n) \<and>
   (free_list pl ys \<and> p \<noteq> 0 \<and> list_all (apart p) ys \<longrightarrow>
      free_list (pool_deallocate pl p) (p # ys) \<and> sys (pool_deallocate pl p) = sys pl) \<and>
   (n \<noteq> 1 \<and> alloc_size pl = Some ps \<and> num_chunks pl n = Some nc \<and> nc \<noteq> 0 \<and>
    unat nc * unat ps < 2 ^ 64 \<and> free_list pl ys \<and> p \<noteq> 0 \<and>
    list_all (\<lambda>y. y + pointer_size \<le> p \<or> p + unat nc * unat ps \<le> y) ys \<longrightarrow>
      (\<exists>pl'. fast_pool_allocator_deallocate pl p n = Some pl' \<and>
         free_list pl' (chunk_seq p (unat nc) (unat ps) @ ys) \<and> sys pl' = sys pl))"
proof (intro conjI impI)
  assume "n \<noteq> 1"
  then show "fast_pool_allocator_allocate allocate_1 pl n =
      raise_if_null n (ordered_allocate_n pl n)"
    by (simp add: fast_pool_allocator_allocate_def)
next
  show "fast_pool_allocator_deallocate pl p 1 = Some (pool_deallocate pl p)"
    by (simp add: fast_pool_allocator_deallocate_def)
next
  assume "n \<noteq> 1"
  then show "fast_pool_allocator_deallocate pl p n = pool_deallocate_n pl p n"
    by (simp add: fast_pool_allocator_deallocate_def)
next
  assume h: "free_list pl ys \<and> p \<noteq> 0 \<and> list_all (apart p) ys"
  then have "p \<notin> set ys" by (simp add: apart_notin)
  with h show "free_list (pool_deallocate pl p) (p # ys)"
    by (simp add: pool_deallocate_def deallocate_push)
  show "sys (pool_deallocate pl p) = sys pl" by (simp add: pool_deallocate_def deallocate_def)
next
  assume h: "n \<noteq> 1 \<and> alloc_size pl = Some ps \<and> num_chunks pl n = Some nc \<and> nc \<noteq> 0 \<and>
    unat nc * unat ps < 2 ^ 64 \<and> free_list pl ys \<and> p \<noteq> 0 \<and>
    list_all (\<lambda>y. y + pointer_size \<le> p \<or> p + unat nc * unat ps \<le> y) ys"
  then have 1: "alloc_size pl = Some ps" and 2: "num_chunks pl n = Some nc" and 3: "nc \<noteq> 0"
    and 4: "unat nc * unat ps < 2 ^ 64" and 5: "free_list pl ys" and 6: "p \<noteq> 0"
    and 7: "list_all (\<lambda>y. y + pointer_size \<le> p \<or> p + unat nc * unat ps \<le> y) ys"
    and n: "n \<noteq> 1" by simp_all
  from pool_deallocate_n_prepend [OF 1 2 3 4 5 6 7] n
  show "\<exists>pl'. fast_pool_allocator_deallocate pl p n = Some pl' \<and>
         free_list pl' (chunk_seq p (unat nc) (unat ps) @ ys) \<and> sys pl' = sys pl"
    by (simp add: fast_pool_allocator_deallocate_def)
qed

lemma pool_c_fast_deallocate_first: "map_option first pool_c_fast_deallocate = Some 4104"
  by (simp add: pool_c_fast_deallocate_def pool_c_def eval_defs)

lemma pool_c_ordered_deallocate_first: "map_option first pool_c_ordered_deallocate = Some 4096"
  by (simp add: pool_c_ordered_deallocate_def pool_c_def eval_defs)

lemma pool_c_first: "map_option first pool_c = Some 4096"
  by (simp add: pool_c_def eval_defs)

text \<open>
  A pool of 8-byte chunks after \<^verbatim>\<open>ordered_allocate()\<close>, \<^verbatim>\<open>ordered_allocate(2)\<close> and
  the ordered return of the first chunk: its free list starts at 4096.  Giving the pair
  at 4104 back through the fast allocator makes 4104 the head, ahead of 4096; the ordered
  path keeps 4096 at the head.
\<close>

theorem fast_pool_allocator_deallocate_counterexample:
  "map_option first pool_c = Some 4096 \<and>
   map_option first pool_c_fast_deallocate = Some 4104 \<and>
   map_option first pool_c_ordered_deallocate = Some 4096"
  using pool_c_first pool_c_fast_deallocate_first pool_c_ordered_deallocate_first by simp

lemma pool_c_facts:
  "free_list (the pool_c) [4096, 4120]" "alloc_size (the pool_c) = Some 8"
  "num_chunks (the pool_c) 2 = Some 2"
  by (simp_all add: pool_c_def pool_i_def free_list_def num_chunks_def eval_defs)

lemma pool_i_allocate_2:
  "returned (ordered_allocate_n pool_i 2) = Some 4104"
  "returned (raise_if_null 2 (ordered_allocate_n pool_i 2)) = Some (Inr 4104)"
  by (simp_all add: returned_def raise_if_null_def pool_i_def eval_defs)

text \<open>
  The pool \<open>pool_i\<close> has handed out 4096; asked for two objects it hands out the pair
  at 4104.  In the pool \<open>pool_c\<close> that pair is in use and 4096 and 4120 are free: given
  back as one object, 4104 becomes the head of the free list; given back as two objects,
  4104 and 4112 come ahead of 4096 and 4120.
\<close>

theorem fast_pool_allocator_routes_witness:
  "returned (ordered_allocate_n pool_i 2) = Some 4104 \<and>
   returned (fast_pool_allocator_allocate (\<lambda>pl n. pool_allocate pl) pool_i 2) = Some (Inr 4104) \<and>
   free_list (the pool_c) [4096, 4120] \<and>
   alloc_size (the pool_c) = Some 8 \<and> num_chunks (the pool_c) 2 = Some 2 \<and>
   fast_pool_allocator_deallocate (the pool_c) 4104 1 = Some (pool_deallocate (the pool_c) 4104) \<and>
   free_list (pool_deallocate (the pool_c) 4104) [4104, 4096, 4120] \<and>
   (\<exists>pl'. fast_pool_allocator_deallocate (the pool_c) 4104 2 = Some pl' \<and>
      free_list pl' [4104, 4112, 4096, 4120] \<and> sys pl' = sys (the pool_c))"
proof -
  note r = fast_pool_allocator_routes [of 2 "\<lambda>pl n. pool_allocate pl" pool_i 4104 "[]" 8 2]
  note t = fast_pool_allocator_routes
    [of 2 "\<lambda>pl n. pool_allocate pl" "the pool_c" 4104 "[4096, 4120]" 8 2]
  have c: "chunk_seq 4104 2 8 = [4104, 4112]" by (simp add: chunk_seq_def upt_rec)
  have 1: "returned (fast_pool_allocator_allocate (\<lambda>pl n. pool_allocate pl) pool_i 2) =
      Some (Inr 4104)" using r pool_i_allocate_2(2) by simp
  have 2: "fast_pool_allocator_deallocate (the pool_c) 4104 1 =
      Some (pool_deallocate (the pool_c) 4104)" using t by simp
  have 3: "free_list (pool_deallocate (the pool_c) 4104) [4104, 4096, 4120]"
    using t [THEN conjunct2, THEN conjunct2, THEN conjunct2, THEN conjunct1] pool_c_facts(1)
    by (simp add: apart_def pointer_size_def)
  have 4: "\<exists>pl'. fast_pool_allocator_deallocate (the pool_c) 4104 2 = Some pl' \<and>
      free_list pl' [4104, 4112, 4096, 4120] \<and> sys pl' = sys (the pool_c)"
    using t [THEN conjunct2, THEN conjunct2, THEN conjunct2, THEN conjunct2] pool_c_facts
    by (simp add: pointer_size_def c)
  from 1 2 3 4 pool_c_facts pool_i_allocate_2(1) show ?thesis by blast
qed


end
